theory Spec2Isabelle
  imports Complex_Main
begin

section \<open>Minesweeper: the minefield engine and the game state machine\<close>

text \<open>
  A shallow embedding of \<^verbatim>\<open>src/Games/Minesweeper/minesweeper.js\<close>. The file holds two
  variants of the game; the functions modelled here (grid creation, mine placement, neighbour
  counts, reveal with flood fill, flag, chord, hint, win detection) are the same in both, and
  the first variant adds the time-attack timer and the high-score table.

  The module-level variables of the script are the fields of the record \<open>game\<close>; every
  function takes the state and returns the new one. A read of \<^verbatim>\<open>grid[r][c]\<close> outside
  the arrays yields \<^verbatim>\<open>undefined\<close> in JavaScript and the property access on it throws a
  TypeError: the model returns \<open>Inl TypeError\<close> there. \<^verbatim>\<open>Math.random()\<close> is the list
  \<open>randoms\<close> of the values it is going to return; when the list is used up the model
  returns \<open>Inl RandomExhausted\<close>, which for the rejection-sampling loop of
  \<^verbatim>\<open>placeMines\<close> stands for a run that has not finished.
\<close>

subsection \<open>Data model\<close>

datatype error = TypeError | RandomExhausted

record cell =
  isMine :: bool
  isRevealed :: bool
  isFlagged :: bool
  neighborMines :: nat

datatype face = FaceNew | FaceWin | FaceLose

record game =
  grid :: "cell list list"
  rows :: nat
  cols :: nat
  mineCount :: nat
  flagCount :: int
  revealedCount :: nat
  gameOver :: bool
  gameStarted :: bool
  timer :: int
  timerRunning :: bool
  hints :: int
  isTimeAttack :: bool
  timeAttackLimit :: int
  face :: face
  randoms :: "rat list"

text \<open>One entry of the table \<^verbatim>\<open>difficulties\<close>.\<close>

record settings =
  s_rows :: nat
  s_cols :: nat
  s_mines :: nat

text \<open>\<^verbatim>\<open>grid[r][c]\<close>: the cell, or nothing where JavaScript finds \<^verbatim>\<open>undefined\<close>.\<close>

definition cellAt :: "cell list list \<Rightarrow> int \<Rightarrow> int \<Rightarrow> cell option" where
  "cellAt g r c =
     (if 0 \<le> r \<and> r < int (length g) \<and> 0 \<le> c \<and> c < int (length (g ! nat r))
      then Some (g ! nat r ! nat c) else None)"

text \<open>An assignment to a field of \<^verbatim>\<open>grid[r][c]\<close>, made after the cell has been read.\<close>

definition setCell :: "cell list list \<Rightarrow> int \<Rightarrow> int \<Rightarrow> cell \<Rightarrow> cell list list" where
  "setCell g r c x = g[nat r := (g ! nat r)[nat c := x]]"

text \<open>
  The pairs \<^verbatim>\<open>(dr, dc)\<close> that the two nested loops from -1 to 1 visit, in their order,
  without the pair \<^verbatim>\<open>(0, 0)\<close> that \<^verbatim>\<open>continue\<close> skips.
\<close>

definition offsets :: "(int \<times> int) list" where
  "offsets = [(dr, dc). dr \<leftarrow> [-1, 0, 1], dc \<leftarrow> [-1, 0, 1], \<not> (dr = 0 \<and> dc = 0)]"

text \<open>The pairs \<^verbatim>\<open>(r, c)\<close> of the loops over all rows and columns, row by row.\<close>

definition allCoords :: "game \<Rightarrow> (int \<times> int) list" where
  "allCoords s = [(int r, int c). r \<leftarrow> [0..<rows s], c \<leftarrow> [0..<cols s]]"

text \<open>\<^verbatim>\<open>Math.floor(Math.random() * n)\<close> for the value \<open>u\<close> of \<^verbatim>\<open>Math.random()\<close>.\<close>

definition randomIndex :: "rat \<Rightarrow> nat \<Rightarrow> int" where
  "randomIndex u n = \<lfloor>u * of_nat n\<rfloor>"

subsection \<open>Grid creation\<close>

definition createGrid :: "game \<Rightarrow> game" where
  "createGrid s =
     s\<lparr>grid := map (\<lambda>r. map (\<lambda>c. \<lparr>isMine = False, isRevealed = False, isFlagged = False,
                                    neighborMines = 0\<rparr>) [0..<cols s]) [0..<rows s]\<rparr>"

definition initGame :: "settings \<Rightarrow> game \<Rightarrow> game" where
  "initGame d s =
     (createGrid
       (s\<lparr>rows := s_rows d, cols := s_cols d, mineCount := s_mines d,
          grid := [], flagCount := 0, revealedCount := 0,
          gameOver := False, gameStarted := False,
          timer := (if isTimeAttack s then timeAttackLimit s else 0),
          hints := 3, timerRunning := False\<rparr>))\<lparr>face := FaceNew\<rparr>"

subsection \<open>Neighbour counts\<close>

fun countAdjacentMines_loop :: "game \<Rightarrow> int \<Rightarrow> int \<Rightarrow> (int \<times> int) list \<Rightarrow> nat \<Rightarrow> error + nat" where
  "countAdjacentMines_loop s row col [] count = Inr count"
| "countAdjacentMines_loop s row col ((dr, dc) # ds) count =
     (let nr = row + dr; nc = col + dc in
      if nr \<ge> 0 \<and> nr < int (rows s) \<and> nc \<ge> 0 \<and> nc < int (cols s) then
        (case cellAt (grid s) nr nc of
           None \<Rightarrow> Inl TypeError
         | Some cl \<Rightarrow>
             countAdjacentMines_loop s row col ds (if isMine cl then count + 1 else count))
      else countAdjacentMines_loop s row col ds count)"

definition countAdjacentMines :: "game \<Rightarrow> int \<Rightarrow> int \<Rightarrow> error + nat" where
  "countAdjacentMines s row col = countAdjacentMines_loop s row col offsets 0"

fun calculateNumbers_loop :: "game \<Rightarrow> (int \<times> int) list \<Rightarrow> error + game" where
  "calculateNumbers_loop s [] = Inr s"
| "calculateNumbers_loop s ((r, c) # rest) =
     (case cellAt (grid s) r c of
        None \<Rightarrow> Inl TypeError
      | Some cl \<Rightarrow>
          if \<not> isMine cl then
            (case countAdjacentMines s r c of
               Inl e \<Rightarrow> Inl e
             | Inr n \<Rightarrow>
                 calculateNumbers_loop
                   (s\<lparr>grid := setCell (grid s) r c (cl\<lparr>neighborMines := n\<rparr>)\<rparr>) rest)
          else calculateNumbers_loop s rest)"

definition calculateNumbers :: "game \<Rightarrow> error + game" where
  "calculateNumbers s = calculateNumbers_loop s (allCoords s)"

subsection \<open>Mine placement\<close>

text \<open>
  The \<^verbatim>\<open>while (minesPlaced < mineCount)\<close> loop. Each round draws a row and a column;
  it can run forever (more mines than free cells), so the model stops with
  \<open>RandomExhausted\<close> when the supply of random values ends.
\<close>

function placeMines_loop :: "game \<Rightarrow> int \<Rightarrow> int \<Rightarrow> nat \<Rightarrow> error + game" where
  "placeMines_loop s firstRow firstCol minesPlaced =
     (if minesPlaced < mineCount s then
        (case randoms s of
           u1 # u2 # us \<Rightarrow>
             (let r = randomIndex u1 (rows s);
                  c = randomIndex u2 (cols s);
                  isFirstClick = (\<bar>r - firstRow\<bar> \<le> 1 \<and> \<bar>c - firstCol\<bar> \<le> 1);
                  s1 = s\<lparr>randoms := us\<rparr>
              in case cellAt (grid s1) r c of
                   None \<Rightarrow> Inl TypeError
                 | Some cl \<Rightarrow>
                     if \<not> isMine cl \<and> \<not> isFirstClick then
                       placeMines_loop
                         (s1\<lparr>grid := setCell (grid s1) r c (cl\<lparr>isMine := True\<rparr>)\<rparr>)
                         firstRow firstCol (minesPlaced + 1)
                     else placeMines_loop s1 firstRow firstCol minesPlaced)
         | _ \<Rightarrow> Inl RandomExhausted)
      else Inr s)"
  by pat_completeness auto
termination
  by (relation "measure (\<lambda>(s, firstRow, firstCol, minesPlaced). length (randoms s))") auto

definition placeMines :: "game \<Rightarrow> int \<Rightarrow> int \<Rightarrow> error + game" where
  "placeMines s firstRow firstCol =
     (case placeMines_loop s firstRow firstCol 0 of
        Inl e \<Rightarrow> Inl e
      | Inr s' \<Rightarrow> calculateNumbers s')"

subsection \<open>Counting cells\<close>

text \<open>The number of cells of the grid that satisfy \<open>P\<close>.\<close>

definition countCells :: "(cell \<Rightarrow> bool) \<Rightarrow> cell list list \<Rightarrow> nat" where
  "countCells P g = sum_list (map (\<lambda>row. length (filter P row)) g)"

lemma filter_length_update:
  "c < length row \<Longrightarrow>
   length (filter P (row[c := x])) + (if P (row ! c) then 1 else 0) =
   length (filter P row) + (if P x then 1 else 0)"
proof (induction row arbitrary: c)
  case Nil
  then show ?case by simp
next
  case (Cons a row)
  then show ?case by (cases c) auto
qed

lemma countCells_update:
  "r < length g \<Longrightarrow>
   length (filter P row') + a = length (filter P (g ! r)) + b \<Longrightarrow>
   countCells P (g[r := row']) + a = countCells P g + b"
proof (induction g arbitrary: r)
  case Nil
  then show ?case by simp
next
  case (Cons x g)
  then show ?case by (cases r) (auto simp: countCells_def)
qed

lemma cellAt_SomeD:
  "cellAt g r c = Some cl \<Longrightarrow>
   0 \<le> r \<and> 0 \<le> c \<and> nat r < length g \<and> nat c < length (g ! nat r) \<and> cl = g ! nat r ! nat c"
  by (auto simp: cellAt_def split: if_splits)

lemma countCells_setCell:
  assumes "cellAt g r c = Some cl"
  shows "countCells P (setCell g r c x) + (if P cl then 1 else 0) =
         countCells P g + (if P x then 1 else 0)"
proof -
  from cellAt_SomeD[OF assms] have r: "nat r < length g" and c: "nat c < length (g ! nat r)"
    and cl: "cl = g ! nat r ! nat c"
    by auto
  have "length (filter P ((g ! nat r)[nat c := x])) + (if P cl then 1 else 0) =
        length (filter P (g ! nat r)) + (if P x then 1 else 0)"
    unfolding cl using c by (rule filter_length_update)
  with r show ?thesis
    unfolding setCell_def by (rule countCells_update)
qed

text \<open>The cells that are not revealed yet: what the flood fill uses up.\<close>

definition unrevealed :: "cell list list \<Rightarrow> nat" where
  "unrevealed g = countCells (\<lambda>x. \<not> isRevealed x) g"

lemma unrevealed_setCell:
  assumes "cellAt g r c = Some cl" and "\<not> isRevealed cl"
  shows "Suc (unrevealed (setCell g r c (cl\<lparr>isRevealed := True\<rparr>))) = unrevealed g"
  using countCells_setCell[OF assms(1), of "\<lambda>x. \<not> isRevealed x" "cl\<lparr>isRevealed := True\<rparr>"] assms(2)
  by (simp add: unrevealed_def)

subsection \<open>Reveal and flood fill\<close>

text \<open>
  \<^verbatim>\<open>revealCell\<close> calls itself for the eight neighbours of a cell without adjacent mines,
  each call working on the grid the previous one left. \<open>revealCell_loop\<close> is the pair of
  loops over \<^verbatim>\<open>dr\<close> and \<^verbatim>\<open>dc\<close> inside it.
\<close>

function revealCell :: "game \<Rightarrow> int \<Rightarrow> int \<Rightarrow> error + game"
  and revealCell_loop :: "game \<Rightarrow> int \<Rightarrow> int \<Rightarrow> (int \<times> int) list \<Rightarrow> error + game"
where
  "revealCell s row col =
    (if row < 0 \<or> row \<ge> int (rows s) \<or> col < 0 \<or> col \<ge> int (cols s) then Inr s
     else case cellAt (grid s) row col of
       None \<Rightarrow> Inl TypeError
     | Some cl \<Rightarrow>
        if isRevealed cl \<or> isFlagged cl then Inr s
        else
          let s1 = s\<lparr>grid := setCell (grid s) row col (cl\<lparr>isRevealed := True\<rparr>),
                      revealedCount := revealedCount s + 1\<rparr>
          in if neighborMines cl = 0 then revealCell_loop s1 row col offsets else Inr s1)"
| "revealCell_loop s row col [] = Inr s"
| "revealCell_loop s row col ((dr, dc) # ds) =
    (case revealCell s (row + dr) (col + dc) of
       Inl e \<Rightarrow> Inl e
     | Inr s' \<Rightarrow> revealCell_loop s' row col ds)"
  by pat_completeness auto

text \<open>
  Where a call returns, it has not hidden any cell again. This is what makes the nested
  recursion well founded: the second call of the loop starts from the result of the first.
\<close>

lemma revealCell_unrevealed_le:
  "revealCell_revealCell_loop_dom (Inl (s, row, col)) \<Longrightarrow>
     revealCell s row col = Inr s' \<Longrightarrow> unrevealed (grid s') \<le> unrevealed (grid s)"
  "revealCell_revealCell_loop_dom (Inr (s, row, col, ds)) \<Longrightarrow>
     revealCell_loop s row col ds = Inr s' \<Longrightarrow> unrevealed (grid s') \<le> unrevealed (grid s)"
proof (induction s row col and s row col ds arbitrary: s' and s'
       rule: revealCell_revealCell_loop.pinduct)
  case (1 s row col)
  show ?case
  proof (cases "row < 0 \<or> int (rows s) \<le> row \<or> col < 0 \<or> int (cols s) \<le> col")
    case True
    with 1(1,3) show ?thesis by (simp add: revealCell.psimps)
  next
    case inb: False
    show ?thesis
    proof (cases "cellAt (grid s) row col")
      case None
      with inb 1(1,3) show ?thesis by (simp add: revealCell.psimps)
    next
      case (Some cl)
      show ?thesis
      proof (cases "isRevealed cl \<or> isFlagged cl")
        case True
        with inb Some 1(1,3) show ?thesis by (simp add: revealCell.psimps)
      next
        case False
        define s1 where "s1 = s\<lparr>grid := setCell (grid s) row col (cl\<lparr>isRevealed := True\<rparr>),
                      revealedCount := revealedCount s + 1\<rparr>"
        have less: "Suc (unrevealed (grid s1)) = unrevealed (grid s)"
          using unrevealed_setCell[OF Some] False by (simp add: s1_def)
        show ?thesis
        proof (cases "neighborMines cl = 0")
          case True
          then have "revealCell_loop s1 row col offsets = Inr s'"
            using inb Some False 1(1,3) by (simp add: revealCell.psimps s1_def Let_def)
          from 1(2)[OF inb Some False s1_def True this] less show ?thesis by simp
        next
          case nz: False
          then have "s' = s1"
            using inb Some False 1(1,3) by (simp add: revealCell.psimps s1_def Let_def)
          with less show ?thesis by simp
        qed
      qed
    qed
  qed
next
  case (2 s row col)
  then show ?case by (simp add: revealCell_loop.psimps)
next
  case (3 s row col dr dc ds)
  from 3(1,4) obtain s1 where s1: "revealCell s (row + dr) (col + dc) = Inr s1"
    and rest: "revealCell_loop s1 row col ds = Inr s'"
    by (auto simp: revealCell_loop.psimps split: sum.splits)
  from 3(2)[OF s1] 3(3)[OF s1 rest] show ?case by simp
qed

text \<open>
  The measure: the number of unrevealed cells, then the neighbours still to visit. A call
  that goes on to its neighbours has revealed one more cell first.
\<close>

termination revealCell
proof (relation "inv_image (less_than <*lex*> less_than)
    (\<lambda>x. case x of Inl (s, r, c) \<Rightarrow> (unrevealed (grid s), 0::nat)
               | Inr (s, r, c, ds) \<Rightarrow> (unrevealed (grid s), Suc (length ds)))", goal_cases)
  case 1
  then show ?case by (intro wf_inv_image wf_lex_prod wf_less_than)
next
  case (2 s row col cl s1)
  then show ?case using unrevealed_setCell[of "grid s" row col cl] by auto
next
  case (3 s row col dr dc ds)
  then show ?case by simp
next
  case (4 s row col dr dc ds s')
  then show ?case using revealCell_unrevealed_le(1)[of s "row + dr" "col + dc" s'] by auto
qed

declare revealCell.simps [simp del]

definition revealMine :: "game \<Rightarrow> int \<Rightarrow> int \<Rightarrow> error + game" where
  "revealMine s row col =
     (case cellAt (grid s) row col of
        None \<Rightarrow> Inl TypeError
      | Some cl \<Rightarrow> Inr (s\<lparr>grid := setCell (grid s) row col (cl\<lparr>isRevealed := True\<rparr>)\<rparr>))"

fun revealAllMines_loop :: "game \<Rightarrow> (int \<times> int) list \<Rightarrow> error + game" where
  "revealAllMines_loop s [] = Inr s"
| "revealAllMines_loop s ((r, c) # rest) =
     (case cellAt (grid s) r c of
        None \<Rightarrow> Inl TypeError
      | Some cl \<Rightarrow>
          if isMine cl then
            revealAllMines_loop (s\<lparr>grid := setCell (grid s) r c (cl\<lparr>isRevealed := True\<rparr>)\<rparr>) rest
          else revealAllMines_loop s rest)"

definition revealAllMines :: "game \<Rightarrow> error + game" where
  "revealAllMines s = revealAllMines_loop s (allCoords s)"

subsection \<open>Timer, win and loss\<close>

definition startTimer :: "game \<Rightarrow> game" where
  "startTimer s = s\<lparr>timerRunning := True\<rparr>"

definition stopTimer :: "game \<Rightarrow> game" where
  "stopTimer s = s\<lparr>timerRunning := False\<rparr>"

definition checkWin :: "game \<Rightarrow> bool" where
  "checkWin s =
     (let totalCells = int (rows s) * int (cols s);
          safeCells = totalCells - int (mineCount s)
      in int (revealedCount s) = safeCells)"

text \<open>
  \<^verbatim>\<open>endGame(won)\<close>. On a win the script also schedules the high-score entry, which
  touches the stored table only (modelled below, apart from the game).
\<close>

definition endGame :: "bool \<Rightarrow> game \<Rightarrow> error + game" where
  "endGame won s =
     (let s1 = stopTimer (s\<lparr>gameOver := True\<rparr>) in
      if won then Inr (s1\<lparr>face := FaceWin\<rparr>)
      else revealAllMines (s1\<lparr>face := FaceLose\<rparr>))"

text \<open>The callback that \<^verbatim>\<open>startTimer\<close> registers, run once a second while the timer runs.\<close>

definition timerTick :: "game \<Rightarrow> error + game" where
  "timerTick s =
     (if isTimeAttack s then
        (let s1 = s\<lparr>timer := timer s - 1\<rparr> in
         if timer s1 \<le> 0 then endGame False s1 else Inr s1)
      else Inr (s\<lparr>timer := timer s + 1\<rparr>))"

subsection \<open>Game actions\<close>

definition handleReveal :: "game \<Rightarrow> int \<Rightarrow> int \<Rightarrow> error + game" where
  "handleReveal s row col =
     (if gameOver s then Inr s
      else case cellAt (grid s) row col of
        None \<Rightarrow> Inl TypeError
      | Some cl0 \<Rightarrow>
          if isFlagged cl0 \<or> isRevealed cl0 then Inr s
          else
            (case (if \<not> gameStarted s then
                     (case placeMines s row col of
                        Inl e \<Rightarrow> Inl e
                      | Inr s1 \<Rightarrow> Inr ((startTimer s1)\<lparr>gameStarted := True\<rparr>))
                   else Inr s) of
               Inl e \<Rightarrow> Inl e
             | Inr s2 \<Rightarrow>
                 (case cellAt (grid s2) row col of
                    None \<Rightarrow> Inl TypeError
                  | Some cl \<Rightarrow>
                      if isMine cl then
                        (case revealMine s2 row col of
                           Inl e \<Rightarrow> Inl e
                         | Inr s3 \<Rightarrow> endGame False s3)
                      else
                        (case revealCell s2 row col of
                           Inl e \<Rightarrow> Inl e
                         | Inr s3 \<Rightarrow> if checkWin s3 then endGame True s3 else Inr s3))))"

definition handleFlag :: "game \<Rightarrow> int \<Rightarrow> int \<Rightarrow> error + game" where
  "handleFlag s row col =
     (if gameOver s then Inr s
      else case cellAt (grid s) row col of
        None \<Rightarrow> Inl TypeError
      | Some cl \<Rightarrow>
          if isRevealed cl then Inr s
          else
            (let cl' = cl\<lparr>isFlagged := \<not> isFlagged cl\<rparr>;
                 s1 = s\<lparr>grid := setCell (grid s) row col cl'\<rparr>
             in if isFlagged cl' then Inr (s1\<lparr>flagCount := flagCount s1 + 1\<rparr>)
                else Inr (s1\<lparr>flagCount := flagCount s1 - 1\<rparr>)))"

definition getNeighbors :: "game \<Rightarrow> int \<Rightarrow> int \<Rightarrow> (int \<times> int) list" where
  "getNeighbors s row col =
     [(row + dr, col + dc). (dr, dc) \<leftarrow> offsets,
        row + dr \<ge> 0 \<and> row + dr < int (rows s) \<and> col + dc \<ge> 0 \<and> col + dc < int (cols s)]"

text \<open>The first loop of \<^verbatim>\<open>handleChord\<close>: the flagged neighbours.\<close>

fun handleChord_flags :: "game \<Rightarrow> (int \<times> int) list \<Rightarrow> nat \<Rightarrow> error + nat" where
  "handleChord_flags s [] adjacentFlags = Inr adjacentFlags"
| "handleChord_flags s ((nr, nc) # rest) adjacentFlags =
     (case cellAt (grid s) nr nc of
        None \<Rightarrow> Inl TypeError
      | Some cl \<Rightarrow>
          handleChord_flags s rest (if isFlagged cl then adjacentFlags + 1 else adjacentFlags))"

text \<open>The second loop: a reveal for every neighbour that is neither flagged nor revealed.\<close>

fun handleChord_reveal :: "game \<Rightarrow> (int \<times> int) list \<Rightarrow> error + game" where
  "handleChord_reveal s [] = Inr s"
| "handleChord_reveal s ((nr, nc) # rest) =
     (case cellAt (grid s) nr nc of
        None \<Rightarrow> Inl TypeError
      | Some cl \<Rightarrow>
          if \<not> isFlagged cl \<and> \<not> isRevealed cl then
            (case handleReveal s nr nc of
               Inl e \<Rightarrow> Inl e
             | Inr s' \<Rightarrow> handleChord_reveal s' rest)
          else handleChord_reveal s rest)"

definition handleChord :: "game \<Rightarrow> int \<Rightarrow> int \<Rightarrow> error + game" where
  "handleChord s row col =
     (case cellAt (grid s) row col of
        None \<Rightarrow> Inl TypeError
      | Some cl \<Rightarrow>
          if \<not> isRevealed cl \<or> neighborMines cl = 0 then Inr s
          else
            (let neighbors = getNeighbors s row col in
             case handleChord_flags s neighbors 0 of
               Inl e \<Rightarrow> Inl e
             | Inr adjacentFlags \<Rightarrow>
                 if adjacentFlags = neighborMines cl then handleChord_reveal s neighbors
                 else Inr s))"

subsection \<open>Hint\<close>

text \<open>The loop of \<^verbatim>\<open>useHint\<close> that collects \<^verbatim>\<open>safeCells\<close>.\<close>

fun useHint_loop :: "game \<Rightarrow> (int \<times> int) list \<Rightarrow> (int \<times> int) list \<Rightarrow> error + (int \<times> int) list" where
  "useHint_loop s [] safeCells = Inr safeCells"
| "useHint_loop s ((r, c) # rest) safeCells =
     (case cellAt (grid s) r c of
        None \<Rightarrow> Inl TypeError
      | Some cl \<Rightarrow>
          if \<not> isMine cl \<and> \<not> isRevealed cl \<and> \<not> isFlagged cl then
            useHint_loop s rest (safeCells @ [(r, c)])
          else useHint_loop s rest safeCells)"

text \<open>
  \<^verbatim>\<open>useHint\<close> returns the new state and the cell it selected, if any. The reveal of
  that cell happens half a second later, as a call of \<^verbatim>\<open>handleReveal\<close> of its own.
\<close>

definition useHint :: "game \<Rightarrow> error + (game \<times> (int \<times> int) option)" where
  "useHint s =
     (if hints s \<le> 0 \<or> gameOver s \<or> \<not> gameStarted s then Inr (s, None)
      else case useHint_loop s (allCoords s) [] of
        Inl e \<Rightarrow> Inl e
      | Inr safeCells \<Rightarrow>
          if length safeCells > 0 then
            (case randoms s of
               [] \<Rightarrow> Inl RandomExhausted
             | u # us \<Rightarrow>
                 (let i = randomIndex u (length safeCells) in
                  if 0 \<le> i \<and> i < int (length safeCells) then
                    Inr (s\<lparr>randoms := us, hints := hints s - 1\<rparr>, Some (safeCells ! nat i))
                  else Inl TypeError))
          else Inr (s, None))"

subsection \<open>The state machine\<close>

text \<open>
  \<^verbatim>\<open>startGame\<close> sets the mode chosen on the welcome screen and starts a game with the
  settings of the chosen difficulty.
\<close>

definition startGame :: "string \<Rightarrow> settings \<Rightarrow> game \<Rightarrow> game" where
  "startGame mode d s = initGame d (s\<lparr>isTimeAttack := (mode = ''timeattack'')\<rparr>)"

text \<open>
  What the page can do to a game: a click, a right click or long touch, a chord (both
  buttons or the middle one), the hint button, a tick of the timer, a new game (the face
  and the difficulty buttons), a game started from the welcome screen, the slider of the
  time limit, and the way back to the menu, which stops the timer. The mouse handlers drop
  a chord when the game is over; \<^verbatim>\<open>handleReveal\<close> and \<^verbatim>\<open>handleFlag\<close> check that
  themselves. The timer callback runs only while the interval is set.
\<close>

datatype action =
  Reveal int int
| Flag int int
| Chord int int
| Hint
| Tick
| NewGame settings
| StartGame string settings
| TimeLimit int
| BackToMenu

fun step :: "game \<Rightarrow> action \<Rightarrow> error + game" where
  "step s (Reveal row col) = handleReveal s row col"
| "step s (Flag row col) = handleFlag s row col"
| "step s (Chord row col) = (if gameOver s then Inr s else handleChord s row col)"
| "step s Hint =
     (case useHint s of Inl e \<Rightarrow> Inl e | Inr (s', selected) \<Rightarrow> Inr s')"
| "step s Tick = (if timerRunning s then timerTick s else Inr s)"
| "step s (NewGame d) = Inr (initGame d s)"
| "step s (StartGame mode d) = Inr (startGame mode d s)"
| "step s (TimeLimit n) = Inr (s\<lparr>timeAttackLimit := n\<rparr>)"
| "step s BackToMenu = Inr (stopTimer s)"

inductive reachable :: "game \<Rightarrow> bool" where
  reachable_init: "reachable (initGame d s0)"
| reachable_step: "reachable s \<Longrightarrow> step s a = Inr s' \<Longrightarrow> reachable s'"

subsection \<open>High scores\<close>

text \<open>
  \<^verbatim>\<open>HighScoreManager\<close>. The stored item is absent (\<open>None\<close>) or holds a table: an
  object whose keys are the modes, each an object whose keys are the difficulties, each a
  list of entries. \<^verbatim>\<open>Array.prototype.sort\<close> with the comparator
  \<^verbatim>\<open>a.time - b.time\<close> is a stable sort by \<^verbatim>\<open>time\<close>, as \<open>sort_key\<close> is.
\<close>

record score =
  name :: string
  initials :: string
  time :: int
  date :: string

type_synonym scores = "string \<rightharpoonup> (string \<rightharpoonup> score list)"

definition emptyLists :: "string \<rightharpoonup> score list" where
  "emptyLists = [''easy'' \<mapsto> [], ''medium'' \<mapsto> [], ''hard'' \<mapsto> []]"

definition getScores :: "scores option \<Rightarrow> scores" where
  "getScores storage =
     (case storage of
        None \<Rightarrow> [''classic'' \<mapsto> emptyLists, ''timeattack'' \<mapsto> emptyLists]
      | Some data \<Rightarrow> data)"

text \<open>
  \<^verbatim>\<open>addScore\<close> returns the list it kept; the first component is the stored item after
  \<^verbatim>\<open>saveScores\<close>. \<open>now\<close> is the time stamp \<^verbatim>\<open>new Date().toISOString()\<close>.
\<close>

definition addScore ::
  "string \<Rightarrow> string \<Rightarrow> string \<Rightarrow> string \<Rightarrow> int \<Rightarrow> string \<Rightarrow> scores option
   \<Rightarrow> scores option \<times> score list" where
  "addScore mode difficulty playerName inits t now storage =
     (let scores = getScores storage;
          byDifficulty = (case scores mode of None \<Rightarrow> emptyLists | Some m \<Rightarrow> m);
          list0 = (case byDifficulty difficulty of None \<Rightarrow> [] | Some l \<Rightarrow> l);
          pushed = list0 @ [\<lparr>name = playerName, initials = inits, time = t, date = now\<rparr>];
          sorted = sort_key time pushed;
          kept = take 10 sorted;
          scores' = scores(mode \<mapsto> byDifficulty(difficulty \<mapsto> kept))
      in (Some scores', kept))"

definition isHighScore :: "string \<Rightarrow> string \<Rightarrow> int \<Rightarrow> scores option \<Rightarrow> bool" where
  "isHighScore mode difficulty t storage =
     (let scores = getScores storage;
          list = (case scores mode of
                    None \<Rightarrow> []
                  | Some m \<Rightarrow> (case m difficulty of None \<Rightarrow> [] | Some l \<Rightarrow> l))
      in length list < 10 \<or> t < time (last list))"

text \<open>One call of \<^verbatim>\<open>addScore\<close>, and a sequence of calls on the stored item.\<close>

record insertion =
  i_mode :: string
  i_difficulty :: string
  i_name :: string
  i_initials :: string
  i_time :: int
  i_date :: string

fun addScores :: "scores option \<Rightarrow> insertion list \<Rightarrow> scores option" where
  "addScores storage [] = storage"
| "addScores storage (x # xs) =
     addScores
       (fst (addScore (i_mode x) (i_difficulty x) (i_name x) (i_initials x) (i_time x) (i_date x)
               storage)) xs"

text \<open>The list of a mode and difficulty in the stored item, as \<^verbatim>\<open>displayHighScores\<close> reads it.\<close>

definition bucket :: "scores option \<Rightarrow> string \<Rightarrow> string \<Rightarrow> score list" where
  "bucket storage mode difficulty =
     (case getScores storage mode of
        None \<Rightarrow> []
      | Some m \<Rightarrow> (case m difficulty of None \<Rightarrow> [] | Some l \<Rightarrow> l))"

section \<open>Notions used by the properties\<close>

subsection \<open>Well-formed states and what a reveal may change\<close>

text \<open>The values the script gives its variables when it is loaded.\<close>

definition initialState :: "rat list \<Rightarrow> game" where
  "initialState us =
     \<lparr>grid = [], rows = 9, cols = 9, mineCount = 10, flagCount = 0, revealedCount = 0,
      gameOver = False, gameStarted = False, timer = 0, timerRunning = False, hints = 3,
      isTimeAttack = False, timeAttackLimit = 60, face = FaceNew, randoms = us\<rparr>"

text \<open>The grid has \<open>rows\<close> rows of \<open>cols\<close> cells each, as \<^verbatim>\<open>createGrid\<close> builds it.\<close>

definition wfGame :: "game \<Rightarrow> bool" where
  "wfGame s = (map length (grid s) = replicate (rows s) (cols s))"

text \<open>
  From \<open>g\<close> to \<open>g'\<close> the grid keeps its shape, and a cell is either as it was or was
  neither revealed nor flagged and is revealed now.
\<close>

definition grows :: "cell list list \<Rightarrow> cell list list \<Rightarrow> bool" where
  "grows g g' =
     (map length g' = map length g \<and>
      (\<forall>r c cl. cellAt g r c = Some cl \<longrightarrow>
         cellAt g' r c = Some cl \<or>
         (\<not> isRevealed cl \<and> \<not> isFlagged cl \<and> cellAt g' r c = Some (cl\<lparr>isRevealed := True\<rparr>))))"

text \<open>The two assignments of \<^verbatim>\<open>revealCell\<close> to a cell it reveals.\<close>

definition markRevealed :: "game \<Rightarrow> int \<Rightarrow> int \<Rightarrow> cell \<Rightarrow> game" where
  "markRevealed s row col cl =
     s\<lparr>grid := setCell (grid s) row col (cl\<lparr>isRevealed := True\<rparr>),
       revealedCount := revealedCount s + 1\<rparr>"

text \<open>The state without the two fields that a reveal writes.\<close>

definition besidesReveal :: "game \<Rightarrow> game" where
  "besidesReveal s = s\<lparr>grid := [], revealedCount := 0\<rparr>"

text \<open>
  From \<open>s\<close> to \<open>s'\<close> only cells were revealed, and \<open>revealedCount\<close> went up by one for
  each cell that stopped being unrevealed.
\<close>

definition onlyReveals :: "game \<Rightarrow> game \<Rightarrow> bool" where
  "onlyReveals s s' =
     (besidesReveal s' = besidesReveal s \<and>
      grows (grid s) (grid s') \<and>
      revealedCount s' + unrevealed (grid s') = revealedCount s + unrevealed (grid s))"

subsection \<open>A small game used in the examples\<close>

text \<open>
  One row of six cells with two mines; the random values make \<^verbatim>\<open>placeMines\<close> draw the
  cells (0, 3) and (0, 5), and the last one is left for a hint.
\<close>

definition demoStart :: game where
  "demoStart =
     initGame \<lparr>s_rows = 1, s_cols = 6, s_mines = 2\<rparr> (initialState [0, 1/2, 0, 5/6, 1/3])"

text \<open>The game after the first click, on the cell (0, 0).\<close>

definition demoRunning :: game where
  "demoRunning =
     \<lparr>grid =
        [[\<lparr>isMine = False, isRevealed = True, isFlagged = False, neighborMines = 0\<rparr>,
          \<lparr>isMine = False, isRevealed = True, isFlagged = False, neighborMines = 0\<rparr>,
          \<lparr>isMine = False, isRevealed = True, isFlagged = False, neighborMines = 1\<rparr>,
          \<lparr>isMine = True, isRevealed = False, isFlagged = False, neighborMines = 0\<rparr>,
          \<lparr>isMine = False, isRevealed = False, isFlagged = False, neighborMines = 2\<rparr>,
          \<lparr>isMine = True, isRevealed = False, isFlagged = False, neighborMines = 0\<rparr>]],
      rows = 1, cols = 6, mineCount = 2, flagCount = 0, revealedCount = 3,
      gameOver = False, gameStarted = True, timer = 0, timerRunning = True, hints = 3,
      isTimeAttack = False, timeAttackLimit = 60, face = FaceNew, randoms = [1/3]\<rparr>"

subsection \<open>High scores: the entries a sequence of insertions adds to a list\<close>

text \<open>Insertion into a list sorted by \<open>f\<close>, behind the elements that are not larger.\<close>

fun insertAfter :: "('a \<Rightarrow> int) \<Rightarrow> 'a \<Rightarrow> 'a list \<Rightarrow> 'a list" where
  "insertAfter f e [] = [e]"
| "insertAfter f e (y # ys) = (if f y \<le> f e then y # insertAfter f e ys else e # y # ys)"

text \<open>The entry that \<^verbatim>\<open>addScore\<close> pushes for an insertion.\<close>

definition toScore :: "insertion \<Rightarrow> score" where
  "toScore x = \<lparr>name = i_name x, initials = i_initials x, time = i_time x, date = i_date x\<rparr>"

text \<open>The entries that the insertions \<open>xs\<close> push to the list of a mode and difficulty, in order.\<close>

definition entriesFor :: "string \<Rightarrow> string \<Rightarrow> insertion list \<Rightarrow> score list" where
  "entriesFor mode difficulty xs =
     map toScore (filter (\<lambda>x. i_mode x = mode \<and> i_difficulty x = difficulty) xs)"

text \<open>
  A list of a high-score table: at most 10 entries, in ascending order of time. The lists
  of the absent item are empty, and \<^verbatim>\<open>saveScores\<close>, which only \<^verbatim>\<open>addScore\<close> calls, is
  the only writer of the item.
\<close>

definition conforming :: "score list \<Rightarrow> bool" where
  "conforming l = (length l \<le> 10 \<and> sorted (map time l))"

text \<open>A win in classic mode on the easy board, and eleven of them with their times.\<close>

definition easyWin :: "int \<Rightarrow> insertion" where
  "easyWin t = \<lparr>i_mode = ''classic'', i_difficulty = ''easy'', i_name = ''Di'', i_initials = ''DIA'',
                i_time = t, i_date = ''d''\<rparr>"

definition easyRun :: "insertion list" where
  "easyRun = map easyWin [70, 20, 90, 10, 50, 110, 30, 100, 60, 40, 80]"

subsection \<open>Neighbours, mines and changes to cells\<close>

text \<open>The bounds test of the loops over the neighbours.\<close>

definition inBounds :: "game \<Rightarrow> int \<times> int \<Rightarrow> bool" where
  "inBounds s p = (0 \<le> fst p \<and> fst p < int (rows s) \<and> 0 \<le> snd p \<and> snd p < int (cols s))"

text \<open>Two distinct positions that differ by at most one row and one column.\<close>

definition adjacent :: "int \<times> int \<Rightarrow> int \<times> int \<Rightarrow> bool" where
  "adjacent p q = (max \<bar>fst p - fst q\<bar> \<bar>snd p - snd q\<bar> = 1)"

text \<open>A mine lies on the position.\<close>

definition mineAt :: "cell list list \<Rightarrow> int \<times> int \<Rightarrow> bool" where
  "mineAt g p = (case cellAt g (fst p) (snd p) of None \<Rightarrow> False | Some cl \<Rightarrow> isMine cl)"

text \<open>The number of mines on the cells of the grid around a position.\<close>

definition adjacentMines :: "game \<Rightarrow> int \<Rightarrow> int \<Rightarrow> nat" where
  "adjacentMines s row col = card {q. adjacent (row, col) q \<and> inBounds s q \<and> mineAt (grid s) q}"

text \<open>The state without its grid.\<close>

definition besidesGrid :: "game \<Rightarrow> game" where
  "besidesGrid s = s\<lparr>grid := []\<rparr>"

text \<open>The positions around a cell, in the order of the two loops.\<close>

definition neighborsOf :: "int \<Rightarrow> int \<Rightarrow> (int \<times> int) list" where
  "neighborsOf row col = map (\<lambda>(dr, dc). (row + dr, col + dc)) offsets"

text \<open>
  From \<open>g\<close> to \<open>g'\<close> the grid keeps its shape, and each cell changes as
  \<open>R\<close> allows.
\<close>

definition cellsRel :: "(int \<Rightarrow> int \<Rightarrow> cell \<Rightarrow> cell \<Rightarrow> bool) \<Rightarrow> cell list list \<Rightarrow> cell list list \<Rightarrow> bool" where
  "cellsRel R g g' =
     (map length g' = map length g \<and>
      (\<forall>r c cl. cellAt g r c = Some cl \<longrightarrow> (\<exists>cl'. cellAt g' r c = Some cl' \<and> R r c cl cl')))"

text \<open>Only the neighbour counts of cells differ.\<close>

definition numbersOnly :: "int \<Rightarrow> int \<Rightarrow> cell \<Rightarrow> cell \<Rightarrow> bool" where
  "numbersOnly r c cl cl' = (cl' = cl\<lparr>neighborMines := neighborMines cl'\<rparr>)"

text \<open>
  The cell is as it was, or it lies away from the first click and has become a mine.
\<close>

definition minesOnly :: "int \<Rightarrow> int \<Rightarrow> int \<Rightarrow> int \<Rightarrow> cell \<Rightarrow> cell \<Rightarrow> bool" where
  "minesOnly fr fc r c cl cl' =
     (cl' = cl \<or>
      (\<not> isMine cl \<and> \<not> (\<bar>r - fr\<bar> \<le> 1 \<and> \<bar>c - fc\<bar> \<le> 1) \<and> cl' = cl\<lparr>isMine := True\<rparr>))"

text \<open>The state without the two fields that the mine placement writes.\<close>

definition besidesMines :: "game \<Rightarrow> game" where
  "besidesMines s = s\<lparr>grid := [], randoms := []\<rparr>"

text \<open>One mine put on a cell, and the random values left.\<close>

definition placed :: "game \<Rightarrow> rat list \<Rightarrow> int \<Rightarrow> int \<Rightarrow> cell \<Rightarrow> game" where
  "placed s us r c cl = s\<lparr>randoms := us, grid := setCell (grid s) r c (cl\<lparr>isMine := True\<rparr>)\<rparr>"

text \<open>The small game after the mine placement of the first click on (0, 0).\<close>

definition demoPlaced :: game where
  "demoPlaced =
     \<lparr>grid =
        [[\<lparr>isMine = False, isRevealed = False, isFlagged = False, neighborMines = 0\<rparr>,
          \<lparr>isMine = False, isRevealed = False, isFlagged = False, neighborMines = 0\<rparr>,
          \<lparr>isMine = False, isRevealed = False, isFlagged = False, neighborMines = 1\<rparr>,
          \<lparr>isMine = True, isRevealed = False, isFlagged = False, neighborMines = 0\<rparr>,
          \<lparr>isMine = False, isRevealed = False, isFlagged = False, neighborMines = 2\<rparr>,
          \<lparr>isMine = True, isRevealed = False, isFlagged = False, neighborMines = 0\<rparr>]],
      rows = 1, cols = 6, mineCount = 2, flagCount = 0, revealedCount = 0,
      gameOver = False, gameStarted = False, timer = 0, timerRunning = False, hints = 3,
      isTimeAttack = False, timeAttackLimit = 60, face = FaceNew, randoms = [1/3]\<rparr>"

subsection \<open>The region of a flood fill\<close>

text \<open>
  A cell of the grid that is neither revealed nor flagged: one that
  \<^verbatim>\<open>revealCell\<close> reveals.
\<close>

definition openAt :: "cell list list \<Rightarrow> int \<times> int \<Rightarrow> bool" where
  "openAt g p =
     (case cellAt g (fst p) (snd p) of None \<Rightarrow> False | Some cl \<Rightarrow> \<not> isRevealed cl \<and> \<not> isFlagged cl)"

text \<open>A cell of the grid with no mine next to it.\<close>

definition zeroAt :: "cell list list \<Rightarrow> int \<times> int \<Rightarrow> bool" where
  "zeroAt g p = (case cellAt g (fst p) (snd p) of None \<Rightarrow> False | Some cl \<Rightarrow> neighborMines cl = 0)"

text \<open>A revealed cell of the grid.\<close>

definition revealedAt :: "cell list list \<Rightarrow> int \<times> int \<Rightarrow> bool" where
  "revealedAt g p = (case cellAt g (fst p) (snd p) of None \<Rightarrow> False | Some cl \<Rightarrow> isRevealed cl)"

text \<open>A flagged cell of the grid.\<close>

definition flaggedAt :: "cell list list \<Rightarrow> int \<times> int \<Rightarrow> bool" where
  "flaggedAt g p = (case cellAt g (fst p) (snd p) of None \<Rightarrow> False | Some cl \<Rightarrow> isFlagged cl)"

text \<open>
  The cells that were open in \<open>g\<close> and are revealed in \<open>g'\<close>.
\<close>

definition newly :: "cell list list \<Rightarrow> cell list list \<Rightarrow> (int \<times> int) set" where
  "newly g g' = {p. openAt g p \<and> revealedAt g' p}"

text \<open>
  The cells the fill comes to from \<open>start\<close>: an open start, and every open cell next to a cell
  with count zero that it has come to.
\<close>

inductive fillReach :: "cell list list \<Rightarrow> int \<times> int \<Rightarrow> int \<times> int \<Rightarrow> bool"
  for g :: "cell list list" and start :: "int \<times> int" where
  fillReach_start: "openAt g start \<Longrightarrow> fillReach g start start"
| fillReach_step: "fillReach g start p \<Longrightarrow> zeroAt g p \<Longrightarrow> adjacent p q \<Longrightarrow> openAt g q \<Longrightarrow>
                   fillReach g start q"

text \<open>
  The region of the specification: the start, and every cell of the grid next to a cell with
  count zero of the region, flagged or not.
\<close>

inductive zeroReach :: "cell list list \<Rightarrow> int \<times> int \<Rightarrow> int \<times> int \<Rightarrow> bool"
  for g :: "cell list list" and start :: "int \<times> int" where
  zeroReach_start: "cellAt g (fst start) (snd start) \<noteq> None \<Longrightarrow> zeroReach g start start"
| zeroReach_step: "zeroReach g start p \<Longrightarrow> zeroAt g p \<Longrightarrow> adjacent p q \<Longrightarrow>
                   cellAt g (fst q) (snd q) \<noteq> None \<Longrightarrow> zeroReach g start q"

text \<open>The cell of the grid that a call returns, where it returns one.\<close>

definition cellAfter :: "error + game \<Rightarrow> int \<Rightarrow> int \<Rightarrow> cell option" where
  "cellAfter res r c = (case res of Inl e \<Rightarrow> None | Inr s \<Rightarrow> cellAt (grid s) r c)"

text \<open>The small game, with a flag on the cell (0, 1) before the first click.\<close>

definition flaggedStart :: game where
  "flaggedStart =
     demoStart\<lparr>grid := setCell (grid demoStart) 0 1
                  \<lparr>isMine = False, isRevealed = False, isFlagged = True, neighborMines = 0\<rparr>,
               flagCount := 1\<rparr>"

text \<open>That game after the mine placement of the first click on (0, 0).\<close>

definition flaggedPlaced :: game where
  "flaggedPlaced =
     \<lparr>grid =
        [[\<lparr>isMine = False, isRevealed = False, isFlagged = False, neighborMines = 0\<rparr>,
          \<lparr>isMine = False, isRevealed = False, isFlagged = True, neighborMines = 0\<rparr>,
          \<lparr>isMine = False, isRevealed = False, isFlagged = False, neighborMines = 1\<rparr>,
          \<lparr>isMine = True, isRevealed = False, isFlagged = False, neighborMines = 0\<rparr>,
          \<lparr>isMine = False, isRevealed = False, isFlagged = False, neighborMines = 2\<rparr>,
          \<lparr>isMine = True, isRevealed = False, isFlagged = False, neighborMines = 0\<rparr>]],
      rows = 1, cols = 6, mineCount = 2, flagCount = 1, revealedCount = 0,
      gameOver = False, gameStarted = False, timer = 0, timerRunning = False, hints = 3,
      isTimeAttack = False, timeAttackLimit = 60, face = FaceNew, randoms = [1/3]\<rparr>"

subsection \<open>Invariants of the game, and runs\<close>

text \<open>No cell of the grid has the property.\<close>

definition noCell :: "(cell \<Rightarrow> bool) \<Rightarrow> cell list list \<Rightarrow> bool" where
  "noCell P g = (\<forall>r c cl. cellAt g r c = Some cl \<longrightarrow> \<not> P cl)"

text \<open>Each cell without a mine holds the number of mines around it.\<close>

definition numbersExact :: "game \<Rightarrow> bool" where
  "numbersExact s =
     (\<forall>r c cl. cellAt (grid s) r c = Some cl \<and> \<not> isMine cl \<longrightarrow>
        neighborMines cl = adjacentMines s r c)"

text \<open>The cell is as it was, or it is a mine that has been revealed.\<close>

definition lossReveal :: "int \<Rightarrow> int \<Rightarrow> cell \<Rightarrow> cell \<Rightarrow> bool" where
  "lossReveal r c cl cl' = (cl' = cl \<or> (isMine cl \<and> cl' = cl\<lparr>isRevealed := True\<rparr>))"

text \<open>The cell is as it was, or it is an unrevealed cell whose flag has been toggled.\<close>

definition flagOnly :: "int \<Rightarrow> int \<Rightarrow> cell \<Rightarrow> cell \<Rightarrow> bool" where
  "flagOnly r c cl cl' = (cl' = cl \<or> (\<not> isRevealed cl \<and> cl' = cl\<lparr>isFlagged := \<not> isFlagged cl\<rparr>))"

text \<open>The cell is as it was, or it was open and free of a mine and has been revealed.\<close>

definition safeReveal :: "int \<Rightarrow> int \<Rightarrow> cell \<Rightarrow> cell \<Rightarrow> bool" where
  "safeReveal r c cl cl' =
     (cl' = cl \<or>
      (\<not> isRevealed cl \<and> \<not> isFlagged cl \<and> \<not> isMine cl \<and> cl' = cl\<lparr>isRevealed := True\<rparr>))"

text \<open>A cell that is both revealed and flagged is a mine, and the game is lost.\<close>

definition cellsOk :: "game \<Rightarrow> bool" where
  "cellsOk s =
     (noCell (\<lambda>c. isRevealed c \<and> isFlagged c \<and> \<not> isMine c) (grid s) \<and>
      (\<not> (gameOver s \<and> face s = FaceLose) \<longrightarrow>
         noCell (\<lambda>c. isRevealed c \<and> isFlagged c) (grid s)))"

text \<open>\<open>revealedCount\<close> is the number of revealed cells without a mine.\<close>

definition countOk :: "game \<Rightarrow> bool" where
  "countOk s = (revealedCount s = countCells (\<lambda>c. isRevealed c \<and> \<not> isMine c) (grid s))"

text \<open>Before the first click no cell holds a mine or is revealed.\<close>

definition freshOk :: "game \<Rightarrow> bool" where
  "freshOk s = (\<not> gameStarted s \<longrightarrow> noCell isMine (grid s) \<and> noCell isRevealed (grid s))"

text \<open>
  The game is over exactly when the face shows a result; a game that is over, or whose timer
  runs, has been started, and the timer runs only until the game is over.
\<close>

definition phaseOk :: "game \<Rightarrow> bool" where
  "phaseOk s =
     ((gameOver s = (face s \<noteq> FaceNew)) \<and> (gameOver s \<longrightarrow> gameStarted s) \<and>
      (timerRunning s \<longrightarrow> gameStarted s \<and> \<not> gameOver s))"

text \<open>
  A started game shows the win exactly when \<^verbatim>\<open>checkWin\<close> holds.
\<close>

definition winOk :: "game \<Rightarrow> bool" where
  "winOk s = (gameStarted s \<longrightarrow> (face s = FaceWin) = checkWin s)"

text \<open>The invariant of the reachable states, without the part on the win.\<close>

definition coreInv :: "game \<Rightarrow> bool" where
  "coreInv s =
     (wfGame s \<and> (gameStarted s \<longrightarrow> numbersExact s) \<and> freshOk s \<and> countOk s \<and> cellsOk s \<and>
      phaseOk s)"

text \<open>The invariant of the reachable states.\<close>

definition gameInv :: "game \<Rightarrow> bool" where
  "gameInv s = (coreInv s \<and> winOk s)"

text \<open>
  What the first click does before it reveals: the placement, the timer, the start.
\<close>

definition started :: "game \<Rightarrow> game" where
  "started s1 = (startTimer s1)\<lparr>gameStarted := True\<rparr>"

text \<open>
  The part of \<^verbatim>\<open>handleReveal\<close> after its guard and the first-click block.
\<close>

definition revealAt :: "game \<Rightarrow> int \<Rightarrow> int \<Rightarrow> error + game" where
  "revealAt s2 row col =
     (case cellAt (grid s2) row col of
        None \<Rightarrow> Inl TypeError
      | Some cl \<Rightarrow>
          if isMine cl then
            (case revealMine s2 row col of
               Inl e \<Rightarrow> Inl e
             | Inr s3 \<Rightarrow> endGame False s3)
          else
            (case revealCell s2 row col of
               Inl e \<Rightarrow> Inl e
             | Inr s3 \<Rightarrow> if checkWin s3 then endGame True s3 else Inr s3))"

text \<open>
  What \<^verbatim>\<open>placeMines\<close> may do to a cell: it keeps the reveal and flag marks, never removes
  a mine, and leaves the cells around the first click as they were, up to the neighbour
  count.
\<close>

definition placement :: "int \<Rightarrow> int \<Rightarrow> int \<Rightarrow> int \<Rightarrow> cell \<Rightarrow> cell \<Rightarrow> bool" where
  "placement fr fc r c x y =
     (isRevealed y = isRevealed x \<and> isFlagged y = isFlagged x \<and> (isMine x \<longrightarrow> isMine y) \<and>
      (\<bar>r - fr\<bar> \<le> 1 \<and> \<bar>c - fc\<bar> \<le> 1 \<longrightarrow> isMine y = isMine x))"

text \<open>What a reveal may do to a cell: the flag stays, a revealed cell stays revealed.\<close>

definition revealStep :: "int \<Rightarrow> int \<Rightarrow> cell \<Rightarrow> cell \<Rightarrow> bool" where
  "revealStep r c x y = (isFlagged y = isFlagged x \<and> (isRevealed x \<longrightarrow> isRevealed y))"

text \<open>\<^verbatim>\<open>handleReveal\<close> for each cell of a list in turn.\<close>

fun revealEach :: "game \<Rightarrow> (int \<times> int) list \<Rightarrow> error + game" where
  "revealEach s [] = Inr s"
| "revealEach s ((r, c) # rest) =
     (case handleReveal s r c of Inl e \<Rightarrow> Inl e | Inr s' \<Rightarrow> revealEach s' rest)"

text \<open>The number of flagged cells next to a cell.\<close>

definition flaggedNeighbors :: "game \<Rightarrow> int \<Rightarrow> int \<Rightarrow> nat" where
  "flaggedNeighbors s row col =
     card {q. adjacent (row, col) q \<and> inBounds s q \<and> flaggedAt (grid s) q}"

text \<open>A sequence of actions, stopping at the first error.\<close>

fun run :: "game \<Rightarrow> action list \<Rightarrow> error + game" where
  "run s [] = Inr s"
| "run s (a # as) = (case step s a of Inl e \<Rightarrow> Inl e | Inr s' \<Rightarrow> run s' as)"

text \<open>The state a sequence of actions leads to (the starting state where it raises).\<close>

definition stateAfter :: "game \<Rightarrow> action list \<Rightarrow> game" where
  "stateAfter s as = (case run s as of Inl e \<Rightarrow> s | Inr s' \<Rightarrow> s')"

text \<open>
  Three rows of four cells with one mine, which the random values put on (1, 2). The first
  click on (0, 0) opens the two left columns. Then the mine is flagged (\<open>chordGood\<close>), or
  by mistake the cell (0, 2) (\<open>chordWrong\<close>).
\<close>

definition chordStart :: game where
  "chordStart = initGame \<lparr>s_rows = 3, s_cols = 4, s_mines = 1\<rparr> (initialState [1/3, 1/2])"

definition chordGood :: game where
  "chordGood = stateAfter chordStart [Reveal 0 0, Flag 1 2]"

definition chordWrong :: game where
  "chordWrong = stateAfter chordStart [Reveal 0 0, Flag 0 2]"

text \<open>
  The small game of the examples, lost: the first click, a flag on the mine (0, 3), and a
  click on the mine (0, 5). And won: the first click and a click on the last safe cell.
\<close>

definition demoLost :: game where
  "demoLost = stateAfter demoStart [Reveal 0 0, Flag 0 3, Reveal 0 5]"

definition demoWon :: game where
  "demoWon = stateAfter demoStart [Reveal 0 0, Reveal 0 4]"

text \<open>
  The game \<open>chordGood\<close> after the chords at (1, 1) and (0, 2): every cell without a mine
  is revealed but (2, 3).
\<close>

definition beforeWin :: game where
  "beforeWin = stateAfter chordGood [Chord 1 1, Chord 0 2]"

text \<open>What \<^verbatim>\<open>revealAllMines\<close> does to a cell: a mine is revealed, and nothing else changes.\<close>

definition mineRevealed :: "int \<Rightarrow> int \<Rightarrow> cell \<Rightarrow> cell \<Rightarrow> bool" where
  "mineRevealed r c x y = (y = (if isMine x then x\<lparr>isRevealed := True\<rparr> else x))"

text \<open>The cell is as it was, or it has been revealed.\<close>

definition opened :: "int \<Rightarrow> int \<Rightarrow> cell \<Rightarrow> cell \<Rightarrow> bool" where
  "opened r c x y = (y = x \<or> y = x\<lparr>isRevealed := True\<rparr>)"

text \<open>
  Once the game is started the grid holds \<open>mineCount\<close> mines; no mine is revealed unless
  the game is lost, and in a lost game every mine is.
\<close>

definition minesOk :: "game \<Rightarrow> bool" where
  "minesOk s =
     ((gameStarted s \<longrightarrow> countCells isMine (grid s) = mineCount s) \<and>
      (\<not> (gameOver s \<and> face s = FaceLose) \<longrightarrow>
         noCell (\<lambda>c. isRevealed c \<and> isMine c) (grid s)) \<and>
      (gameOver s \<and> face s = FaceLose \<longrightarrow>
         noCell (\<lambda>c. isMine c \<and> \<not> isRevealed c) (grid s)))"

text \<open>The grid with every mine marked revealed.\<close>

definition showMines :: "cell list list \<Rightarrow> cell list list" where
  "showMines g = map (map (\<lambda>x. if isMine x then x\<lparr>isRevealed := True\<rparr> else x)) g"

text \<open>The state that \<^verbatim>\<open>endGame(false)\<close> leaves.\<close>

definition lostFrom :: "game \<Rightarrow> game" where
  "lostFrom s =
     s\<lparr>grid := showMines (grid s), gameOver := True, timerRunning := False, face := FaceLose\<rparr>"

text \<open>A mine without a flag on it.\<close>

definition unflaggedMine :: "game \<Rightarrow> int \<times> int \<Rightarrow> bool" where
  "unflaggedMine s q = (mineAt (grid s) q \<and> \<not> flaggedAt (grid s) q)"


section \<open>The flood fill returns\<close>

lemma length_setCell [simp]: "map length (setCell g r c x) = map length g"
proof (cases "nat r < length g")
  case True
  then show ?thesis by (simp add: setCell_def map_update list_update_same_conv)
next
  case False
  then have "length g \<le> nat r" by simp
  then have "g[nat r := (g ! nat r)[nat c := x]] = g" by (rule list_update_beyond)
  then show ?thesis by (simp only: setCell_def)
qed

lemma cellAt_nat:
  "cellAt g r c = (if 0 \<le> r \<and> 0 \<le> c \<and> nat r < length g \<and> nat c < length (g ! nat r)
                   then Some (g ! nat r ! nat c) else None)"
  by (auto simp: cellAt_def)

lemma cellAt_setCell:
  assumes "cellAt g r c = Some old"
  shows "cellAt (setCell g r c x) r' c' = (if r' = r \<and> c' = c then Some x else cellAt g r' c')"
proof -
  from cellAt_SomeD[OF assms] have r: "0 \<le> r" "nat r < length g" and c: "0 \<le> c" "nat c < length (g ! nat r)"
    by auto
  define i where "i = nat r"
  define j where "j = nat c"
  define i' where "i' = nat r'"
  define j' where "j' = nat c'"
  have len: "length (setCell g r c x) = length g" by (simp add: setCell_def)
  show ?thesis
  proof (cases "0 \<le> r' \<and> 0 \<le> c' \<and> i' < length g")
    case False
    then have "cellAt (setCell g r c x) r' c' = None" "cellAt g r' c' = None"
      unfolding cellAt_nat len i'_def by auto
    moreover from False r c have "\<not> (r' = r \<and> c' = c)" unfolding i'_def by auto
    ultimately show ?thesis by simp
  next
    case inb: True
    have eqr: "(r' = r) = (i' = i)" using inb r unfolding i_def i'_def by auto
    have eqc: "(c' = c) = (j' = j)" using inb c unfolding j_def j'_def by auto
    have row: "setCell g r c x ! i' = (if i' = i then (g ! i)[j := x] else g ! i')"
      using r inb unfolding setCell_def i_def[symmetric] j_def[symmetric] by (simp add: nth_list_update)
    have "cellAt (setCell g r c x) r' c' =
          (if j' < length (setCell g r c x ! i') then Some (setCell g r c x ! i' ! j') else None)"
      unfolding cellAt_nat len i'_def[symmetric] j'_def[symmetric] using inb by simp
    also have "\<dots> = (if i' = i \<and> j' = j then Some x
                      else if j' < length (g ! i') then Some (g ! i' ! j') else None)"
      unfolding row using c unfolding i_def[symmetric] j_def[symmetric] by (simp add: nth_list_update)
    also have "\<dots> = (if r' = r \<and> c' = c then Some x else cellAt g r' c')"
      unfolding eqr eqc cellAt_nat[of g r' c'] i'_def[symmetric] j'_def[symmetric] using inb by simp
    finally show ?thesis .
  qed
qed

lemma wfGame_cellAt:
  "wfGame s \<Longrightarrow> (cellAt (grid s) r c \<noteq> None) = (0 \<le> r \<and> r < int (rows s) \<and> 0 \<le> c \<and> c < int (cols s))"
proof -
  assume w: "wfGame s"
  then have l: "length (grid s) = rows s" unfolding wfGame_def by (metis length_map length_replicate)
  have "\<And>i. i < rows s \<Longrightarrow> length (grid s ! i) = cols s"
    using w l unfolding wfGame_def by (metis nth_map nth_replicate)
  with l show ?thesis by (auto simp: cellAt_def)
qed

lemma grows_refl: "grows g g"
  by (simp add: grows_def)

lemma growsD:
  "grows g g' \<Longrightarrow> cellAt g r c = Some cl \<Longrightarrow>
   cellAt g' r c = Some cl \<or>
   (\<not> isRevealed cl \<and> \<not> isFlagged cl \<and> cellAt g' r c = Some (cl\<lparr>isRevealed := True\<rparr>))"
  unfolding grows_def by blast

lemma grows_shape: "grows g g' \<Longrightarrow> map length g' = map length g"
  unfolding grows_def by blast

lemma grows_trans:
  assumes "grows g g'" and "grows g' g''"
  shows "grows g g''"
  unfolding grows_def
proof (intro conjI allI impI)
  show "map length g'' = map length g"
    using grows_shape[OF assms(1)] grows_shape[OF assms(2)] by simp
next
  fix r c cl
  assume cl: "cellAt g r c = Some cl"
  from growsD[OF assms(1) cl]
  show "cellAt g'' r c = Some cl \<or>
        (\<not> isRevealed cl \<and> \<not> isFlagged cl \<and> cellAt g'' r c = Some (cl\<lparr>isRevealed := True\<rparr>))"
  proof
    assume "cellAt g' r c = Some cl"
    from growsD[OF assms(2) this] show ?thesis .
  next
    assume a: "\<not> isRevealed cl \<and> \<not> isFlagged cl \<and> cellAt g' r c = Some (cl\<lparr>isRevealed := True\<rparr>)"
    then have "cellAt g' r c = Some (cl\<lparr>isRevealed := True\<rparr>)" by simp
    from growsD[OF assms(2) this] a show ?thesis by simp
  qed
qed

lemma grows_setCell:
  "cellAt g r c = Some cl \<Longrightarrow> \<not> isRevealed cl \<Longrightarrow> \<not> isFlagged cl \<Longrightarrow>
   grows g (setCell g r c (cl\<lparr>isRevealed := True\<rparr>))"
  unfolding grows_def by (auto simp: cellAt_setCell)

lemma revealCell_outside:
  "row < 0 \<or> int (rows s) \<le> row \<or> col < 0 \<or> int (cols s) \<le> col \<Longrightarrow> revealCell s row col = Inr s"
  by (simp add: revealCell.simps)

lemma revealCell_closed:
  "\<not> (row < 0 \<or> int (rows s) \<le> row \<or> col < 0 \<or> int (cols s) \<le> col) \<Longrightarrow>
   cellAt (grid s) row col = Some cl \<Longrightarrow> isRevealed cl \<or> isFlagged cl \<Longrightarrow>
   revealCell s row col = Inr s"
  by (simp add: revealCell.simps)

lemma revealCell_open:
  "\<not> (row < 0 \<or> int (rows s) \<le> row \<or> col < 0 \<or> int (cols s) \<le> col) \<Longrightarrow>
   cellAt (grid s) row col = Some cl \<Longrightarrow> \<not> (isRevealed cl \<or> isFlagged cl) \<Longrightarrow>
   revealCell s row col =
     (if neighborMines cl = 0 then revealCell_loop (markRevealed s row col cl) row col offsets
      else Inr (markRevealed s row col cl))"
  by (simp add: revealCell.simps markRevealed_def Let_def)

lemma onlyReveals_refl: "onlyReveals s s"
  by (simp add: onlyReveals_def grows_refl)

lemma onlyReveals_trans: "onlyReveals s s' \<Longrightarrow> onlyReveals s' s'' \<Longrightarrow> onlyReveals s s''"
  unfolding onlyReveals_def by (simp add: grows_trans[of "grid s" "grid s'" "grid s''"])

lemma besidesReveal_rows: "besidesReveal s' = besidesReveal s \<Longrightarrow> rows s' = rows s \<and> cols s' = cols s"
proof -
  assume a: "besidesReveal s' = besidesReveal s"
  have "rows (besidesReveal s') = rows s'" "rows (besidesReveal s) = rows s"
       "cols (besidesReveal s') = cols s'" "cols (besidesReveal s) = cols s"
    by (simp_all add: besidesReveal_def)
  with a show ?thesis by metis
qed

lemma onlyReveals_wfGame: "onlyReveals s s' \<Longrightarrow> wfGame s \<Longrightarrow> wfGame s'"
  unfolding onlyReveals_def wfGame_def
  using besidesReveal_rows[of s' s] grows_shape[of "grid s" "grid s'"] by simp

lemma onlyReveals_markRevealed:
  assumes "cellAt (grid s) row col = Some cl" "\<not> (isRevealed cl \<or> isFlagged cl)"
  shows "onlyReveals s (markRevealed s row col cl)"
  using unrevealed_setCell[OF assms(1)] grows_setCell[OF assms(1)] assms(2)
  by (simp add: onlyReveals_def markRevealed_def besidesReveal_def)

lemma revealCell_onlyReveals:
  "wfGame s \<Longrightarrow> \<exists>s'. revealCell s row col = Inr s' \<and> onlyReveals s s'"
  "wfGame s \<Longrightarrow> \<exists>s'. revealCell_loop s row col ds = Inr s' \<and> onlyReveals s s'"
proof (induction s row col and s row col ds rule: revealCell_revealCell_loop.induct)
  case (1 s row col)
  show ?case
  proof (cases "row < 0 \<or> int (rows s) \<le> row \<or> col < 0 \<or> int (cols s) \<le> col")
    case True
    then show ?thesis by (simp add: revealCell_outside onlyReveals_refl)
  next
    case inb: False
    with wfGame_cellAt[OF 1(2), of row col] obtain cl where cl: "cellAt (grid s) row col = Some cl"
      by auto
    show ?thesis
    proof (cases "isRevealed cl \<or> isFlagged cl")
      case True
      with inb cl show ?thesis by (simp add: revealCell_closed onlyReveals_refl)
    next
      case False
      define s1 where "s1 = s\<lparr>grid := setCell (grid s) row col (cl\<lparr>isRevealed := True\<rparr>),
                      revealedCount := revealedCount s + 1\<rparr>"
      have s1: "s1 = markRevealed s row col cl" by (simp add: s1_def markRevealed_def)
      have step1: "onlyReveals s s1"
        unfolding s1 using cl False by (rule onlyReveals_markRevealed)
      then have wf1: "wfGame s1" using 1(2) by (rule onlyReveals_wfGame)
      show ?thesis
      proof (cases "neighborMines cl = 0")
        case True
        from 1(1)[OF inb cl False s1_def True wf1]
        obtain s' where "revealCell_loop s1 row col offsets = Inr s'" "onlyReveals s1 s'" by blast
        with step1 True show ?thesis
          unfolding revealCell_open[OF inb cl False] s1[symmetric]
          by (auto intro: onlyReveals_trans)
      next
        case nz: False
        with step1 show ?thesis
          unfolding revealCell_open[OF inb cl False] s1[symmetric] by simp
      qed
    qed
  qed
next
  case (2 s row col)
  then show ?case by (simp add: onlyReveals_refl)
next
  case (3 s row col dr dc ds)
  from 3(1)[OF 3(3)] obtain s1 where s1: "revealCell s (row + dr) (col + dc) = Inr s1"
    and o1: "onlyReveals s s1" by blast
  from onlyReveals_wfGame[OF o1 3(3)] 3(2)[OF s1] obtain s' where
    "revealCell_loop s1 row col ds = Inr s'" "onlyReveals s1 s'" by blast
  with s1 o1 show ?case by (auto intro: onlyReveals_trans)
qed

lemma countCells_le: "countCells P g \<le> sum_list (map length g)"
  unfolding countCells_def by (induction g) (auto intro: add_mono)

lemma wfGame_unrevealed_le: "wfGame s \<Longrightarrow> unrevealed (grid s) \<le> rows s * cols s"
  using countCells_le[of "\<lambda>x. \<not> isRevealed x" "grid s"]
  by (simp add: wfGame_def unrevealed_def sum_list_replicate)

lemma wfGame_initGame: "wfGame (initGame d s)"
  by (simp add: wfGame_def initGame_def createGrid_def map_replicate_const comp_def)

text \<open>
  C7. The recursive flood fill is total. \<open>revealCell\<close> is defined by the function package
  with a termination proof: the number of unrevealed cells, which no call increases and
  which a call decreases before it turns to its neighbours. On every grid of \<open>rows\<close> by
  \<open>cols\<close> cells and for every coordinate, inside the grid or not, the call returns a state
  (it raises nothing); it only reveals cells that were neither revealed nor flagged, each
  of them once: \<open>revealedCount\<close> grows by exactly the number of cells that stop being
  unrevealed, which is at most the number of cells.
\<close>

theorem revealCell_total:
  assumes "wfGame s"
  shows "\<exists>s'. revealCell s row col = Inr s' \<and> wfGame s' \<and> grows (grid s) (grid s') \<and>
           revealedCount s' + unrevealed (grid s') = revealedCount s + unrevealed (grid s) \<and>
           revealedCount s' - revealedCount s \<le> rows s * cols s"
proof -
  from revealCell_onlyReveals(1)[OF assms, of row col] obtain s' where
    r: "revealCell s row col = Inr s'" and o: "onlyReveals s s'" by blast
  from o have g: "grows (grid s) (grid s')"
    and n: "revealedCount s' + unrevealed (grid s') = revealedCount s + unrevealed (grid s)"
    by (simp_all add: onlyReveals_def)
  from n wfGame_unrevealed_le[OF assms] have "revealedCount s' - revealedCount s \<le> rows s * cols s"
    by linarith
  with r g n onlyReveals_wfGame[OF o assms] show ?thesis by blast
qed

theorem revealCell_total_witness:
  "wfGame (initGame \<lparr>s_rows = 2, s_cols = 3, s_mines = 0\<rparr> (initialState [])) \<and>
   (\<exists>s'. revealCell (initGame \<lparr>s_rows = 2, s_cols = 3, s_mines = 0\<rparr> (initialState [])) 0 0 = Inr s' \<and>
      revealedCount s' \<le> 6)"
proof -
  let ?s = "initGame \<lparr>s_rows = 2, s_cols = 3, s_mines = 0\<rparr> (initialState [])"
  have w: "wfGame ?s" by (rule wfGame_initGame)
  have r0: "revealedCount ?s = 0" "rows ?s = 2" "cols ?s = 3"
    by (simp_all add: initGame_def createGrid_def initialState_def)
  from revealCell_total[OF w, of 0 0] r0 w show ?thesis by auto
qed

section \<open>The hint\<close>

lemma demoRunning_reached: "handleReveal demoStart 0 0 = Inr demoRunning"
  by code_simp

lemma useHint_loop_safe:
  assumes "useHint_loop s cs acc = Inr res" and "p \<in> set res"
  shows "p \<in> set acc \<or>
         (\<exists>cl. cellAt (grid s) (fst p) (snd p) = Some cl \<and>
               \<not> isMine cl \<and> \<not> isRevealed cl \<and> \<not> isFlagged cl)"
  using assms
proof (induction cs arbitrary: acc)
  case Nil
  then show ?case by simp
next
  case (Cons a cs)
  obtain r c where a: "a = (r, c)" by (cases a)
  from Cons.prems(1) obtain cl where cl: "cellAt (grid s) r c = Some cl"
    by (auto simp: a split: option.splits)
  show ?case
  proof (cases "\<not> isMine cl \<and> \<not> isRevealed cl \<and> \<not> isFlagged cl")
    case True
    with Cons.prems(1) cl have "useHint_loop s cs (acc @ [(r, c)]) = Inr res" by (simp add: a)
    from Cons.IH[OF this Cons.prems(2)] True cl show ?thesis by auto
  next
    case False
    with Cons.prems(1) cl have "useHint_loop s cs acc = Inr res" by (auto simp: a)
    from Cons.IH[OF this Cons.prems(2)] show ?thesis .
  qed
qed

text \<open>
  C8. Whenever \<^verbatim>\<open>useHint\<close> selects a cell, hints remained, the game had started and was
  not over, and the selected cell is a cell of the grid that is not a mine, not revealed
  and not flagged. The hint itself changes the number of hints (and takes a random value)
  and nothing else.
\<close>

theorem useHint_selects_safe:
  assumes "useHint s = Inr (s', Some (r, c))"
  shows "(\<exists>cl. cellAt (grid s) r c = Some cl \<and>
               \<not> isMine cl \<and> \<not> isRevealed cl \<and> \<not> isFlagged cl) \<and>
         0 < hints s \<and> \<not> gameOver s \<and> gameStarted s \<and>
         s' = s\<lparr>randoms := tl (randoms s), hints := hints s - 1\<rparr>"
proof -
  from assms have go: "0 < hints s" "\<not> gameOver s" "gameStarted s"
    by (auto simp: useHint_def split: if_splits)
  with assms obtain safeCells where loop: "useHint_loop s (allCoords s) [] = Inr safeCells"
    by (auto simp: useHint_def split: sum.splits)
  with assms go obtain u us where us: "randoms s = u # us"
    by (auto simp: useHint_def split: if_splits list.splits)
  define i where "i = randomIndex u (length safeCells)"
  from assms go loop us have i: "0 \<le> i" "i < int (length safeCells)"
    and sel: "(r, c) = safeCells ! nat i"
    and s': "s' = s\<lparr>randoms := us, hints := hints s - 1\<rparr>"
    by (auto simp: useHint_def Let_def i_def split: if_splits)
  from i sel have "(r, c) \<in> set safeCells" by (metis nat_less_iff nth_mem)
  from useHint_loop_safe[OF loop this] go s' us show ?thesis by simp
qed

theorem useHint_selects_safe_witness:
  "useHint demoRunning = Inr (demoRunning\<lparr>randoms := [], hints := 2\<rparr>, Some (0, 4)) \<and>
   map_option isMine (cellAt (grid demoRunning) 0 4) = Some False \<and>
   map_option isRevealed (cellAt (grid demoRunning) 0 4) = Some False \<and>
   map_option isFlagged (cellAt (grid demoRunning) 0 4) = Some False"
proof -
  have h: "useHint demoRunning = Inr (demoRunning\<lparr>randoms := [], hints := 2\<rparr>, Some (0, 4))"
    by code_simp
  from useHint_selects_safe[OF h] h show ?thesis by auto
qed

section \<open>The high-score table\<close>

lemma insort_insertAfter:
  "insort_key f x (insertAfter f e L) = insertAfter f e (insort_key f x L)"
  by (induction L) auto

lemma sort_key_snoc: "sort_key f (xs @ [e]) = insertAfter f e (sort_key f xs)"
  by (induction xs) (simp_all add: insort_insertAfter)

lemma take_Cons_take: "take k (y # take k ys) = take k (y # ys)"
  by (cases k) simp_all

lemma take_insertAfter_take:
  "take n (insertAfter f e (take n L)) = take n (insertAfter f e L)"
proof (induction L arbitrary: n)
  case Nil
  then show ?case by simp
next
  case (Cons y ys)
  then show ?case by (cases n) (auto simp: take_Cons_take)
qed

lemma take_sort_take_append:
  fixes f :: "'a \<Rightarrow> int"
  shows "take n (sort_key f (take n (sort_key f xs) @ ys)) = take n (sort_key f (xs @ ys))"
proof (induction ys rule: rev_induct)
  case Nil
  have "sorted (map f (take n (sort_key f xs)))"
    by (simp add: sorted_wrt_take take_map[symmetric])
  then show ?case by (simp add: sort_key_id_if_sorted)
next
  case (snoc e zs)
  have "take n (sort_key f (take n (sort_key f xs) @ zs @ [e])) =
        take n (insertAfter f e (sort_key f (take n (sort_key f xs) @ zs)))"
    using sort_key_snoc[of f "take n (sort_key f xs) @ zs" e] by simp
  also have "\<dots> = take n (insertAfter f e (take n (sort_key f (take n (sort_key f xs) @ zs))))"
    by (simp add: take_insertAfter_take)
  also have "\<dots> = take n (insertAfter f e (take n (sort_key f (xs @ zs))))"
    by (simp add: snoc.IH)
  also have "\<dots> = take n (insertAfter f e (sort_key f (xs @ zs)))"
    by (simp add: take_insertAfter_take)
  also have "\<dots> = take n (sort_key f (xs @ zs @ [e]))"
    using sort_key_snoc[of f "xs @ zs" e] by simp
  finally show ?case .
qed

lemma bucket_addScore:
  "bucket (fst (addScore mode difficulty playerName inits t now storage)) m d =
     (if m = mode \<and> d = difficulty
      then take 10 (sort_key time (bucket storage mode difficulty @
             [\<lparr>name = playerName, initials = inits, time = t, date = now\<rparr>]))
      else bucket storage m d)"
  by (auto simp: addScore_def bucket_def Let_def getScores_def emptyLists_def split: option.splits)

lemma bucket_addScores:
  "bucket (addScores storage xs) m d =
     (if entriesFor m d xs = [] then bucket storage m d
      else take 10 (sort_key time (bucket storage m d @ entriesFor m d xs)))"
proof (induction xs arbitrary: storage)
  case Nil
  then show ?case by (simp add: entriesFor_def)
next
  case (Cons x xs)
  define st1 where "st1 = fst (addScore (i_mode x) (i_difficulty x) (i_name x) (i_initials x) (i_time x) (i_date x) storage)"
  have IH: "bucket (addScores st1 xs) m d =
     (if entriesFor m d xs = [] then bucket st1 m d
      else take 10 (sort_key time (bucket st1 m d @ entriesFor m d xs)))"
    by (rule Cons.IH)
  show ?case
  proof (cases "i_mode x = m \<and> i_difficulty x = d")
    case True
    then have b1: "bucket st1 m d = take 10 (sort_key time (bucket storage m d @ [toScore x]))"
      unfolding st1_def bucket_addScore by (simp add: toScore_def)
    have e: "entriesFor m d (x # xs) = toScore x # entriesFor m d xs"
      using True by (simp add: entriesFor_def)
    show ?thesis
      using IH unfolding b1 e
      by (simp add: st1_def[symmetric] take_sort_take_append)
  next
    case False
    then have b1: "bucket st1 m d = bucket storage m d"
      unfolding st1_def bucket_addScore by auto
    have e: "entriesFor m d (x # xs) = entriesFor m d xs"
      using False by (auto simp: entriesFor_def)
    show ?thesis using IH unfolding b1 e by (simp add: st1_def[symmetric])
  qed
qed

lemma sorted_take_drop_le:
  assumes "sorted (map f L)" and "x \<in> set (take n L)" and "y \<in> set (drop n L)"
  shows "f x \<le> f y"
proof -
  have "sorted (map f (take n L) @ map f (drop n L))"
    using assms(1) by (simp add: map_append[symmetric] del: map_append)
  with assms(2,3) show ?thesis by (auto simp: sorted_append)
qed

text \<open>
  What a sequence of insertions makes of one list of the table, whatever the list was: a
  list that received none of them is unchanged, and one that received an insertion holds
  the first 10 entries of the stable sort by time of its entries followed by the inserted
  ones.
\<close>

lemma conforming_take_sort: "conforming (take 10 (sort_key time l))"
proof -
  have "sorted (map time (sort_key time l))" by simp
  then have "sorted (map time (take 10 (sort_key time l)))"
    by (simp add: sorted_wrt_take take_map[symmetric] del: sorted_sort_key)
  then show ?thesis by (simp add: conforming_def)
qed

lemma addScores_bucket_conforming:
  assumes "conforming (bucket storage m d)"
  shows "bucket (addScores storage xs) m d =
         take 10 (sort_key time (bucket storage m d @ entriesFor m d xs))"
proof (cases "entriesFor m d xs = []")
  case True
  with assms show ?thesis
    by (simp add: bucket_addScores sort_key_id_if_sorted conforming_def)
next
  case False
  then show ?thesis by (simp add: bucket_addScores)
qed

text \<open>The lists of the absent item, and of every item that the program has written.\<close>

lemma conforming_absent: "conforming (bucket None m d)"
  by (simp add: bucket_def getScores_def emptyLists_def conforming_def)

lemma conforming_written: "conforming (bucket (addScores None xs) m d)"
  unfolding addScores_bucket_conforming[OF conforming_absent] by (rule conforming_take_sort)

text \<open>
  C9. Take a list of a high-score table, one of at most 10 entries in ascending order of
  time, as every list is that the program reads (\<open>conforming_written\<close>). After any sequence
  of insertions the list has at most 10 entries in ascending order of time. It holds the
  first 10 entries of the stable sort by time of its starting entries followed by the
  entries inserted into it: the entries with the 10 lowest times, none of them with a
  larger time than an entry that was dropped.
\<close>

theorem addScores_bucket:
  assumes "conforming (bucket storage m d)"
  shows "length (bucket (addScores storage xs) m d) \<le> 10 \<and>
         sorted (map time (bucket (addScores storage xs) m d)) \<and>
         bucket (addScores storage xs) m d =
           take 10 (sort_key time (bucket storage m d @ entriesFor m d xs)) \<and>
         (\<forall>x \<in> set (bucket (addScores storage xs) m d).
            \<forall>y \<in> set (drop 10 (sort_key time (bucket storage m d @ entriesFor m d xs))).
              time x \<le> time y)"
proof -
  let ?all = "bucket storage m d @ entriesFor m d xs"
  note eq = addScores_bucket_conforming[OF assms, of xs]
  from conforming_take_sort[of ?all] have
    "length (bucket (addScores storage xs) m d) \<le> 10"
    "sorted (map time (bucket (addScores storage xs) m d))"
    unfolding eq by (simp_all add: conforming_def)
  moreover have s: "sorted (map time (sort_key time ?all))" by simp
  have "\<forall>x \<in> set (bucket (addScores storage xs) m d).
       \<forall>y \<in> set (drop 10 (sort_key time ?all)). time x \<le> time y"
    unfolding eq using sorted_take_drop_le[OF s] by blast
  ultimately show ?thesis using eq by simp
qed

theorem addScores_bucket_witness:
  "conforming (bucket None ''classic'' ''easy'') \<and>
   length easyRun = 11 \<and>
   map time (bucket (addScores None easyRun) ''classic'' ''easy'') =
     [10, 20, 30, 40, 50, 60, 70, 80, 90, 100] \<and>
   map time (drop 10 (sort_key time (bucket None ''classic'' ''easy'' @
      entriesFor ''classic'' ''easy'' easyRun))) = [110] \<and>
   length (bucket (addScores None easyRun) ''classic'' ''easy'') \<le> 10 \<and>
   sorted (map time (bucket (addScores None easyRun) ''classic'' ''easy''))"
proof -
  have c: "conforming (bucket None ''classic'' ''easy'')" by (rule conforming_absent)
  have n: "length easyRun = 11" by (simp add: easyRun_def)
  have v: "map time (bucket (addScores None easyRun) ''classic'' ''easy'') =
     [10, 20, 30, 40, 50, 60, 70, 80, 90, 100]"
    by code_simp
  have d: "map time (drop 10 (sort_key time (bucket None ''classic'' ''easy'' @
      entriesFor ''classic'' ''easy'' easyRun))) = [110]"
    by code_simp
  from addScores_bucket[OF c, of easyRun] have
    l: "length (bucket (addScores None easyRun) ''classic'' ''easy'') \<le> 10 \<and>
        sorted (map time (bucket (addScores None easyRun) ''classic'' ''easy''))"
    by blast
  from c n v d show ?thesis using l by blast
qed

section \<open>Mine placement and neighbour counts\<close>

lemma set_offsets:
  "set offsets = {(-1, -1), (-1, 0), (-1, 1), (0, -1), (0, 1), (1, -1), (1, 0), (1, 1)}"
  by (simp add: offsets_def)

lemma distinct_offsets: "distinct offsets"
  by (simp add: offsets_def)

lemma adjacent_offsets: "adjacent (row, col) q = ((fst q - row, snd q - col) \<in> set offsets)"
  unfolding set_offsets adjacent_def by (cases q) (auto simp: max_def abs_if split: if_splits)

lemma set_neighborsOf: "set (neighborsOf row col) = {q. adjacent (row, col) q}"
proof -
  have "\<And>q. (q \<in> set (neighborsOf row col)) = ((fst q - row, snd q - col) \<in> set offsets)"
    unfolding neighborsOf_def by (force simp: image_iff)
  then show ?thesis by (auto simp: adjacent_offsets)
qed

lemma distinct_neighborsOf: "distinct (neighborsOf row col)"
  unfolding neighborsOf_def by (auto simp: distinct_map distinct_offsets inj_on_def)

lemma countAdjacentMines_loop_eq:
  assumes "wfGame s"
  shows "countAdjacentMines_loop s row col ds count =
         Inr (count + length (filter (\<lambda>q. inBounds s q \<and> mineAt (grid s) q)
                                (map (\<lambda>(dr, dc). (row + dr, col + dc)) ds)))"
proof (induction ds arbitrary: count)
  case Nil
  then show ?case by simp
next
  case (Cons d ds)
  obtain dr dc where d: "d = (dr, dc)" by (cases d)
  have c: "(row + dr \<ge> 0 \<and> row + dr < int (rows s) \<and> col + dc \<ge> 0 \<and> col + dc < int (cols s)) =
           inBounds s (row + dr, col + dc)"
    by (simp add: inBounds_def)
  show ?case
  proof (cases "inBounds s (row + dr, col + dc)")
    case True
    with wfGame_cellAt[OF assms, of "row + dr" "col + dc"] obtain cl where
      cl: "cellAt (grid s) (row + dr) (col + dc) = Some cl" by (auto simp: inBounds_def)
    then have m: "mineAt (grid s) (row + dr, col + dc) = isMine cl" by (simp add: mineAt_def)
    show ?thesis
      unfolding d countAdjacentMines_loop.simps Let_def c using True cl m
      by (simp add: Cons.IH)
  next
    case False
    then show ?thesis
      unfolding d countAdjacentMines_loop.simps Let_def c by (simp add: Cons.IH)
  qed
qed

lemma countAdjacentMines_eq:
  assumes "wfGame s"
  shows "countAdjacentMines s row col = Inr (adjacentMines s row col)"
proof -
  let ?P = "\<lambda>q. inBounds s q \<and> mineAt (grid s) q"
  have "length (filter ?P (neighborsOf row col)) = card ({q. ?P q} \<inter> set (neighborsOf row col))"
    using distinct_neighborsOf by (rule distinct_length_filter)
  also have "{q. ?P q} \<inter> set (neighborsOf row col) =
             {q. adjacent (row, col) q \<and> inBounds s q \<and> mineAt (grid s) q}"
    unfolding set_neighborsOf by auto
  finally show ?thesis
    unfolding countAdjacentMines_def countAdjacentMines_loop_eq[OF assms] adjacentMines_def neighborsOf_def
    by simp
qed

lemma cellsRelD:
  "cellsRel R g g' \<Longrightarrow> cellAt g r c = Some cl \<Longrightarrow> \<exists>cl'. cellAt g' r c = Some cl' \<and> R r c cl cl'"
  unfolding cellsRel_def by blast

lemma cellsRel_shape: "cellsRel R g g' \<Longrightarrow> map length g' = map length g"
  unfolding cellsRel_def by blast

lemma cellsRel_refl: "(\<And>r c cl. R r c cl cl) \<Longrightarrow> cellsRel R g g"
  unfolding cellsRel_def by simp

lemma cellsRel_trans:
  assumes "cellsRel R g g'" and "cellsRel R g' g''"
    and "\<And>r c x y z. R r c x y \<Longrightarrow> R r c y z \<Longrightarrow> R r c x z"
  shows "cellsRel R g g''"
  unfolding cellsRel_def
proof (intro conjI allI impI)
  show "map length g'' = map length g"
    using cellsRel_shape[OF assms(1)] cellsRel_shape[OF assms(2)] by simp
next
  fix r c cl
  assume "cellAt g r c = Some cl"
  from cellsRelD[OF assms(1) this] obtain cl' where 1: "cellAt g' r c = Some cl'" "R r c cl cl'"
    by blast
  from cellsRelD[OF assms(2) 1(1)] obtain cl'' where 2: "cellAt g'' r c = Some cl''" "R r c cl' cl''"
    by blast
  from 1 2 assms(3) show "\<exists>cl'. cellAt g'' r c = Some cl' \<and> R r c cl cl'" by blast
qed

lemma cellsRel_setCell:
  assumes "cellAt g r c = Some cl" and "R r c cl x" and "\<And>r c cl. R r c cl cl"
  shows "cellsRel R g (setCell g r c x)"
  unfolding cellsRel_def using assms by (auto simp: cellAt_setCell)

lemma cellsRel_mono:
  "cellsRel R g g' \<Longrightarrow> (\<And>r c x y. R r c x y \<Longrightarrow> R' r c x y) \<Longrightarrow> cellsRel R' g g'"
  unfolding cellsRel_def by blast

lemma cellsRel_None:
  assumes "cellsRel R g g'"
  shows "(cellAt g' r c = None) = (cellAt g r c = None)"
proof -
  have a: "map length g' = map length g" using assms by (rule cellsRel_shape)
  then have l: "length g' = length g" by (metis length_map)
  have "\<And>i. i < length g \<Longrightarrow> length (g' ! i) = length (g ! i)"
    using a l by (metis nth_map)
  with l show ?thesis by (auto simp: cellAt_def)
qed

lemma besidesGrid_fields:
  assumes "besidesGrid s' = besidesGrid s"
  shows "rows s' = rows s" "cols s' = cols s" "mineCount s' = mineCount s"
    "flagCount s' = flagCount s" "revealedCount s' = revealedCount s"
    "gameOver s' = gameOver s" "gameStarted s' = gameStarted s" "timer s' = timer s"
    "timerRunning s' = timerRunning s" "hints s' = hints s" "isTimeAttack s' = isTimeAttack s"
    "timeAttackLimit s' = timeAttackLimit s" "face s' = face s" "randoms s' = randoms s"
proof -
  have "\<And>f. f (besidesGrid s') = f (besidesGrid s)" using assms by simp
  note e = this
  show "rows s' = rows s" using e[of rows] by (simp add: besidesGrid_def)
  show "cols s' = cols s" using e[of cols] by (simp add: besidesGrid_def)
  show "mineCount s' = mineCount s" using e[of mineCount] by (simp add: besidesGrid_def)
  show "flagCount s' = flagCount s" using e[of flagCount] by (simp add: besidesGrid_def)
  show "revealedCount s' = revealedCount s" using e[of revealedCount] by (simp add: besidesGrid_def)
  show "gameOver s' = gameOver s" using e[of gameOver] by (simp add: besidesGrid_def)
  show "gameStarted s' = gameStarted s" using e[of gameStarted] by (simp add: besidesGrid_def)
  show "timer s' = timer s" using e[of timer] by (simp add: besidesGrid_def)
  show "timerRunning s' = timerRunning s" using e[of timerRunning] by (simp add: besidesGrid_def)
  show "hints s' = hints s" using e[of hints] by (simp add: besidesGrid_def)
  show "isTimeAttack s' = isTimeAttack s" using e[of isTimeAttack] by (simp add: besidesGrid_def)
  show "timeAttackLimit s' = timeAttackLimit s" using e[of timeAttackLimit] by (simp add: besidesGrid_def)
  show "face s' = face s" using e[of face] by (simp add: besidesGrid_def)
  show "randoms s' = randoms s" using e[of randoms] by (simp add: besidesGrid_def)
qed

lemma mineAt_cellsRel:
  assumes "cellsRel R g g'" and "\<And>r c x y. R r c x y \<Longrightarrow> isMine y = isMine x"
  shows "mineAt g' p = mineAt g p"
proof (cases "cellAt g (fst p) (snd p)")
  case None
  with cellsRel_None[OF assms(1), of "fst p" "snd p"] show ?thesis by (simp add: mineAt_def)
next
  case (Some cl)
  from cellsRelD[OF assms(1) Some] assms(2) Some show ?thesis by (auto simp: mineAt_def)
qed

lemma adjacentMines_cong:
  "rows s' = rows s \<Longrightarrow> cols s' = cols s \<Longrightarrow> (\<And>p. mineAt (grid s') p = mineAt (grid s) p) \<Longrightarrow>
   adjacentMines s' r c = adjacentMines s r c"
  by (simp add: adjacentMines_def inBounds_def)

lemma calculateNumbers_loop_exact:
  assumes "wfGame s" and "\<forall>p \<in> set cs. inBounds s p"
  shows "\<exists>s'. calculateNumbers_loop s cs = Inr s' \<and> besidesGrid s' = besidesGrid s \<and>
           map length (grid s') = map length (grid s) \<and>
           (\<forall>r c. cellAt (grid s') r c =
               map_option (\<lambda>cl. if (r, c) \<in> set cs \<and> \<not> isMine cl
                                 then cl\<lparr>neighborMines := adjacentMines s r c\<rparr> else cl)
                 (cellAt (grid s) r c))"
  using assms
proof (induction cs arbitrary: s)
  case Nil
  then show ?case by (simp add: option.map_ident)
next
  case (Cons p cs)
  obtain r0 c0 where p: "p = (r0, c0)" by (cases p)
  from Cons.prems(2) have inb: "inBounds s (r0, c0)" and rest: "\<forall>p \<in> set cs. inBounds s p"
    by (simp_all add: p)
  from inb wfGame_cellAt[OF Cons.prems(1), of r0 c0] obtain cl where
    cl: "cellAt (grid s) r0 c0 = Some cl" by (auto simp: inBounds_def)
  show ?case
  proof (cases "isMine cl")
    case True
    from Cons.IH[OF Cons.prems(1) rest] obtain s' where
      s': "calculateNumbers_loop s cs = Inr s'" "besidesGrid s' = besidesGrid s"
          "map length (grid s') = map length (grid s)"
          "\<forall>r c. cellAt (grid s') r c =
               map_option (\<lambda>cl. if (r, c) \<in> set cs \<and> \<not> isMine cl
                                 then cl\<lparr>neighborMines := adjacentMines s r c\<rparr> else cl)
                 (cellAt (grid s) r c)"
      by blast
    have "\<forall>r c. cellAt (grid s') r c =
               map_option (\<lambda>cl. if (r, c) \<in> set (p # cs) \<and> \<not> isMine cl
                                 then cl\<lparr>neighborMines := adjacentMines s r c\<rparr> else cl)
                 (cellAt (grid s) r c)"
    proof (intro allI)
      fix r c
      show "cellAt (grid s') r c =
               map_option (\<lambda>cl. if (r, c) \<in> set (p # cs) \<and> \<not> isMine cl
                                 then cl\<lparr>neighborMines := adjacentMines s r c\<rparr> else cl)
                 (cellAt (grid s) r c)"
        using s'(4)[rule_format, of r c] cl True
        by (cases "(r, c) = (r0, c0)") (auto simp: p intro!: option.map_cong)
    qed
    with s'(1-3) cl True show ?thesis by (auto simp: p)
  next
    case False
    define n where "n = adjacentMines s r0 c0"
    define s1 where "s1 = s\<lparr>grid := setCell (grid s) r0 c0 (cl\<lparr>neighborMines := n\<rparr>)\<rparr>"
    have step: "calculateNumbers_loop s (p # cs) = calculateNumbers_loop s1 cs"
      using cl False by (simp add: p countAdjacentMines_eq[OF Cons.prems(1)] s1_def n_def)
    have b1: "besidesGrid s1 = besidesGrid s" by (simp add: s1_def besidesGrid_def)
    have rc1: "rows s1 = rows s" "cols s1 = cols s" by (simp_all add: s1_def)
    have sh1: "map length (grid s1) = map length (grid s)" by (simp add: s1_def)
    have wf1: "wfGame s1" using Cons.prems(1) by (simp add: wfGame_def sh1 rc1)
    have rest1: "\<forall>p \<in> set cs. inBounds s1 p" using rest by (simp add: inBounds_def rc1)
    have c1: "\<And>r c. cellAt (grid s1) r c =
                (if r = r0 \<and> c = c0 then Some (cl\<lparr>neighborMines := n\<rparr>) else cellAt (grid s) r c)"
      by (simp add: s1_def cellAt_setCell[OF cl])
    have m1: "\<And>q. mineAt (grid s1) q = mineAt (grid s) q"
      using cl by (auto simp: mineAt_def c1)
    have a1: "\<And>r c. adjacentMines s1 r c = adjacentMines s r c"
      using rc1 m1 by (rule adjacentMines_cong)
    from Cons.IH[OF wf1 rest1] obtain s' where
      s': "calculateNumbers_loop s1 cs = Inr s'" "besidesGrid s' = besidesGrid s1"
          "map length (grid s') = map length (grid s1)"
          "\<forall>r c. cellAt (grid s') r c =
               map_option (\<lambda>cl. if (r, c) \<in> set cs \<and> \<not> isMine cl
                                 then cl\<lparr>neighborMines := adjacentMines s1 r c\<rparr> else cl)
                 (cellAt (grid s1) r c)"
      by blast
    have "\<forall>r c. cellAt (grid s') r c =
               map_option (\<lambda>cl. if (r, c) \<in> set (p # cs) \<and> \<not> isMine cl
                                 then cl\<lparr>neighborMines := adjacentMines s r c\<rparr> else cl)
                 (cellAt (grid s) r c)"
    proof (intro allI)
      fix r c
      show "cellAt (grid s') r c =
               map_option (\<lambda>cl. if (r, c) \<in> set (p # cs) \<and> \<not> isMine cl
                                 then cl\<lparr>neighborMines := adjacentMines s r c\<rparr> else cl)
                 (cellAt (grid s) r c)"
      proof (cases "r = r0 \<and> c = c0")
        case True
        then show ?thesis
          using s'(4)[rule_format, of r c] cl False by (simp add: c1 a1 p n_def)
      next
        case ne: False
        then show ?thesis
          using s'(4)[rule_format, of r c] by (auto simp: c1 a1 p intro!: option.map_cong)
      qed
    qed
    with s'(1-3) b1 sh1 step show ?thesis by simp
  qed
qed

lemma set_allCoords: "set (allCoords s) = {p. inBounds s p}"
proof -
  have 1: "set (allCoords s) = {(int r, int c) | r c. r < rows s \<and> c < cols s}"
    by (auto simp: allCoords_def)
  have "\<And>a b. inBounds s (a, b) \<Longrightarrow> \<exists>r c. (a, b) = (int r, int c) \<and> r < rows s \<and> c < cols s"
  proof -
    fix a b
    assume "inBounds s (a, b)"
    then have "(a, b) = (int (nat a), int (nat b)) \<and> nat a < rows s \<and> nat b < cols s"
      by (auto simp: inBounds_def)
    then show "\<exists>r c. (a, b) = (int r, int c) \<and> r < rows s \<and> c < cols s" by blast
  qed
  moreover have "\<And>r c. r < rows s \<Longrightarrow> c < cols s \<Longrightarrow> inBounds s (int r, int c)"
    by (simp add: inBounds_def)
  ultimately show ?thesis unfolding 1 by auto
qed

lemma numbersOnlyD:
  assumes "numbersOnly r c x y"
  shows "isMine y = isMine x" "isRevealed y = isRevealed x" "isFlagged y = isFlagged x"
proof -
  from assms have e: "y = x\<lparr>neighborMines := neighborMines y\<rparr>" by (simp add: numbersOnly_def)
  show "isMine y = isMine x" by (subst e) simp
  show "isRevealed y = isRevealed x" by (subst e) simp
  show "isFlagged y = isFlagged x" by (subst e) simp
qed

lemma calculateNumbers_exact:
  assumes "wfGame s"
  shows "\<exists>s'. calculateNumbers s = Inr s' \<and> besidesGrid s' = besidesGrid s \<and>
           map length (grid s') = map length (grid s) \<and>
           (\<forall>r c. cellAt (grid s') r c =
               map_option (\<lambda>cl. if \<not> isMine cl
                                 then cl\<lparr>neighborMines := adjacentMines s r c\<rparr> else cl)
                 (cellAt (grid s) r c))"
proof -
  have "\<forall>p \<in> set (allCoords s). inBounds s p" by (simp add: set_allCoords)
  from calculateNumbers_loop_exact[OF assms this] obtain s' where
    s': "calculateNumbers s = Inr s'" "besidesGrid s' = besidesGrid s"
        "map length (grid s') = map length (grid s)"
        "\<forall>r c. cellAt (grid s') r c =
               map_option (\<lambda>cl. if (r, c) \<in> set (allCoords s) \<and> \<not> isMine cl
                                 then cl\<lparr>neighborMines := adjacentMines s r c\<rparr> else cl)
                 (cellAt (grid s) r c)"
    unfolding calculateNumbers_def by blast
  have "\<forall>r c. cellAt (grid s') r c =
               map_option (\<lambda>cl. if \<not> isMine cl
                                 then cl\<lparr>neighborMines := adjacentMines s r c\<rparr> else cl)
                 (cellAt (grid s) r c)"
  proof (intro allI)
    fix r c
    show "cellAt (grid s') r c =
               map_option (\<lambda>cl. if \<not> isMine cl
                                 then cl\<lparr>neighborMines := adjacentMines s r c\<rparr> else cl)
                 (cellAt (grid s) r c)"
    proof (cases "cellAt (grid s) r c")
      case None
      with s'(4)[rule_format, of r c] show ?thesis by simp
    next
      case (Some cl)
      with wfGame_cellAt[OF assms, of r c] have "(r, c) \<in> set (allCoords s)"
        by (simp add: set_allCoords inBounds_def)
      with s'(4)[rule_format, of r c] Some show ?thesis by simp
    qed
  qed
  with s'(1-3) show ?thesis by blast
qed

lemma calculateNumbers_cellsRel:
  assumes "wfGame s" and "calculateNumbers s = Inr s'"
  shows "besidesGrid s' = besidesGrid s" and "cellsRel numbersOnly (grid s) (grid s')"
    and "wfGame s'"
    and "\<And>r c cl. cellAt (grid s') r c = Some cl \<Longrightarrow> \<not> isMine cl \<Longrightarrow>
           neighborMines cl = adjacentMines s' r c"
proof -
  from calculateNumbers_exact[OF assms(1)] assms(2) have
    b: "besidesGrid s' = besidesGrid s" and sh: "map length (grid s') = map length (grid s)"
    and ex: "\<And>r c. cellAt (grid s') r c =
               map_option (\<lambda>cl. if \<not> isMine cl
                                 then cl\<lparr>neighborMines := adjacentMines s r c\<rparr> else cl)
                 (cellAt (grid s) r c)"
    by auto
  show "besidesGrid s' = besidesGrid s" by (rule b)
  show rel: "cellsRel numbersOnly (grid s) (grid s')"
    unfolding cellsRel_def using sh by (auto simp: ex numbersOnly_def)
  show "wfGame s'" using assms(1) besidesGrid_fields(1,2)[OF b] sh by (simp add: wfGame_def)
  have m: "\<And>p. mineAt (grid s') p = mineAt (grid s) p"
    using rel by (rule mineAt_cellsRel) (rule numbersOnlyD(1))
  have a: "\<And>r c. adjacentMines s' r c = adjacentMines s r c"
    using besidesGrid_fields(1,2)[OF b] m by (rule adjacentMines_cong)
  fix r c cl
  assume cl: "cellAt (grid s') r c = Some cl" and nm: "\<not> isMine cl"
  from cl obtain cl0 where cl0: "cellAt (grid s) r c = Some cl0"
    and e: "cl = (if \<not> isMine cl0 then cl0\<lparr>neighborMines := adjacentMines s r c\<rparr> else cl0)"
    unfolding ex by auto
  from e nm have "neighborMines cl = adjacentMines s r c" by (cases "isMine cl0") auto
  then show "neighborMines cl = adjacentMines s' r c" by (simp add: a)
qed

lemma placeMines_loop_done:
  "\<not> k < mineCount s \<Longrightarrow> placeMines_loop s fr fc k = Inr s"
  by simp

lemma placeMines_loop_exhausted:
  "k < mineCount s \<Longrightarrow> length (randoms s) < 2 \<Longrightarrow> placeMines_loop s fr fc k = Inl RandomExhausted"
  by (cases "randoms s"; cases "tl (randoms s)") auto

lemma placeMines_loop_step:
  assumes "k < mineCount s" and "randoms s = u1 # u2 # us"
  shows "placeMines_loop s fr fc k =
     (case cellAt (grid s) (randomIndex u1 (rows s)) (randomIndex u2 (cols s)) of
        None \<Rightarrow> Inl TypeError
      | Some cl \<Rightarrow>
          if \<not> isMine cl \<and> \<not> (\<bar>randomIndex u1 (rows s) - fr\<bar> \<le> 1 \<and> \<bar>randomIndex u2 (cols s) - fc\<bar> \<le> 1)
          then placeMines_loop (placed s us (randomIndex u1 (rows s)) (randomIndex u2 (cols s)) cl) fr fc (k + 1)
          else placeMines_loop (s\<lparr>randoms := us\<rparr>) fr fc k)"
  using assms by (subst placeMines_loop.simps) (simp add: Let_def placed_def split: option.splits)

declare placeMines_loop.simps [simp del]

lemma minesOnly_refl: "minesOnly fr fc r c cl cl"
  by (simp add: minesOnly_def)

lemma minesOnly_trans:
  "minesOnly fr fc r c x y \<Longrightarrow> minesOnly fr fc r c y z \<Longrightarrow> minesOnly fr fc r c x z"
  unfolding minesOnly_def by auto

lemma placeMines_loop_inv:
  assumes "placeMines_loop s fr fc k = Inr s'" and "k \<le> mineCount s"
  shows "besidesMines s' = besidesMines s \<and> cellsRel (minesOnly fr fc) (grid s) (grid s') \<and>
         countCells isMine (grid s') + k = countCells isMine (grid s) + mineCount s"
  using assms
proof (induction "length (randoms s)" arbitrary: s k rule: less_induct)
  case less
  show ?case
  proof (cases "k < mineCount s")
    case False
    with less.prems show ?thesis
      by (simp add: placeMines_loop_done cellsRel_refl minesOnly_refl)
  next
    case True
    with less.prems(1) placeMines_loop_exhausted[OF True, of fr fc]
    have "\<not> length (randoms s) < 2" by auto
    then obtain u1 u2 us where us: "randoms s = u1 # u2 # us"
      by (cases "randoms s"; cases "tl (randoms s)") auto
    define r where "r = randomIndex u1 (rows s)"
    define c where "c = randomIndex u2 (cols s)"
    note step = placeMines_loop_step[OF True us, of fr fc, folded r_def c_def]
    from less.prems(1) step obtain cl where cl: "cellAt (grid s) r c = Some cl"
      by (cases "cellAt (grid s) r c") auto
    show ?thesis
    proof (cases "\<not> isMine cl \<and> \<not> (\<bar>r - fr\<bar> \<le> 1 \<and> \<bar>c - fc\<bar> \<le> 1)")
      case place: True
      define s1 where "s1 = placed s us r c cl"
      have run: "placeMines_loop s1 fr fc (k + 1) = Inr s'"
        using less.prems(1) step cl place by (simp add: s1_def)
      have len: "length (randoms s1) < length (randoms s)" by (simp add: s1_def placed_def us)
      have mc: "mineCount s1 = mineCount s" by (simp add: s1_def placed_def)
      from less.hyps[OF len run] True mc have
        IH: "besidesMines s' = besidesMines s1" "cellsRel (minesOnly fr fc) (grid s1) (grid s')"
            "countCells isMine (grid s') + (k + 1) = countCells isMine (grid s1) + mineCount s"
        by auto
      have b: "besidesMines s1 = besidesMines s" by (simp add: s1_def placed_def besidesMines_def)
      have g1: "grid s1 = setCell (grid s) r c (cl\<lparr>isMine := True\<rparr>)" by (simp add: s1_def placed_def)
      have rel1: "cellsRel (minesOnly fr fc) (grid s) (grid s1)"
        unfolding g1 using cl place
        by (intro cellsRel_setCell[OF cl]) (auto simp: minesOnly_def)
      have cnt1: "countCells isMine (grid s1) = countCells isMine (grid s) + 1"
        unfolding g1 using countCells_setCell[OF cl, of isMine "cl\<lparr>isMine := True\<rparr>"] place by simp
      from IH b cnt1 cellsRel_trans[OF rel1 IH(2) minesOnly_trans] show ?thesis by simp
    next
      case skip: False
      define s1 where "s1 = s\<lparr>randoms := us\<rparr>"
      have run: "placeMines_loop s1 fr fc k = Inr s'"
        using less.prems(1) step cl skip by (auto simp: s1_def)
      have len: "length (randoms s1) < length (randoms s)" by (simp add: s1_def us)
      have mc: "mineCount s1 = mineCount s" by (simp add: s1_def)
      from less.hyps[OF len run] less.prems(2) mc have
        IH: "besidesMines s' = besidesMines s1" "cellsRel (minesOnly fr fc) (grid s1) (grid s')"
            "countCells isMine (grid s') + k = countCells isMine (grid s1) + mineCount s"
        by auto
      have b: "besidesMines s1 = besidesMines s" by (simp add: s1_def besidesMines_def)
      have g1: "grid s1 = grid s" by (simp add: s1_def)
      from IH b g1 show ?thesis by simp
    qed
  qed
qed

lemma demoPlaced_reached: "placeMines demoStart 0 0 = Inr demoPlaced"
  by code_simp

lemma besidesMines_fields:
  assumes "besidesMines s' = besidesMines s"
  shows "rows s' = rows s" "cols s' = cols s" "mineCount s' = mineCount s"
    "flagCount s' = flagCount s" "revealedCount s' = revealedCount s"
    "gameOver s' = gameOver s" "gameStarted s' = gameStarted s" "timer s' = timer s"
    "timerRunning s' = timerRunning s" "hints s' = hints s" "isTimeAttack s' = isTimeAttack s"
    "timeAttackLimit s' = timeAttackLimit s" "face s' = face s"
proof -
  have "\<And>f. f (besidesMines s') = f (besidesMines s)" using assms by simp
  note e = this
  show "rows s' = rows s" using e[of rows] by (simp add: besidesMines_def)
  show "cols s' = cols s" using e[of cols] by (simp add: besidesMines_def)
  show "mineCount s' = mineCount s" using e[of mineCount] by (simp add: besidesMines_def)
  show "flagCount s' = flagCount s" using e[of flagCount] by (simp add: besidesMines_def)
  show "revealedCount s' = revealedCount s" using e[of revealedCount] by (simp add: besidesMines_def)
  show "gameOver s' = gameOver s" using e[of gameOver] by (simp add: besidesMines_def)
  show "gameStarted s' = gameStarted s" using e[of gameStarted] by (simp add: besidesMines_def)
  show "timer s' = timer s" using e[of timer] by (simp add: besidesMines_def)
  show "timerRunning s' = timerRunning s" using e[of timerRunning] by (simp add: besidesMines_def)
  show "hints s' = hints s" using e[of hints] by (simp add: besidesMines_def)
  show "isTimeAttack s' = isTimeAttack s" using e[of isTimeAttack] by (simp add: besidesMines_def)
  show "timeAttackLimit s' = timeAttackLimit s" using e[of timeAttackLimit] by (simp add: besidesMines_def)
  show "face s' = face s" using e[of face] by (simp add: besidesMines_def)
qed

lemma countCells_zero:
  assumes "countCells P g = 0" and "cellAt g r c = Some cl"
  shows "\<not> P cl"
proof -
  from cellAt_SomeD[OF assms(2)] have r: "nat r < length g" and c: "nat c < length (g ! nat r)"
    and cl: "cl = g ! nat r ! nat c" by auto
  from assms(1) have "\<forall>row \<in> set g. length (filter P row) = 0"
    by (simp add: countCells_def)
  with r have "filter P (g ! nat r) = []" by simp
  with c cl show ?thesis by (metis filter_empty_conv nth_mem)
qed

lemma countCells_cellsRel:
  assumes "cellsRel R g g'" and "\<And>r c x y. R r c x y \<Longrightarrow> P y = P x"
  shows "countCells P g' = countCells P g"
proof -
  have sh: "map length g' = map length g" using assms(1) by (rule cellsRel_shape)
  then have l: "length g' = length g" by (metis length_map)
  have rowlen: "\<And>i. i < length g \<Longrightarrow> length (g' ! i) = length (g ! i)"
    using sh l by (metis nth_map)
  have cellP: "\<And>i j. i < length g \<Longrightarrow> j < length (g ! i) \<Longrightarrow> P (g' ! i ! j) = P (g ! i ! j)"
  proof -
    fix i j
    assume i: "i < length g" and j: "j < length (g ! i)"
    then have "cellAt g (int i) (int j) = Some (g ! i ! j)" by (simp add: cellAt_def)
    from cellsRelD[OF assms(1) this] obtain cl' where
      "cellAt g' (int i) (int j) = Some cl'" "R (int i) (int j) (g ! i ! j) cl'" by blast
    with assms(2) show "P (g' ! i ! j) = P (g ! i ! j)"
      by (auto simp: cellAt_def split: if_splits)
  qed
  have "\<And>i. i < length g \<Longrightarrow> length (filter P (g' ! i)) = length (filter P (g ! i))"
  proof -
    fix i
    assume i: "i < length g"
    have "map P (g' ! i) = map P (g ! i)"
      using rowlen[OF i] cellP[OF i] by (intro nth_equalityI) auto
    then have "length (filter id (map P (g' ! i))) = length (filter id (map P (g ! i)))" by simp
    then show "length (filter P (g' ! i)) = length (filter P (g ! i))"
      by (simp add: filter_map comp_def)
  qed
  then have "map (\<lambda>row. length (filter P row)) g' = map (\<lambda>row. length (filter P row)) g"
    using l by (intro nth_equalityI) auto
  then show ?thesis by (simp add: countCells_def)
qed

lemma placeMines_parts:
  assumes "placeMines s fr fc = Inr s'" and "wfGame s"
  obtains s1 where "placeMines_loop s fr fc 0 = Inr s1" "calculateNumbers s1 = Inr s'"
    "besidesMines s1 = besidesMines s" "cellsRel (minesOnly fr fc) (grid s) (grid s1)"
    "countCells isMine (grid s1) = countCells isMine (grid s) + mineCount s"
    "wfGame s1" "besidesGrid s' = besidesGrid s1" "cellsRel numbersOnly (grid s1) (grid s')"
    "wfGame s'"
proof -
  from assms(1) obtain s1 where l: "placeMines_loop s fr fc 0 = Inr s1"
    and n: "calculateNumbers s1 = Inr s'"
    by (auto simp: placeMines_def split: sum.splits)
  from placeMines_loop_inv[OF l] have
    i: "besidesMines s1 = besidesMines s" "cellsRel (minesOnly fr fc) (grid s) (grid s1)"
       "countCells isMine (grid s1) = countCells isMine (grid s) + mineCount s"
    by auto
  have wf1: "wfGame s1"
    using assms(2) besidesMines_fields(1,2)[OF i(1)] cellsRel_shape[OF i(2)]
    by (simp add: wfGame_def)
  from calculateNumbers_cellsRel(1-3)[OF wf1 n] l n i wf1 that show ?thesis by blast
qed

text \<open>
  C2. Let the grid hold no mine, as \<^verbatim>\<open>createGrid\<close> leaves it and as it is whenever
  \<^verbatim>\<open>handleReveal\<close> calls \<^verbatim>\<open>placeMines\<close>. When the placement returns, no cell of the
  grid within one row and one column of the first click is a mine, and the number of
  cells that are mines is \<open>mineCount\<close>.
\<close>

theorem placeMines_first_click_safe:
  assumes "placeMines s firstRow firstCol = Inr s'" and "wfGame s"
    and "countCells isMine (grid s) = 0"
  shows "(\<forall>r c cl. cellAt (grid s') r c = Some cl \<and> \<bar>r - firstRow\<bar> \<le> 1 \<and> \<bar>c - firstCol\<bar> \<le> 1
            \<longrightarrow> \<not> isMine cl) \<and>
         countCells isMine (grid s') = mineCount s'"
proof -
  from placeMines_parts[OF assms(1,2)] obtain s1 where
    p: "besidesMines s1 = besidesMines s" "cellsRel (minesOnly firstRow firstCol) (grid s) (grid s1)"
       "countCells isMine (grid s1) = countCells isMine (grid s) + mineCount s"
       "besidesGrid s' = besidesGrid s1" "cellsRel numbersOnly (grid s1) (grid s')"
    by metis
  have mc: "mineCount s' = mineCount s"
    using besidesGrid_fields(3)[OF p(4)] besidesMines_fields(3)[OF p(1)] by simp
  have cnt: "countCells isMine (grid s') = countCells isMine (grid s1)"
    using p(5) by (rule countCells_cellsRel) (rule numbersOnlyD(1))
  have safe: "\<forall>r c cl. cellAt (grid s') r c = Some cl \<and> \<bar>r - firstRow\<bar> \<le> 1 \<and> \<bar>c - firstCol\<bar> \<le> 1
            \<longrightarrow> \<not> isMine cl"
  proof (intro allI impI)
    fix r c cl
    assume a: "cellAt (grid s') r c = Some cl \<and> \<bar>r - firstRow\<bar> \<le> 1 \<and> \<bar>c - firstCol\<bar> \<le> 1"
    have rel: "cellsRel (minesOnly firstRow firstCol) (grid s) (grid s1)" by (rule p(2))
    from a cellsRel_None[OF p(5), of r c] obtain cl1 where cl1: "cellAt (grid s1) r c = Some cl1"
      by (cases "cellAt (grid s1) r c") auto
    from cl1 cellsRel_None[OF rel, of r c] obtain cl0 where cl0: "cellAt (grid s) r c = Some cl0"
      by (cases "cellAt (grid s) r c") auto
    from cellsRelD[OF rel cl0] cl1 a have "cl1 = cl0" by (auto simp: minesOnly_def)
    with countCells_zero[OF assms(3) cl0] have "\<not> isMine cl1" by simp
    with cellsRelD[OF p(5) cl1] a numbersOnlyD(1) show "\<not> isMine cl" by auto
  qed
  from safe cnt p(3) assms(3) mc show ?thesis by simp
qed

theorem placeMines_first_click_safe_witness:
  "placeMines demoStart 0 0 = Inr demoPlaced \<and> wfGame demoStart \<and>
   countCells isMine (grid demoStart) = 0 \<and>
   map_option isMine (cellAt (grid demoPlaced) 0 0) = Some False \<and>
   map_option isMine (cellAt (grid demoPlaced) 0 1) = Some False \<and>
   countCells isMine (grid demoPlaced) = 2"
proof -
  have w: "wfGame demoStart" unfolding demoStart_def by (rule wfGame_initGame)
  have z: "countCells isMine (grid demoStart) = 0"
    by (simp add: demoStart_def initGame_def createGrid_def countCells_def)
  have m: "mineCount demoPlaced = 2" by (simp add: demoPlaced_def)
  obtain a b where c0: "cellAt (grid demoPlaced) 0 0 = Some a" "cellAt (grid demoPlaced) 0 1 = Some b"
    by (simp add: demoPlaced_def cellAt_def)
  note t = placeMines_first_click_safe[OF demoPlaced_reached w z]
  from t have safe: "\<And>r c cl. cellAt (grid demoPlaced) r c = Some cl \<and> \<bar>r - 0\<bar> \<le> 1 \<and> \<bar>c - 0\<bar> \<le> 1
     \<Longrightarrow> \<not> isMine cl"
    by blast
  have "\<not> isMine a" using c0(1) by (intro safe[of 0 0 a]) simp
  moreover have "\<not> isMine b" using c0(2) by (intro safe[of 0 1 b]) simp
  moreover from t m have "countCells isMine (grid demoPlaced) = 2" by simp
  ultimately show ?thesis using c0 demoPlaced_reached w z by simp
qed

text \<open>
  C3. After \<^verbatim>\<open>placeMines\<close> (the placement followed by \<^verbatim>\<open>calculateNumbers\<close>), the
  field \<open>neighborMines\<close> of every cell that is not a mine is the number of mines among the
  cells of the grid next to it: those at distance 1 in the maximum norm, eight of them
  inside the grid and fewer on its border.
\<close>

theorem placeMines_numbers_exact:
  assumes "placeMines s firstRow firstCol = Inr s'" and "wfGame s"
  shows "\<forall>r c cl. cellAt (grid s') r c = Some cl \<and> \<not> isMine cl \<longrightarrow>
           neighborMines cl = card {q. adjacent (r, c) q \<and> inBounds s' q \<and> mineAt (grid s') q}"
proof -
  from placeMines_parts[OF assms] obtain s1 where
    "calculateNumbers s1 = Inr s'" "wfGame s1" by metis
  from calculateNumbers_cellsRel(4)[OF this(2,1)] show ?thesis
    by (simp add: adjacentMines_def)
qed

theorem placeMines_numbers_exact_witness:
  "placeMines demoStart 0 0 = Inr demoPlaced \<and> wfGame demoStart \<and>
   cellAt (grid demoPlaced) 0 4 =
     Some \<lparr>isMine = False, isRevealed = False, isFlagged = False, neighborMines = 2\<rparr> \<and>
   card {q. adjacent (0, 4) q \<and> inBounds demoPlaced q \<and> mineAt (grid demoPlaced) q} = 2"
proof -
  have w: "wfGame demoStart" unfolding demoStart_def by (rule wfGame_initGame)
  have c: "cellAt (grid demoPlaced) 0 4 =
     Some \<lparr>isMine = False, isRevealed = False, isFlagged = False, neighborMines = 2\<rparr>"
    by (simp add: demoPlaced_def cellAt_def)
  from placeMines_numbers_exact[OF demoPlaced_reached w, rule_format,
      of 0 4 "\<lparr>isMine = False, isRevealed = False, isFlagged = False, neighborMines = 2\<rparr>"] c
  have "card {q. adjacent (0, 4) q \<and> inBounds demoPlaced q \<and> mineAt (grid demoPlaced) q} = 2"
    by simp
  with c demoPlaced_reached w show ?thesis by simp
qed

section \<open>What the flood fill reveals\<close>

lemma wfGame_inBounds:
  "wfGame s \<Longrightarrow> (cellAt (grid s) (fst p) (snd p) \<noteq> None) = inBounds s p"
  using wfGame_cellAt[of s "fst p" "snd p"] by (simp add: inBounds_def)

lemma revealCell_wf_induct:
  assumes wf: "wfGame s0"
    and outside: "\<And>s row col. wfGame s \<Longrightarrow> \<not> inBounds s (row, col) \<Longrightarrow> P s row col s"
    and closed: "\<And>s row col cl. wfGame s \<Longrightarrow> inBounds s (row, col) \<Longrightarrow>
        cellAt (grid s) row col = Some cl \<Longrightarrow> isRevealed cl \<or> isFlagged cl \<Longrightarrow> P s row col s"
    and number: "\<And>s row col cl. wfGame s \<Longrightarrow> inBounds s (row, col) \<Longrightarrow>
        cellAt (grid s) row col = Some cl \<Longrightarrow> \<not> isRevealed cl \<Longrightarrow> \<not> isFlagged cl \<Longrightarrow>
        neighborMines cl \<noteq> 0 \<Longrightarrow> P s row col (markRevealed s row col cl)"
    and zero: "\<And>s row col cl s'. wfGame s \<Longrightarrow> inBounds s (row, col) \<Longrightarrow>
        cellAt (grid s) row col = Some cl \<Longrightarrow> \<not> isRevealed cl \<Longrightarrow> \<not> isFlagged cl \<Longrightarrow>
        neighborMines cl = 0 \<Longrightarrow> onlyReveals s (markRevealed s row col cl) \<Longrightarrow>
        wfGame (markRevealed s row col cl) \<Longrightarrow>
        revealCell_loop (markRevealed s row col cl) row col offsets = Inr s' \<Longrightarrow>
        onlyReveals (markRevealed s row col cl) s' \<Longrightarrow>
        Q (markRevealed s row col cl) row col offsets s' \<Longrightarrow> P s row col s'"
    and nil: "\<And>s row col. wfGame s \<Longrightarrow> Q s row col [] s"
    and cons: "\<And>s row col dr dc ds s1 s'. wfGame s \<Longrightarrow>
        revealCell s (row + dr) (col + dc) = Inr s1 \<Longrightarrow> onlyReveals s s1 \<Longrightarrow> wfGame s1 \<Longrightarrow>
        P s (row + dr) (col + dc) s1 \<Longrightarrow>
        revealCell_loop s1 row col ds = Inr s' \<Longrightarrow> onlyReveals s1 s' \<Longrightarrow>
        Q s1 row col ds s' \<Longrightarrow> Q s row col ((dr, dc) # ds) s'"
  shows "(\<forall>row0 col0 s0'. revealCell s0 row0 col0 = Inr s0' \<longrightarrow> P s0 row0 col0 s0') \<and>
         (\<forall>row0 col0 ds0 s0'. revealCell_loop s0 row0 col0 ds0 = Inr s0' \<longrightarrow> Q s0 row0 col0 ds0 s0')"
proof -
  have "wfGame s0 \<longrightarrow> (\<forall>s'. revealCell s0 row0 col0 = Inr s' \<longrightarrow> P s0 row0 col0 s')"
    and "wfGame s0 \<longrightarrow> (\<forall>s'. revealCell_loop s0 row0 col0 ds0 = Inr s' \<longrightarrow> Q s0 row0 col0 ds0 s')"
    for row0 col0 ds0
  proof (induction s0 row0 col0 and s0 row0 col0 ds0 rule: revealCell_revealCell_loop.induct)
    case (1 s row col)
    show ?case
    proof (intro impI allI)
      fix s'
      assume w: "wfGame s" and r: "revealCell s row col = Inr s'"
      show "P s row col s'"
      proof (cases "row < 0 \<or> int (rows s) \<le> row \<or> col < 0 \<or> int (cols s) \<le> col")
        case True
        then have "\<not> inBounds s (row, col)" by (auto simp: inBounds_def)
        with True r outside[OF w] show ?thesis by (simp add: revealCell_outside)
      next
        case inb: False
        then have ib: "inBounds s (row, col)" by (auto simp: inBounds_def)
        with wfGame_cellAt[OF w, of row col] inb obtain cl where cl: "cellAt (grid s) row col = Some cl"
          by auto
        show ?thesis
        proof (cases "isRevealed cl \<or> isFlagged cl")
          case True
          with r closed[OF w ib cl] inb cl show ?thesis by (simp add: revealCell_closed)
        next
          case False
          define s1 where "s1 = s\<lparr>grid := setCell (grid s) row col (cl\<lparr>isRevealed := True\<rparr>),
                      revealedCount := revealedCount s + 1\<rparr>"
          have s1: "s1 = markRevealed s row col cl" by (simp add: s1_def markRevealed_def)
          have o1: "onlyReveals s s1" unfolding s1 using cl False by (rule onlyReveals_markRevealed)
          have w1: "wfGame s1" using o1 w by (rule onlyReveals_wfGame)
          show ?thesis
          proof (cases "neighborMines cl = 0")
            case True
            with r have l: "revealCell_loop s1 row col offsets = Inr s'"
              unfolding revealCell_open[OF inb cl False] s1 by simp
            from 1[OF inb cl False s1_def True] w1 l have q: "Q s1 row col offsets s'" by blast
            from revealCell_onlyReveals(2)[OF w1, of row col offsets] l have o2: "onlyReveals s1 s'"
              by auto
            from zero[OF w ib cl _ _ True o1[unfolded s1] w1[unfolded s1] l[unfolded s1] o2[unfolded s1] q[unfolded s1]] False
            show ?thesis by simp
          next
            case nz: False
            with r have "s' = markRevealed s row col cl"
              unfolding revealCell_open[OF inb cl False] by simp
            with number[OF w ib cl _ _ nz] False show ?thesis by simp
          qed
        qed
      qed
    qed
  next
    case (2 s row col)
    then show ?case using nil by simp
  next
    case (3 s row col dr dc ds)
    show ?case
    proof (intro impI allI)
      fix s'
      assume w: "wfGame s" and r: "revealCell_loop s row col ((dr, dc) # ds) = Inr s'"
      from revealCell_onlyReveals(1)[OF w, of "row + dr" "col + dc"] obtain s1 where
        s1: "revealCell s (row + dr) (col + dc) = Inr s1" and o1: "onlyReveals s s1" by blast
      have w1: "wfGame s1" using o1 w by (rule onlyReveals_wfGame)
      from r s1 have l: "revealCell_loop s1 row col ds = Inr s'" by simp
      from revealCell_onlyReveals(2)[OF w1, of row col ds] l have o2: "onlyReveals s1 s'" by auto
      from 3(1) w s1 have p: "P s (row + dr) (col + dc) s1" by blast
      from 3(2)[OF s1] w1 l have q: "Q s1 row col ds s'" by blast
      from cons[OF w s1 o1 w1 p l o2 q] show "Q s row col ((dr, dc) # ds) s'" .
    qed
  qed
  then have "\<And>row0 col0 s0'. revealCell s0 row0 col0 = Inr s0' \<Longrightarrow> P s0 row0 col0 s0'"
    and "\<And>row0 col0 ds0 s0'. revealCell_loop s0 row0 col0 ds0 = Inr s0' \<Longrightarrow> Q s0 row0 col0 ds0 s0'"
    using wf by blast+
  then show ?thesis by blast
qed

lemma grows_cases:
  assumes "grows g g'"
  obtains (none) "cellAt g (fst p) (snd p) = None" "cellAt g' (fst p) (snd p) = None"
  | (same) cl where "cellAt g (fst p) (snd p) = Some cl" "cellAt g' (fst p) (snd p) = Some cl"
  | (revealed) cl where "cellAt g (fst p) (snd p) = Some cl" "\<not> isRevealed cl" "\<not> isFlagged cl"
      "cellAt g' (fst p) (snd p) = Some (cl\<lparr>isRevealed := True\<rparr>)"
proof (cases "cellAt g (fst p) (snd p)")
  case None
  have a: "map length g' = map length g" using assms by (rule grows_shape)
  then have l: "length g' = length g" by (metis length_map)
  have "\<And>i. i < length g \<Longrightarrow> length (g' ! i) = length (g ! i)"
    using a l by (metis nth_map)
  with l None have "cellAt g' (fst p) (snd p) = None" by (auto simp: cellAt_def split: if_splits)
  with None show ?thesis by (rule none)
next
  case (Some cl)
  from growsD[OF assms Some] Some same revealed show ?thesis by blast
qed

lemma grows_revealedAt: "grows g g' \<Longrightarrow> revealedAt g p \<Longrightarrow> revealedAt g' p"
  by (erule grows_cases[of g g' p]) (auto simp: revealedAt_def)

lemma grows_flaggedAt: "grows g g' \<Longrightarrow> flaggedAt g' p = flaggedAt g p"
  by (erule grows_cases[of g g' p]) (auto simp: flaggedAt_def)

lemma grows_zeroAt: "grows g g' \<Longrightarrow> zeroAt g' p = zeroAt g p"
  by (erule grows_cases[of g g' p]) (auto simp: zeroAt_def)

lemma grows_openAt: "grows g g' \<Longrightarrow> openAt g' p \<Longrightarrow> openAt g p"
  by (erule grows_cases[of g g' p]) (auto simp: openAt_def)

lemma grows_still_open: "grows g g' \<Longrightarrow> openAt g p \<Longrightarrow> \<not> revealedAt g' p \<Longrightarrow> openAt g' p"
  by (erule grows_cases[of g g' p]) (auto simp: openAt_def revealedAt_def)

lemma grows_revealedAt_cases:
  "grows g g' \<Longrightarrow> revealedAt g' p \<Longrightarrow> revealedAt g p \<or> openAt g p"
  by (erule grows_cases[of g g' p]) (auto simp: openAt_def revealedAt_def)

lemma open_not_revealed: "openAt g p \<Longrightarrow> \<not> revealedAt g p \<and> \<not> flaggedAt g p"
  by (auto simp: openAt_def revealedAt_def flaggedAt_def split: option.splits)

lemma newly_trans:
  assumes "grows g g'" and "grows g' g''"
  shows "newly g g'' = newly g g' \<union> newly g' g''" and "newly g g' \<inter> newly g' g'' = {}"
proof -
  show "newly g g'' = newly g g' \<union> newly g' g''"
    unfolding newly_def
    using grows_revealedAt[OF assms(2)] grows_openAt[OF assms(1)] grows_still_open[OF assms(1)]
    by blast
  show "newly g g' \<inter> newly g' g'' = {}"
    unfolding newly_def using open_not_revealed[of g'] by blast
qed

lemma newly_refl: "newly g g = {}"
  unfolding newly_def using open_not_revealed[of g] by blast

lemma newly_markRevealed:
  assumes "cellAt (grid s) row col = Some cl" and "\<not> isRevealed cl" and "\<not> isFlagged cl"
  shows "newly (grid s) (grid (markRevealed s row col cl)) = {(row, col)}"
proof -
  have g: "grid (markRevealed s row col cl) = setCell (grid s) row col (cl\<lparr>isRevealed := True\<rparr>)"
    by (simp add: markRevealed_def)
  have "\<And>p. (openAt (grid s) p \<and> revealedAt (setCell (grid s) row col (cl\<lparr>isRevealed := True\<rparr>)) p)
            = (p = (row, col))"
    using assms
    by (auto simp: openAt_def revealedAt_def cellAt_setCell[OF assms(1)] split: option.splits if_splits)
  then show ?thesis unfolding newly_def g by auto
qed

lemma finite_newly: "finite (newly g g')"
proof -
  define m where "m = Max (insert 0 (set (map length g)))"
  have "newly g g' \<subseteq> {0..<int (length g)} \<times> {0..<int m}"
  proof
    fix p assume "p \<in> newly g g'"
    then obtain cl where "cellAt g (fst p) (snd p) = Some cl"
      by (auto simp: newly_def openAt_def split: option.splits)
    from cellAt_SomeD[OF this] have r: "0 \<le> fst p" "nat (fst p) < length g"
      and c: "0 \<le> snd p" "nat (snd p) < length (g ! nat (fst p))" by auto
    from r have "length (g ! nat (fst p)) \<in> set (map length g)" by simp
    then have "length (g ! nat (fst p)) \<le> m" unfolding m_def by (intro Max_ge) auto
    with r c have "fst p \<in> {0..<int (length g)}" "snd p \<in> {0..<int m}" by auto
    then show "p \<in> {0..<int (length g)} \<times> {0..<int m}" by (cases p) auto
  qed
  then show ?thesis by (rule finite_subset) simp
qed

lemma onlyReveals_grows: "onlyReveals s s' \<Longrightarrow> grows (grid s) (grid s')"
  by (simp add: onlyReveals_def)

lemma onlyReveals_inBounds: "onlyReveals s s' \<Longrightarrow> inBounds s' p = inBounds s p"
  using besidesReveal_rows[of s' s] by (simp add: onlyReveals_def inBounds_def)

lemma onlyReveals_count: 
  "onlyReveals s s' \<Longrightarrow> revealedCount s' + unrevealed (grid s') = revealedCount s + unrevealed (grid s)"
  by (simp add: onlyReveals_def)

lemma markRevealed_revealedAt:
  "cellAt (grid s) row col = Some cl \<Longrightarrow> revealedAt (grid (markRevealed s row col cl)) (row, col)"
  by (simp add: markRevealed_def revealedAt_def cellAt_setCell)

lemma flood_covers_both:
  assumes "wfGame s0"
  shows "(\<forall>row col s'. revealCell s0 row col = Inr s' \<longrightarrow>
            (inBounds s0 (row, col) \<longrightarrow> revealedAt (grid s') (row, col) \<or> flaggedAt (grid s') (row, col))) \<and>
         (\<forall>row col ds s'. revealCell_loop s0 row col ds = Inr s' \<longrightarrow>
            (\<forall>d \<in> set ds. inBounds s0 (row + fst d, col + snd d) \<longrightarrow>
              revealedAt (grid s') (row + fst d, col + snd d) \<or>
              flaggedAt (grid s') (row + fst d, col + snd d)))"
proof (rule revealCell_wf_induct[where
      P = "\<lambda>s row col s'. inBounds s (row, col) \<longrightarrow> revealedAt (grid s') (row, col) \<or> flaggedAt (grid s') (row, col)" and
      Q = "\<lambda>s row col ds s'. \<forall>d \<in> set ds. inBounds s (row + fst d, col + snd d) \<longrightarrow>
              revealedAt (grid s') (row + fst d, col + snd d) \<or>
              flaggedAt (grid s') (row + fst d, col + snd d)",
      OF assms], goal_cases)
  case (1 s row col)
  then show ?case by simp
next
  case (2 s row col cl)
  then show ?case by (auto simp: revealedAt_def flaggedAt_def)
next
  case (3 s row col cl)
  then show ?case by (simp add: markRevealed_revealedAt)
next
  case (4 s row col cl s')
  from markRevealed_revealedAt[OF 4(3)] grows_revealedAt[OF onlyReveals_grows[OF 4(10)]]
  show ?case by blast
next
  case (5 s row col)
  then show ?case by simp
next
  case (6 s row col dr dc ds s1 s')
  note g2 = onlyReveals_grows[OF 6(7)]
  show ?case
  proof
    fix d assume d: "d \<in> set ((dr, dc) # ds)"
    show "inBounds s (row + fst d, col + snd d) \<longrightarrow>
          revealedAt (grid s') (row + fst d, col + snd d) \<or> flaggedAt (grid s') (row + fst d, col + snd d)"
    proof (cases "d = (dr, dc)")
      case True
      with 6(5) grows_revealedAt[OF g2] grows_flaggedAt[OF g2] show ?thesis by auto
    next
      case False
      with d have "d \<in> set ds" by simp
      with 6(8) onlyReveals_inBounds[OF 6(3)] show ?thesis by blast
    qed
  qed
qed

lemma flood_covers:
  assumes "wfGame s"
  shows "revealCell s row col = Inr s' \<Longrightarrow>
           inBounds s (row, col) \<longrightarrow> revealedAt (grid s') (row, col) \<or> flaggedAt (grid s') (row, col)"
    and "revealCell_loop s row col ds = Inr s' \<Longrightarrow>
           \<forall>d \<in> set ds. inBounds s (row + fst d, col + snd d) \<longrightarrow>
              revealedAt (grid s') (row + fst d, col + snd d) \<or>
              flaggedAt (grid s') (row + fst d, col + snd d)"
  using flood_covers_both[OF assms] by blast+

lemma adjacent_offsetD:
  "adjacent (row, col) q \<Longrightarrow> \<exists>d \<in> set offsets. q = (row + fst d, col + snd d)"
  unfolding adjacent_offsets by (rule bexI[of _ "(fst q - row, snd q - col)"]) auto

lemma offset_adjacent: "d \<in> set offsets \<Longrightarrow> adjacent (row, col) (row + fst d, col + snd d)"
  unfolding adjacent_offsets by simp

lemma flood_closed_both:
  assumes "wfGame s0"
  shows "(\<forall>row col s'. revealCell s0 row col = Inr s' \<longrightarrow>
            (\<forall>p \<in> newly (grid s0) (grid s'). zeroAt (grid s0) p \<longrightarrow>
              (\<forall>q. adjacent p q \<and> inBounds s0 q \<longrightarrow> revealedAt (grid s') q \<or> flaggedAt (grid s') q))) \<and>
         (\<forall>row col ds s'. revealCell_loop s0 row col ds = Inr s' \<longrightarrow>
            (\<forall>p \<in> newly (grid s0) (grid s'). zeroAt (grid s0) p \<longrightarrow>
              (\<forall>q. adjacent p q \<and> inBounds s0 q \<longrightarrow> revealedAt (grid s') q \<or> flaggedAt (grid s') q)))"
proof (rule revealCell_wf_induct[where
      P = "\<lambda>s row col s'. \<forall>p \<in> newly (grid s) (grid s'). zeroAt (grid s) p \<longrightarrow>
              (\<forall>q. adjacent p q \<and> inBounds s q \<longrightarrow> revealedAt (grid s') q \<or> flaggedAt (grid s') q)" and
      Q = "\<lambda>s row col ds s'. \<forall>p \<in> newly (grid s) (grid s'). zeroAt (grid s) p \<longrightarrow>
              (\<forall>q. adjacent p q \<and> inBounds s q \<longrightarrow> revealedAt (grid s') q \<or> flaggedAt (grid s') q)",
      OF assms], goal_cases)
  case (1 s row col)
  then show ?case by (simp add: newly_refl)
next
  case (2 s row col cl)
  then show ?case by (simp add: newly_refl)
next
  case (3 s row col cl)
  then show ?case by (simp add: newly_markRevealed zeroAt_def)
next
  case (4 s row col cl s')
  let ?s1 = "markRevealed s row col cl"
  note g1 = onlyReveals_grows[OF 4(7)] and g2 = onlyReveals_grows[OF 4(10)]
  have n: "newly (grid s) (grid s') = {(row, col)} \<union> newly (grid ?s1) (grid s')"
    using newly_trans(1)[OF g1 g2] newly_markRevealed[OF 4(3,4,5)] by simp
  have here: "\<forall>q. adjacent (row, col) q \<and> inBounds s q \<longrightarrow>
                revealedAt (grid s') q \<or> flaggedAt (grid s') q"
  proof (intro allI impI)
    fix q assume q: "adjacent (row, col) q \<and> inBounds s q"
    then obtain d where d: "d \<in> set offsets" "q = (row + fst d, col + snd d)"
      using adjacent_offsetD by blast
    from flood_covers(2)[OF 4(8,9)] d q onlyReveals_inBounds[OF 4(7)]
    show "revealedAt (grid s') q \<or> flaggedAt (grid s') q" by blast
  qed
  show ?case
    unfolding n using here 4(11) grows_zeroAt[OF g1] onlyReveals_inBounds[OF 4(7)]
    by auto
next
  case (5 s row col)
  then show ?case by (simp add: newly_refl)
next
  case (6 s row col dr dc ds s1 s')
  note g1 = onlyReveals_grows[OF 6(3)] and g2 = onlyReveals_grows[OF 6(7)]
  have n: "newly (grid s) (grid s') = newly (grid s) (grid s1) \<union> newly (grid s1) (grid s')"
    using newly_trans(1)[OF g1 g2] .
  show ?case
    unfolding n
    using 6(5) 6(8) grows_zeroAt[OF g1] onlyReveals_inBounds[OF 6(3)]
      grows_revealedAt[OF g2] grows_flaggedAt[OF g2]
    by (metis Un_iff)
qed

lemma flood_closed:
  assumes "wfGame s"
  shows "revealCell s row col = Inr s' \<Longrightarrow>
           \<forall>p \<in> newly (grid s) (grid s'). zeroAt (grid s) p \<longrightarrow>
              (\<forall>q. adjacent p q \<and> inBounds s q \<longrightarrow> revealedAt (grid s') q \<or> flaggedAt (grid s') q)"
    and "revealCell_loop s row col ds = Inr s' \<Longrightarrow>
           \<forall>p \<in> newly (grid s) (grid s'). zeroAt (grid s) p \<longrightarrow>
              (\<forall>q. adjacent p q \<and> inBounds s q \<longrightarrow> revealedAt (grid s') q \<or> flaggedAt (grid s') q)"
  using flood_closed_both[OF assms] by blast+

lemma fillReach_mono:
  assumes "grows g g'" and "fillReach g' a p"
  shows "fillReach g a p"
  using assms(2)
proof (induction rule: fillReach.induct)
  case fillReach_start
  then have "openAt g a" by (rule grows_openAt[OF assms(1)])
  then show ?case by (rule fillReach.intros(1))
next
  case (fillReach_step p q)
  have o: "openAt g q" using fillReach_step(4) by (rule grows_openAt[OF assms(1)])
  have z: "zeroAt g p" using fillReach_step(2) by (simp add: grows_zeroAt[OF assms(1)])
  from fillReach_step(5) z fillReach_step(3) o show ?case by (rule fillReach.intros(2))
qed

lemma fillReach_prepend:
  assumes "openAt g a" and "zeroAt g a" and "adjacent a n" and "fillReach g n p"
  shows "fillReach g a p"
  using assms(4)
proof (induction rule: fillReach.induct)
  case fillReach_start
  from fillReach.fillReach_start[OF assms(1)] assms(2,3) fillReach_start
  show ?case by (rule fillReach.fillReach_step)
next
  case (fillReach_step p q)
  then show ?case by (auto intro: fillReach.fillReach_step)
qed

lemma markRevealed_open:
  "cellAt (grid s) row col = Some cl \<Longrightarrow> \<not> isRevealed cl \<Longrightarrow> \<not> isFlagged cl \<Longrightarrow>
   openAt (grid s) (row, col)"
  by (simp add: openAt_def)

lemma flood_sound_both:
  assumes "wfGame s0"
  shows "(\<forall>row col s'. revealCell s0 row col = Inr s' \<longrightarrow>
            (\<forall>p \<in> newly (grid s0) (grid s'). fillReach (grid s0) (row, col) p)) \<and>
         (\<forall>row col ds s'. revealCell_loop s0 row col ds = Inr s' \<longrightarrow>
            (\<forall>p \<in> newly (grid s0) (grid s').
              \<exists>d \<in> set ds. fillReach (grid s0) (row + fst d, col + snd d) p))"
proof (rule revealCell_wf_induct[where
      P = "\<lambda>s row col s'. \<forall>p \<in> newly (grid s) (grid s'). fillReach (grid s) (row, col) p" and
      Q = "\<lambda>s row col ds s'. \<forall>p \<in> newly (grid s) (grid s').
              \<exists>d \<in> set ds. fillReach (grid s) (row + fst d, col + snd d) p",
      OF assms], goal_cases)
  case (1 s row col)
  then show ?case by (simp add: newly_refl)
next
  case (2 s row col cl)
  then show ?case by (simp add: newly_refl)
next
  case (3 s row col cl)
  then show ?case
    by (simp add: newly_markRevealed fillReach_start markRevealed_open)
next
  case (4 s row col cl s')
  let ?s1 = "markRevealed s row col cl"
  note g1 = onlyReveals_grows[OF 4(7)] and g2 = onlyReveals_grows[OF 4(10)]
  have n: "newly (grid s) (grid s') = {(row, col)} \<union> newly (grid ?s1) (grid s')"
    using newly_trans(1)[OF g1 g2] newly_markRevealed[OF 4(3,4,5)] by simp
  have op: "openAt (grid s) (row, col)" using 4(3,4,5) by (rule markRevealed_open)
  have z: "zeroAt (grid s) (row, col)" using 4(3,6) by (simp add: zeroAt_def)
  have "\<And>p. p \<in> newly (grid ?s1) (grid s') \<Longrightarrow> fillReach (grid s) (row, col) p"
  proof -
    fix p assume "p \<in> newly (grid ?s1) (grid s')"
    with 4(11) obtain d where d: "d \<in> set offsets"
      "fillReach (grid ?s1) (row + fst d, col + snd d) p" by blast
    from fillReach_mono[OF g1 d(2)] have "fillReach (grid s) (row + fst d, col + snd d) p" .
    with op z offset_adjacent[OF d(1), of row col] show "fillReach (grid s) (row, col) p"
      by (rule fillReach_prepend)
  qed
  with op show ?case unfolding n by (auto intro: fillReach_start)
next
  case (5 s row col)
  then show ?case by (simp add: newly_refl)
next
  case (6 s row col dr dc ds s1 s')
  note g1 = onlyReveals_grows[OF 6(3)] and g2 = onlyReveals_grows[OF 6(7)]
  have n: "newly (grid s) (grid s') = newly (grid s) (grid s1) \<union> newly (grid s1) (grid s')"
    using newly_trans(1)[OF g1 g2] .
  show ?case
  proof
    fix p assume "p \<in> newly (grid s) (grid s')"
    then consider "p \<in> newly (grid s) (grid s1)" | "p \<in> newly (grid s1) (grid s')"
      unfolding n by blast
    then show "\<exists>d \<in> set ((dr, dc) # ds). fillReach (grid s) (row + fst d, col + snd d) p"
    proof cases
      case 1
      with 6(5) show ?thesis by auto
    next
      case 2
      with 6(8) obtain d where d: "d \<in> set ds" "fillReach (grid s1) (row + fst d, col + snd d) p"
        by blast
      from fillReach_mono[OF g1 d(2)] d(1) show ?thesis by (intro bexI[of _ d]) simp_all
    qed
  qed
qed

lemma flood_sound:
  assumes "wfGame s"
  shows "revealCell s row col = Inr s' \<Longrightarrow>
           \<forall>p \<in> newly (grid s) (grid s'). fillReach (grid s) (row, col) p"
    and "revealCell_loop s row col ds = Inr s' \<Longrightarrow>
           \<forall>p \<in> newly (grid s) (grid s').
              \<exists>d \<in> set ds. fillReach (grid s) (row + fst d, col + snd d) p"
  using flood_sound_both[OF assms] by blast+

lemma markRevealed_count: "revealedCount (markRevealed s row col cl) = revealedCount s + 1"
  by (simp add: markRevealed_def)

lemma flood_count_both:
  assumes "wfGame s0"
  shows "(\<forall>row col s'. revealCell s0 row col = Inr s' \<longrightarrow>
            (revealedCount s' = revealedCount s0 + card (newly (grid s0) (grid s')))) \<and>
         (\<forall>row col ds s'. revealCell_loop s0 row col ds = Inr s' \<longrightarrow>
            (revealedCount s' = revealedCount s0 + card (newly (grid s0) (grid s'))))"
proof (rule revealCell_wf_induct[where
      P = "\<lambda>s row col s'. revealedCount s' = revealedCount s + card (newly (grid s) (grid s'))" and
      Q = "\<lambda>s row col ds s'. revealedCount s' = revealedCount s + card (newly (grid s) (grid s'))",
      OF assms], goal_cases)
  case (1 s row col)
  then show ?case by (simp add: newly_refl)
next
  case (2 s row col cl)
  then show ?case by (simp add: newly_refl)
next
  case (3 s row col cl)
  then show ?case by (simp add: newly_markRevealed markRevealed_count)
next
  case (4 s row col cl s')
  let ?s1 = "markRevealed s row col cl"
  note g1 = onlyReveals_grows[OF 4(7)] and g2 = onlyReveals_grows[OF 4(10)]
  have "card (newly (grid s) (grid s')) =
        card (newly (grid s) (grid ?s1)) + card (newly (grid ?s1) (grid s'))"
    unfolding newly_trans(1)[OF g1 g2]
    using newly_trans(2)[OF g1 g2] by (intro card_Un_disjoint finite_newly)
  with 4(11) show ?case by (simp add: newly_markRevealed[OF 4(3,4,5)] markRevealed_count)
next
  case (5 s row col)
  then show ?case by (simp add: newly_refl)
next
  case (6 s row col dr dc ds s1 s')
  note g1 = onlyReveals_grows[OF 6(3)] and g2 = onlyReveals_grows[OF 6(7)]
  have "card (newly (grid s) (grid s')) =
        card (newly (grid s) (grid s1)) + card (newly (grid s1) (grid s'))"
    unfolding newly_trans(1)[OF g1 g2]
    using newly_trans(2)[OF g1 g2] by (intro card_Un_disjoint finite_newly)
  with 6(5,8) show ?case by simp
qed

lemma flood_count:
  assumes "wfGame s"
  shows "revealCell s row col = Inr s' \<Longrightarrow>
           revealedCount s' = revealedCount s + card (newly (grid s) (grid s'))"
    and "revealCell_loop s row col ds = Inr s' \<Longrightarrow>
           revealedCount s' = revealedCount s + card (newly (grid s) (grid s'))"
  using flood_count_both[OF assms] by blast+

lemma flood_complete:
  assumes "wfGame s" and "revealCell s row col = Inr s'" and "fillReach (grid s) (row, col) p"
  shows "p \<in> newly (grid s) (grid s')"
  using assms(3)
proof (induction rule: fillReach.induct)
  case fillReach_start
  from revealCell_onlyReveals(1)[OF assms(1), of row col] assms(2)
  have g: "grows (grid s) (grid s')" by (auto simp: onlyReveals_def)
  from fillReach_start have "inBounds s (row, col)"
    using wfGame_inBounds[OF assms(1), of "(row, col)"] by (auto simp: openAt_def split: option.splits)
  with flood_covers(1)[OF assms(1,2)] have "revealedAt (grid s') (row, col) \<or> flaggedAt (grid s') (row, col)"
    by simp
  with fillReach_start grows_flaggedAt[OF g] open_not_revealed show ?case
    by (auto simp: newly_def)
next
  case (fillReach_step p q)
  from revealCell_onlyReveals(1)[OF assms(1), of row col] assms(2)
  have g: "grows (grid s) (grid s')" by (auto simp: onlyReveals_def)
  from fillReach_step(4) have "inBounds s q"
    using wfGame_inBounds[OF assms(1), of q] by (auto simp: openAt_def split: option.splits)
  with flood_closed(1)[OF assms(1,2)] fillReach_step(2,3,5)
  have "revealedAt (grid s') q \<or> flaggedAt (grid s') q" by blast
  with fillReach_step(4) grows_flaggedAt[OF g] open_not_revealed show ?case
    by (auto simp: newly_def)
qed

lemma flood_region:
  assumes "wfGame s" and "revealCell s row col = Inr s'"
  shows "newly (grid s) (grid s') = {p. fillReach (grid s) (row, col) p}"
  using flood_sound(1)[OF assms] flood_complete[OF assms] by blast

lemma flaggedStart_reached: "handleFlag demoStart 0 1 = Inr flaggedStart"
  by code_simp

lemma flaggedPlaced_reached: "placeMines flaggedStart 0 0 = Inr flaggedPlaced"
  by code_simp

lemma fillReach_not_open: "\<not> openAt g start \<Longrightarrow> \<not> fillReach g start p"
proof
  assume "\<not> openAt g start" and "fillReach g start p"
  from this(2) this(1) show False by (induction rule: fillReach.induct) auto
qed

lemma fillReach_open: "fillReach g start p \<Longrightarrow> openAt g p"
  by (induction rule: fillReach.induct) auto

lemma fillReach_unflagged:
  assumes "\<And>q. \<not> flaggedAt g q \<and> \<not> revealedAt g q"
  shows "fillReach g start p = zeroReach g start p"
proof -
  have o: "openAt g q = (cellAt g (fst q) (snd q) \<noteq> None)" for q
    using assms[of q] by (cases "cellAt g (fst q) (snd q)") (simp_all add: openAt_def flaggedAt_def revealedAt_def)
  have "fillReach g start p \<Longrightarrow> zeroReach g start p"
  proof (induction rule: fillReach.induct)
    case fillReach_start
    then show ?case unfolding o by (rule zeroReach.intros(1))
  next
    case (fillReach_step p q)
    from fillReach_step(5,2,3) fillReach_step(4)[unfolded o] show ?case
      by (rule zeroReach.intros(2))
  qed
  moreover have "zeroReach g start p \<Longrightarrow> fillReach g start p"
  proof (induction rule: zeroReach.induct)
    case zeroReach_start
    then show ?case unfolding o[symmetric] by (rule fillReach.intros(1))
  next
    case (zeroReach_step p q)
    from zeroReach_step(5,2,3) zeroReach_step(4)[unfolded o[symmetric]] show ?case
      by (rule fillReach.intros(2))
  qed
  ultimately show ?thesis by blast
qed

text \<open>
  C1, as the code has it. From any start, \<^verbatim>\<open>revealCell\<close> reveals exactly the cells that
  \<open>fillReach\<close> describes: the start, if it is a cell of the grid that is neither revealed
  nor flagged, and every cell reached from it by steps to an adjacent cell that is neither
  revealed nor flagged, each step leaving a cell whose \<open>neighborMines\<close> is 0. Each of these
  cells is revealed once (\<open>revealedCount\<close> grows by their number), no other cell changes,
  and nothing else of the state does. Flagged cells are not revealed and the fill does not
  pass through them; where no cell is flagged or revealed the region is the connected
  region of zero-count cells around the start with the cells bordering it
  (\<open>fillReach_unflagged\<close>).
\<close>

theorem revealCell_flood_region:
  assumes "wfGame s"
  shows "\<exists>s'. revealCell s row col = Inr s' \<and>
           (\<forall>r c. cellAt (grid s') r c =
              map_option (\<lambda>cl. if fillReach (grid s) (row, col) (r, c)
                                then cl\<lparr>isRevealed := True\<rparr> else cl)
                (cellAt (grid s) r c)) \<and>
           revealedCount s' = revealedCount s + card {p. fillReach (grid s) (row, col) p} \<and>
           besidesReveal s' = besidesReveal s"
proof -
  from revealCell_onlyReveals(1)[OF assms, of row col] obtain s' where
    r: "revealCell s row col = Inr s'" and o: "onlyReveals s s'" by blast
  note g = onlyReveals_grows[OF o]
  note reg = flood_region[OF assms r]
  have cells: "\<forall>r c. cellAt (grid s') r c =
              map_option (\<lambda>cl. if fillReach (grid s) (row, col) (r, c)
                                then cl\<lparr>isRevealed := True\<rparr> else cl)
                (cellAt (grid s) r c)"
  proof (intro allI)
    fix r c
    have m: "fillReach (grid s) (row, col) (r, c) = (openAt (grid s) (r, c) \<and> revealedAt (grid s') (r, c))"
      using reg by (auto simp: newly_def)
    from g show "cellAt (grid s') r c =
              map_option (\<lambda>cl. if fillReach (grid s) (row, col) (r, c)
                                then cl\<lparr>isRevealed := True\<rparr> else cl)
                (cellAt (grid s) r c)"
      unfolding m
      by (rule grows_cases[of _ _ "(r, c)"]) (auto simp: openAt_def revealedAt_def)
  qed
  have "revealedCount s' = revealedCount s + card {p. fillReach (grid s) (row, col) p}"
    using flood_count(1)[OF assms r] reg by simp
  with r cells o show ?thesis by (auto simp: onlyReveals_def)
qed

lemma wfGame_demoPlaced: "wfGame demoPlaced"
  by (simp add: wfGame_def demoPlaced_def)

theorem revealCell_flood_region_witness:
  "wfGame demoPlaced \<and>
   cellAfter (revealCell demoPlaced 0 0) 0 2 =
     Some \<lparr>isMine = False, isRevealed = True, isFlagged = False, neighborMines = 1\<rparr> \<and>
   cellAfter (revealCell demoPlaced 0 0) 0 4 =
     Some \<lparr>isMine = False, isRevealed = False, isFlagged = False, neighborMines = 2\<rparr> \<and>
   card {p. fillReach (grid demoPlaced) (0, 0) p} = 3"
proof -
  from revealCell_flood_region[OF wfGame_demoPlaced, of 0 0] obtain s' where
    r: "revealCell demoPlaced 0 0 = Inr s'"
    and n: "revealedCount s' = revealedCount demoPlaced + card {p. fillReach (grid demoPlaced) (0, 0) p}"
    by blast
  have v: "revealCell demoPlaced 0 0 = Inr (demoRunning\<lparr>gameStarted := False, timerRunning := False\<rparr>)"
    by code_simp
  with r have s': "s' = demoRunning\<lparr>gameStarted := False, timerRunning := False\<rparr>" by simp
  have "card {p. fillReach (grid demoPlaced) (0, 0) p} = 3"
    using n unfolding s' by (simp add: demoRunning_def demoPlaced_def)
  moreover have "cellAfter (revealCell demoPlaced 0 0) 0 2 =
     Some \<lparr>isMine = False, isRevealed = True, isFlagged = False, neighborMines = 1\<rparr>"
    unfolding v by (simp add: cellAfter_def demoRunning_def cellAt_def)
  moreover have "cellAfter (revealCell demoPlaced 0 0) 0 4 =
     Some \<lparr>isMine = False, isRevealed = False, isFlagged = False, neighborMines = 2\<rparr>"
    unfolding v by (simp add: cellAfter_def demoRunning_def cellAt_def)
  ultimately show ?thesis using wfGame_demoPlaced by simp
qed

text \<open>
  The claim as it is stated asks for the whole connected region of zero-count cells and its
  border. A flag placed before the first click stays through the placement and stops the
  fill: with the cell (0, 1) flagged, the click on (0, 0) reveals that cell only, although
  (0, 1) has no adjacent mine and (0, 2) borders it.
\<close>

theorem revealCell_flagged_counterexample:
  "handleFlag demoStart 0 1 = Inr flaggedStart \<and>
   placeMines flaggedStart 0 0 = Inr flaggedPlaced \<and>
   cellAt (grid flaggedPlaced) 0 0 =
     Some \<lparr>isMine = False, isRevealed = False, isFlagged = False, neighborMines = 0\<rparr> \<and>
   zeroReach (grid flaggedPlaced) (0, 0) (0, 1) \<and>
   zeroReach (grid flaggedPlaced) (0, 0) (0, 2) \<and>
   cellAfter (revealCell flaggedPlaced 0 0) 0 0 =
     Some \<lparr>isMine = False, isRevealed = True, isFlagged = False, neighborMines = 0\<rparr> \<and>
   cellAfter (revealCell flaggedPlaced 0 0) 0 1 =
     Some \<lparr>isMine = False, isRevealed = False, isFlagged = True, neighborMines = 0\<rparr> \<and>
   cellAfter (revealCell flaggedPlaced 0 0) 0 2 =
     Some \<lparr>isMine = False, isRevealed = False, isFlagged = False, neighborMines = 1\<rparr>"
proof -
  have z0: "zeroReach (grid flaggedPlaced) (0, 0) (0, 0)"
    by (rule zeroReach_start) (simp add: flaggedPlaced_def cellAt_def)
  have z1: "zeroReach (grid flaggedPlaced) (0, 0) (0, 1)"
    by (rule zeroReach_step[OF z0]) (simp_all add: flaggedPlaced_def cellAt_def zeroAt_def adjacent_def)
  have z2: "zeroReach (grid flaggedPlaced) (0, 0) (0, 2)"
    by (rule zeroReach_step[OF z1]) (simp_all add: flaggedPlaced_def cellAt_def zeroAt_def adjacent_def)
  have c0: "cellAt (grid flaggedPlaced) 0 0 =
     Some \<lparr>isMine = False, isRevealed = False, isFlagged = False, neighborMines = 0\<rparr>"
    by (simp add: flaggedPlaced_def cellAt_def)
  have a0: "cellAfter (revealCell flaggedPlaced 0 0) 0 0 =
     Some \<lparr>isMine = False, isRevealed = True, isFlagged = False, neighborMines = 0\<rparr>"
    by code_simp
  have a1: "cellAfter (revealCell flaggedPlaced 0 0) 0 1 =
     Some \<lparr>isMine = False, isRevealed = False, isFlagged = True, neighborMines = 0\<rparr>"
    by code_simp
  have a2: "cellAfter (revealCell flaggedPlaced 0 0) 0 2 =
     Some \<lparr>isMine = False, isRevealed = False, isFlagged = False, neighborMines = 1\<rparr>"
    by code_simp
  from flaggedStart_reached flaggedPlaced_reached c0 z1 z2 a0 a1 a2 show ?thesis by simp
qed

section \<open>The state machine\<close>

lemma noCell_cellsRel:
  assumes "cellsRel R g g'" and "noCell P g" and "\<And>r c x y. R r c x y \<Longrightarrow> P y \<Longrightarrow> P x"
  shows "noCell P g'"
  unfolding noCell_def
proof (intro allI impI)
  fix r c cl'
  assume c': "cellAt g' r c = Some cl'"
  with cellsRel_None[OF assms(1), of r c] obtain cl where cl: "cellAt g r c = Some cl"
    by (cases "cellAt g r c") auto
  from cellsRelD[OF assms(1) cl] c' have "R r c cl cl'" by auto
  with assms(2,3) cl show "\<not> P cl'" unfolding noCell_def by blast
qed

lemma noCell_countCells: "noCell P g \<Longrightarrow> countCells P g = 0"
proof -
  assume n: "noCell P g"
  have "\<And>row. row \<in> set g \<Longrightarrow> filter P row = []"
  proof -
    fix row assume "row \<in> set g"
    then obtain i where i: "i < length g" "row = g ! i" by (metis in_set_conv_nth)
    have "\<And>x. x \<in> set row \<Longrightarrow> \<not> P x"
    proof -
      fix x assume "x \<in> set row"
      then obtain j where j: "j < length row" "x = row ! j" by (metis in_set_conv_nth)
      with i have "cellAt g (int i) (int j) = Some x" by (simp add: cellAt_def)
      with n show "\<not> P x" unfolding noCell_def by blast
    qed
    then show "filter P row = []" by (simp add: filter_empty_conv)
  qed
  then show ?thesis by (simp add: countCells_def)
qed

lemma countCells_noCell: "countCells P g = 0 \<Longrightarrow> noCell P g"
  unfolding noCell_def using countCells_zero by blast

lemma countCells_split:
  "countCells (\<lambda>x. P x \<and> R x) g + countCells (\<lambda>x. P x \<and> \<not> R x) g = countCells P g"
proof -
  have row: "\<And>row. length (filter (\<lambda>x. P x \<and> R x) row) + length (filter (\<lambda>x. P x \<and> \<not> R x) row) =
                   length (filter P row)"
  proof -
    fix row :: "cell list"
    show "length (filter (\<lambda>x. P x \<and> R x) row) + length (filter (\<lambda>x. P x \<and> \<not> R x) row) =
                   length (filter P row)"
      by (induction row) auto
  qed
  show ?thesis unfolding countCells_def
  proof (induction g)
    case Nil
    then show ?case by simp
  next
    case (Cons a g)
    then show ?case using row[of a] by simp
  qed
qed

lemma numbersExact_cellsRel:
  assumes "numbersExact s" and "cellsRel R (grid s) (grid s')"
    and "rows s' = rows s" and "cols s' = cols s"
    and "\<And>r c x y. R r c x y \<Longrightarrow> isMine y = isMine x \<and> neighborMines y = neighborMines x"
  shows "numbersExact s'"
  unfolding numbersExact_def
proof (intro allI impI)
  fix r c cl'
  assume a: "cellAt (grid s') r c = Some cl' \<and> \<not> isMine cl'"
  with cellsRel_None[OF assms(2), of r c] obtain cl where cl: "cellAt (grid s) r c = Some cl"
    by (cases "cellAt (grid s) r c") auto
  from cellsRelD[OF assms(2) cl] a have rel: "R r c cl cl'" by auto
  have m: "\<And>p. mineAt (grid s') p = mineAt (grid s) p"
    using assms(2) by (rule mineAt_cellsRel) (simp add: assms(5))
  have "adjacentMines s' r c = adjacentMines s r c"
    using assms(3,4) m by (rule adjacentMines_cong)
  with assms(1) cl rel assms(5)[OF rel] a show "neighborMines cl' = adjacentMines s' r c"
    unfolding numbersExact_def by auto
qed

lemma wfGame_cellsRel:
  "wfGame s \<Longrightarrow> cellsRel R (grid s) (grid s') \<Longrightarrow> rows s' = rows s \<Longrightarrow> cols s' = cols s \<Longrightarrow>
   wfGame s'"
  using cellsRel_shape[of R "grid s" "grid s'"] by (simp add: wfGame_def)

lemma revealAllMines_loop_effect:
  assumes "wfGame s" and "\<forall>p \<in> set cs. inBounds s p"
  shows "\<exists>s'. revealAllMines_loop s cs = Inr s' \<and> besidesGrid s' = besidesGrid s \<and>
           cellsRel lossReveal (grid s) (grid s')"
  using assms
proof (induction cs arbitrary: s)
  case Nil
  then show ?case by (simp add: cellsRel_refl lossReveal_def)
next
  case (Cons p cs)
  obtain r c where p: "p = (r, c)" by (cases p)
  from Cons.prems(2) have inb: "inBounds s (r, c)" and rest: "\<forall>p \<in> set cs. inBounds s p"
    by (simp_all add: p)
  from inb wfGame_cellAt[OF Cons.prems(1), of r c] obtain cl where
    cl: "cellAt (grid s) r c = Some cl" by (auto simp: inBounds_def)
  show ?case
  proof (cases "isMine cl")
    case False
    with Cons.IH[OF Cons.prems(1) rest] cl show ?thesis by (simp add: p)
  next
    case True
    define s1 where "s1 = s\<lparr>grid := setCell (grid s) r c (cl\<lparr>isRevealed := True\<rparr>)\<rparr>"
    have step: "revealAllMines_loop s (p # cs) = revealAllMines_loop s1 cs"
      using cl True by (simp add: p s1_def)
    have b1: "besidesGrid s1 = besidesGrid s" by (simp add: s1_def besidesGrid_def)
    have rel1: "cellsRel lossReveal (grid s) (grid s1)"
      unfolding s1_def using True by (simp add: cellsRel_setCell[OF cl] lossReveal_def)
    have wf1: "wfGame s1"
      using Cons.prems(1) rel1 by (rule wfGame_cellsRel) (simp_all add: s1_def)
    have rest1: "\<forall>p \<in> set cs. inBounds s1 p" using rest by (simp add: inBounds_def s1_def)
    from Cons.IH[OF wf1 rest1] obtain s' where
      s': "revealAllMines_loop s1 cs = Inr s'" "besidesGrid s' = besidesGrid s1"
          "cellsRel lossReveal (grid s1) (grid s')" by blast
    have "cellsRel lossReveal (grid s) (grid s')"
      using rel1 s'(3) by (rule cellsRel_trans) (auto simp: lossReveal_def)
    with s' b1 step show ?thesis by simp
  qed
qed

lemma revealAllMines_effect:
  assumes "wfGame s"
  shows "\<exists>s'. revealAllMines s = Inr s' \<and> besidesGrid s' = besidesGrid s \<and>
           cellsRel lossReveal (grid s) (grid s')"
  unfolding revealAllMines_def
  using assms by (rule revealAllMines_loop_effect) (simp add: set_allCoords)

lemma coreInv_cong:
  assumes "grid s' = grid s" "rows s' = rows s" "cols s' = cols s"
    "revealedCount s' = revealedCount s" "gameOver s' = gameOver s" "gameStarted s' = gameStarted s"
    "face s' = face s" "timerRunning s' = timerRunning s"
  shows "coreInv s' = coreInv s"
  using assms
  by (simp add: coreInv_def wfGame_def numbersExact_def adjacentMines_def inBounds_def freshOk_def
      countOk_def cellsOk_def phaseOk_def)

lemma winOk_cong:
  assumes "rows s' = rows s" "cols s' = cols s" "mineCount s' = mineCount s"
    "revealedCount s' = revealedCount s" "gameStarted s' = gameStarted s" "face s' = face s"
  shows "winOk s' = winOk s"
  using assms by (simp add: winOk_def checkWin_def)

lemma gameInv_cong:
  assumes "grid s' = grid s" "rows s' = rows s" "cols s' = cols s" "mineCount s' = mineCount s"
    "revealedCount s' = revealedCount s" "gameOver s' = gameOver s" "gameStarted s' = gameStarted s"
    "face s' = face s" "timerRunning s' = timerRunning s"
  shows "gameInv s' = gameInv s"
  unfolding gameInv_def using coreInv_cong[of s' s] winOk_cong[of s' s] assms by simp

lemma cellAt_createGrid:
  "cellAt (grid (createGrid s)) r c = Some cl \<Longrightarrow>
   cl = \<lparr>isMine = False, isRevealed = False, isFlagged = False, neighborMines = 0\<rparr>"
  by (auto simp: createGrid_def cellAt_def split: if_splits)

lemma gameInv_initGame: "gameInv (initGame d s)"
proof -
  have g: "\<And>r c cl. cellAt (grid (initGame d s)) r c = Some cl \<Longrightarrow>
       cl = \<lparr>isMine = False, isRevealed = False, isFlagged = False, neighborMines = 0\<rparr>"
  proof -
    fix r c cl
    assume "cellAt (grid (initGame d s)) r c = Some cl"
    then have "cellAt (grid (createGrid (s\<lparr>rows := s_rows d, cols := s_cols d, mineCount := s_mines d,
          grid := [], flagCount := 0, revealedCount := 0,
          gameOver := False, gameStarted := False,
          timer := (if isTimeAttack s then timeAttackLimit s else 0),
          hints := 3, timerRunning := False\<rparr>))) r c = Some cl"
      by (simp add: initGame_def)
    then show "cl = \<lparr>isMine = False, isRevealed = False, isFlagged = False, neighborMines = 0\<rparr>"
      by (rule cellAt_createGrid)
  qed
  have n: "\<And>P. \<not> P \<lparr>isMine = False, isRevealed = False, isFlagged = False, neighborMines = 0\<rparr> \<Longrightarrow>
           noCell P (grid (initGame d s))"
    unfolding noCell_def using g by blast
  have f: "gameStarted (initGame d s) = False" "gameOver (initGame d s) = False"
    "face (initGame d s) = FaceNew" "timerRunning (initGame d s) = False"
    "revealedCount (initGame d s) = 0"
    by (simp_all add: initGame_def createGrid_def)
  show ?thesis
    unfolding gameInv_def coreInv_def freshOk_def countOk_def cellsOk_def phaseOk_def winOk_def f
    using wfGame_initGame[of d s] n noCell_countCells[OF n] by simp
qed

lemma lossReveal_refl: "lossReveal r c x x"
  by (simp add: lossReveal_def)

lemma lossReveal_trans: "lossReveal r c x y \<Longrightarrow> lossReveal r c y z \<Longrightarrow> lossReveal r c x z"
  unfolding lossReveal_def by auto

lemma endGame_lost:
  assumes "wfGame s"
  obtains s' where "endGame False s = Inr s'"
    "rows s' = rows s" "cols s' = cols s" "mineCount s' = mineCount s"
    "revealedCount s' = revealedCount s" "gameStarted s' = gameStarted s"
    "gameOver s'" "face s' = FaceLose" "\<not> timerRunning s'"
    "flagCount s' = flagCount s" "hints s' = hints s" "randoms s' = randoms s"
    "cellsRel lossReveal (grid s) (grid s')"
proof -
  define s1 where "s1 = (stopTimer (s\<lparr>gameOver := True\<rparr>))\<lparr>face := FaceLose\<rparr>"
  have e: "endGame False s = revealAllMines s1" by (simp add: endGame_def s1_def Let_def)
  have w1: "wfGame s1" using assms by (simp add: wfGame_def s1_def stopTimer_def)
  from revealAllMines_effect[OF w1] obtain s' where
    s': "revealAllMines s1 = Inr s'" "besidesGrid s' = besidesGrid s1"
        "cellsRel lossReveal (grid s1) (grid s')" by blast
  note f = besidesGrid_fields[OF s'(2)]
  have g1: "grid s1 = grid s" by (simp add: s1_def stopTimer_def)
  show ?thesis
  proof (rule that[of s'])
    show "endGame False s = Inr s'" using e s'(1) by simp
    show "cellsRel lossReveal (grid s) (grid s')" using s'(3) g1 by simp
  qed (simp_all add: f s1_def stopTimer_def)
qed

lemma gameInv_lost:
  assumes "gameInv s" and "gameStarted s" and "\<not> gameOver s"
    and "rows s' = rows s" "cols s' = cols s" "mineCount s' = mineCount s"
    "revealedCount s' = revealedCount s" "gameStarted s' = gameStarted s"
    "gameOver s'" "face s' = FaceLose" "\<not> timerRunning s'"
    and rel: "cellsRel lossReveal (grid s) (grid s')"
  shows "gameInv s'"
proof -
  from assms(1) have wf: "wfGame s" and ne: "numbersExact s" and cnt: "countOk s"
    and co: "cellsOk s" and ph: "phaseOk s" and wo: "winOk s"
    using assms(2) by (simp_all add: gameInv_def coreInv_def)
  have wf': "wfGame s'" using wf rel assms(4,5) by (rule wfGame_cellsRel)
  have ne': "numbersExact s'"
    using ne rel assms(4,5) by (rule numbersExact_cellsRel) (auto simp: lossReveal_def)
  have "countCells (\<lambda>c. isRevealed c \<and> \<not> isMine c) (grid s') =
        countCells (\<lambda>c. isRevealed c \<and> \<not> isMine c) (grid s)"
    using rel by (rule countCells_cellsRel) (auto simp: lossReveal_def)
  with cnt assms(7) have cnt': "countOk s'" by (simp add: countOk_def)
  have "noCell (\<lambda>c. isRevealed c \<and> isFlagged c \<and> \<not> isMine c) (grid s')"
    using rel co[unfolded cellsOk_def, THEN conjunct1]
    by (rule noCell_cellsRel) (auto simp: lossReveal_def)
  with assms(9,10) have co': "cellsOk s'" by (simp add: cellsOk_def)
  from ph assms(3) have "face s = FaceNew" by (simp add: phaseOk_def)
  with wo assms(2) have "\<not> checkWin s" by (simp add: winOk_def)
  with assms(4-7) have "\<not> checkWin s'" by (simp add: checkWin_def)
  with assms(10) have wo': "winOk s'" by (simp add: winOk_def)
  have ph': "phaseOk s'" using assms(2,8,9,10,11) by (simp add: phaseOk_def)
  have "freshOk s'" using assms(2,8) by (simp add: freshOk_def)
  with wf' ne' cnt' co' ph' wo' show ?thesis by (simp add: gameInv_def coreInv_def)
qed

lemma flagOnly_refl: "flagOnly r c x x"
  by (simp add: flagOnly_def)

lemma handleFlag_effect:
  assumes "handleFlag s row col = Inr s'"
  shows "rows s' = rows s" "cols s' = cols s" "mineCount s' = mineCount s"
    "revealedCount s' = revealedCount s" "gameStarted s' = gameStarted s"
    "gameOver s' = gameOver s" "face s' = face s" "timerRunning s' = timerRunning s"
    "cellsRel flagOnly (grid s) (grid s')"
proof -
  have "rows s' = rows s \<and> cols s' = cols s \<and> mineCount s' = mineCount s \<and>
    revealedCount s' = revealedCount s \<and> gameStarted s' = gameStarted s \<and>
    gameOver s' = gameOver s \<and> face s' = face s \<and> timerRunning s' = timerRunning s \<and>
    cellsRel flagOnly (grid s) (grid s')"
  proof (cases "gameOver s")
    case True
    with assms show ?thesis by (simp add: handleFlag_def cellsRel_refl flagOnly_refl)
  next
    case False
    with assms obtain cl where cl: "cellAt (grid s) row col = Some cl"
      by (cases "cellAt (grid s) row col") (auto simp: handleFlag_def)
    show ?thesis
    proof (cases "isRevealed cl")
      case True
      with assms False cl show ?thesis by (simp add: handleFlag_def cellsRel_refl flagOnly_refl)
    next
      case nr: False
      have rel: "cellsRel flagOnly (grid s) (setCell (grid s) row col (cl\<lparr>isFlagged := \<not> isFlagged cl\<rparr>))"
        using cl nr by (intro cellsRel_setCell[OF cl]) (auto simp: flagOnly_def)
      from assms False cl nr rel show ?thesis
        by (auto simp: handleFlag_def Let_def split: if_splits)
    qed
  qed
  then show "rows s' = rows s" "cols s' = cols s" "mineCount s' = mineCount s"
    "revealedCount s' = revealedCount s" "gameStarted s' = gameStarted s"
    "gameOver s' = gameOver s" "face s' = face s" "timerRunning s' = timerRunning s"
    "cellsRel flagOnly (grid s) (grid s')" by simp_all
qed

lemma gameInv_handleFlag:
  assumes "gameInv s" and "handleFlag s row col = Inr s'"
  shows "gameInv s'"
proof -
  note e = handleFlag_effect[OF assms(2)]
  note rel = e(9)
  from assms(1) have wf: "wfGame s" and ne: "gameStarted s \<longrightarrow> numbersExact s" and cnt: "countOk s"
    and co: "cellsOk s" and ph: "phaseOk s" and wo: "winOk s" and fr: "freshOk s"
    by (simp_all add: gameInv_def coreInv_def)
  have wf': "wfGame s'" using wf rel e(1,2) by (rule wfGame_cellsRel)
  have ne': "gameStarted s' \<longrightarrow> numbersExact s'"
  proof
    assume "gameStarted s'"
    with ne e(5) have "numbersExact s" by simp
    then show "numbersExact s'"
      using rel e(1,2) by (rule numbersExact_cellsRel) (auto simp: flagOnly_def)
  qed
  have "countCells (\<lambda>c. isRevealed c \<and> \<not> isMine c) (grid s') =
        countCells (\<lambda>c. isRevealed c \<and> \<not> isMine c) (grid s)"
    using rel by (rule countCells_cellsRel) (auto simp: flagOnly_def)
  with cnt e(4) have cnt': "countOk s'" by (simp add: countOk_def)
  have c1: "noCell (\<lambda>c. isRevealed c \<and> isFlagged c \<and> \<not> isMine c) (grid s')"
    using rel co[unfolded cellsOk_def, THEN conjunct1]
    by (rule noCell_cellsRel) (auto simp: flagOnly_def)
  have c2: "\<not> (gameOver s' \<and> face s' = FaceLose) \<longrightarrow>
         noCell (\<lambda>c. isRevealed c \<and> isFlagged c) (grid s')"
  proof
    assume "\<not> (gameOver s' \<and> face s' = FaceLose)"
    with co e(6,7) have "noCell (\<lambda>c. isRevealed c \<and> isFlagged c) (grid s)"
      by (simp add: cellsOk_def)
    with rel show "noCell (\<lambda>c. isRevealed c \<and> isFlagged c) (grid s')"
      by (rule noCell_cellsRel) (auto simp: flagOnly_def)
  qed
  from c1 c2 have co': "cellsOk s'" by (simp add: cellsOk_def)
  have fr': "freshOk s'"
    unfolding freshOk_def
  proof (intro impI conjI)
    assume "\<not> gameStarted s'"
    with fr e(5) have n: "noCell isMine (grid s)" "noCell isRevealed (grid s)"
      by (simp_all add: freshOk_def)
    from rel n(1) show "noCell isMine (grid s')"
      by (rule noCell_cellsRel) (auto simp: flagOnly_def)
    from rel n(2) show "noCell isRevealed (grid s')"
      by (rule noCell_cellsRel) (auto simp: flagOnly_def)
  qed
  have ph': "phaseOk s'" using ph e(5-8) by (auto simp: phaseOk_def)
  have wo': "winOk s'" using wo winOk_cong[OF e(1,2,3,4,5,7)] by simp
  from wf' ne' cnt' co' ph' wo' fr' show ?thesis by (simp add: gameInv_def coreInv_def)
qed

lemma noCell_mono: "noCell P g \<Longrightarrow> (\<And>x. P' x \<Longrightarrow> P x) \<Longrightarrow> noCell P' g"
  unfolding noCell_def by blast

lemma besidesReveal_fields:
  assumes "besidesReveal s' = besidesReveal s"
  shows "rows s' = rows s" "cols s' = cols s" "mineCount s' = mineCount s"
    "flagCount s' = flagCount s" "gameOver s' = gameOver s" "gameStarted s' = gameStarted s"
    "timer s' = timer s" "timerRunning s' = timerRunning s" "hints s' = hints s"
    "isTimeAttack s' = isTimeAttack s" "timeAttackLimit s' = timeAttackLimit s"
    "face s' = face s" "randoms s' = randoms s"
proof -
  have "\<And>f. f (besidesReveal s') = f (besidesReveal s)" using assms by simp
  note e = this
  show "rows s' = rows s" using e[of rows] by (simp add: besidesReveal_def)
  show "cols s' = cols s" using e[of cols] by (simp add: besidesReveal_def)
  show "mineCount s' = mineCount s" using e[of mineCount] by (simp add: besidesReveal_def)
  show "flagCount s' = flagCount s" using e[of flagCount] by (simp add: besidesReveal_def)
  show "gameOver s' = gameOver s" using e[of gameOver] by (simp add: besidesReveal_def)
  show "gameStarted s' = gameStarted s" using e[of gameStarted] by (simp add: besidesReveal_def)
  show "timer s' = timer s" using e[of timer] by (simp add: besidesReveal_def)
  show "timerRunning s' = timerRunning s" using e[of timerRunning] by (simp add: besidesReveal_def)
  show "hints s' = hints s" using e[of hints] by (simp add: besidesReveal_def)
  show "isTimeAttack s' = isTimeAttack s" using e[of isTimeAttack] by (simp add: besidesReveal_def)
  show "timeAttackLimit s' = timeAttackLimit s" using e[of timeAttackLimit] by (simp add: besidesReveal_def)
  show "face s' = face s" using e[of face] by (simp add: besidesReveal_def)
  show "randoms s' = randoms s" using e[of randoms] by (simp add: besidesReveal_def)
qed

lemma finite_adjacent: "finite {q. adjacent (r, c) q \<and> A q}"
proof -
  have "{q. adjacent (r, c) q \<and> A q} \<subseteq> set (neighborsOf r c)"
    by (auto simp: set_neighborsOf)
  then show ?thesis by (rule finite_subset) simp
qed

lemma zero_no_adjacent_mine:
  assumes "wfGame s" and "numbersExact s" and "cellAt (grid s) r c = Some cl"
    and "\<not> isMine cl" and "neighborMines cl = 0" and "adjacent (r, c) q"
    and "cellAt (grid s) (fst q) (snd q) = Some cq"
  shows "\<not> isMine cq"
proof
  assume m: "isMine cq"
  from assms(2,3,4,5) have "adjacentMines s r c = 0" by (auto simp: numbersExact_def)
  then have "{q. adjacent (r, c) q \<and> inBounds s q \<and> mineAt (grid s) q} = {}"
    unfolding adjacentMines_def using finite_adjacent[of r c "\<lambda>q. inBounds s q \<and> mineAt (grid s) q"]
    by simp
  moreover have "inBounds s q" using wfGame_inBounds[OF assms(1), of q] assms(7) by simp
  moreover have "mineAt (grid s) q" using assms(7) m by (simp add: mineAt_def)
  ultimately show False using assms(6) by blast
qed

lemma fillReach_safe:
  assumes "wfGame s" and "numbersExact s" and "\<not> mineAt (grid s) start"
    and "fillReach (grid s) start p"
  shows "\<not> mineAt (grid s) p"
  using assms(4)
proof (induction rule: fillReach.induct)
  case fillReach_start
  show ?case by (rule assms(3))
next
  case (fillReach_step p q)
  from fillReach_step(2) obtain cl where cl: "cellAt (grid s) (fst p) (snd p) = Some cl"
    "neighborMines cl = 0" by (auto simp: zeroAt_def split: option.splits)
  from fillReach_step(5) cl(1) have nm: "\<not> isMine cl" by (simp add: mineAt_def)
  from fillReach_step(4) obtain cq where cq: "cellAt (grid s) (fst q) (snd q) = Some cq"
    by (auto simp: openAt_def split: option.splits)
  have "adjacent (fst p, snd p) q" using fillReach_step(3) by simp
  from zero_no_adjacent_mine[OF assms(1,2) cl(1) nm cl(2) this cq] cq
  show ?case by (simp add: mineAt_def)
qed

lemma safeReveal_refl: "safeReveal r c x x"
  by (simp add: safeReveal_def)

lemma revealCell_safeReveal:
  assumes "wfGame s" and "numbersExact s" and "\<not> mineAt (grid s) (row, col)"
    and "revealCell s row col = Inr s'"
  shows "cellsRel safeReveal (grid s) (grid s')"
proof -
  from revealCell_onlyReveals(1)[OF assms(1), of row col] assms(4)
  have g: "grows (grid s) (grid s')" by (auto simp: onlyReveals_def)
  note reg = flood_region[OF assms(1,4)]
  show ?thesis
    unfolding cellsRel_def
  proof (intro conjI allI impI)
    show "map length (grid s') = map length (grid s)" using g by (rule grows_shape)
  next
    fix r c cl
    assume cl: "cellAt (grid s) r c = Some cl"
    from growsD[OF g cl]
    show "\<exists>cl'. cellAt (grid s') r c = Some cl' \<and> safeReveal r c cl cl'"
    proof
      assume "cellAt (grid s') r c = Some cl"
      then show ?thesis by (simp add: safeReveal_def)
    next
      assume a: "\<not> isRevealed cl \<and> \<not> isFlagged cl \<and> cellAt (grid s') r c = Some (cl\<lparr>isRevealed := True\<rparr>)"
      with cl have "(r, c) \<in> newly (grid s) (grid s')"
        by (simp add: newly_def openAt_def revealedAt_def)
      with reg have "fillReach (grid s) (row, col) (r, c)" by simp
      from fillReach_safe[OF assms(1,2,3) this] cl have "\<not> isMine cl" by (simp add: mineAt_def)
      with a show ?thesis by (simp add: safeReveal_def)
    qed
  qed
qed

lemma countOk_safeReveal:
  assumes "countOk s" and "cellsRel safeReveal (grid s) (grid s')"
    and "revealedCount s' + unrevealed (grid s') = revealedCount s + unrevealed (grid s)"
  shows "countOk s'"
proof -
  let ?g = "grid s" and ?g' = "grid s'"
  have u: "\<And>g. countCells (\<lambda>x. \<not> isRevealed x \<and> isMine x) g +
               countCells (\<lambda>x. \<not> isRevealed x \<and> \<not> isMine x) g = unrevealed g"
    unfolding unrevealed_def by (rule countCells_split)
  have n: "\<And>g. countCells (\<lambda>x. \<not> isMine x \<and> isRevealed x) g +
               countCells (\<lambda>x. \<not> isMine x \<and> \<not> isRevealed x) g = countCells (\<lambda>x. \<not> isMine x) g"
    by (rule countCells_split)
  have c1: "\<And>g. countCells (\<lambda>x. \<not> isMine x \<and> isRevealed x) g =
                countCells (\<lambda>x. isRevealed x \<and> \<not> isMine x) g"
    by (simp add: conj_commute)
  have c2: "\<And>g. countCells (\<lambda>x. \<not> isMine x \<and> \<not> isRevealed x) g =
                countCells (\<lambda>x. \<not> isRevealed x \<and> \<not> isMine x) g"
    by (simp add: conj_commute)
  have p1: "countCells (\<lambda>x. \<not> isRevealed x \<and> isMine x) ?g' =
            countCells (\<lambda>x. \<not> isRevealed x \<and> isMine x) ?g"
    using assms(2) by (rule countCells_cellsRel) (auto simp: safeReveal_def)
  have p2: "countCells (\<lambda>x. \<not> isMine x) ?g' = countCells (\<lambda>x. \<not> isMine x) ?g"
    using assms(2) by (rule countCells_cellsRel) (auto simp: safeReveal_def)
  from assms(1) have r: "revealedCount s = countCells (\<lambda>x. isRevealed x \<and> \<not> isMine x) ?g"
    by (simp add: countOk_def)
  have "revealedCount s' = countCells (\<lambda>x. isRevealed x \<and> \<not> isMine x) ?g'"
    using u[of ?g] u[of ?g'] n[of ?g] n[of ?g'] c1[of ?g] c1[of ?g'] c2[of ?g] c2[of ?g']
      p1 p2 r assms(3)
    by linarith
  then show ?thesis by (simp add: countOk_def)
qed

lemma handleReveal_over: "gameOver s \<Longrightarrow> handleReveal s row col = Inr s"
  unfolding handleReveal_def by (subst if_P) simp_all

lemma handleReveal_outside:
  "\<not> gameOver s \<Longrightarrow> cellAt (grid s) row col = None \<Longrightarrow> handleReveal s row col = Inl TypeError"
  unfolding handleReveal_def by (subst if_not_P, assumption) simp

lemma handleReveal_closed:
  assumes "\<not> gameOver s" and "cellAt (grid s) row col = Some cl0"
    and "isFlagged cl0 \<or> isRevealed cl0"
  shows "handleReveal s row col = Inr s"
  unfolding handleReveal_def
  apply (subst if_not_P[OF assms(1)])
  apply (subst assms(2))
  apply (subst option.case(2))
  apply (subst if_P[OF assms(3)])
  apply (rule refl)
  done

lemma handleReveal_open:
  assumes ngo: "\<not> gameOver s" and cl0: "cellAt (grid s) row col = Some cl0"
    and op: "\<not> (isFlagged cl0 \<or> isRevealed cl0)"
  shows "handleReveal s row col =
        (case (if \<not> gameStarted s then
                     (case placeMines s row col of
                        Inl e \<Rightarrow> Inl e
                      | Inr s1 \<Rightarrow> Inr ((startTimer s1)\<lparr>gameStarted := True\<rparr>))
                   else Inr s) of
               Inl e \<Rightarrow> Inl e
             | Inr s2 \<Rightarrow> revealAt s2 row col)"
  unfolding handleReveal_def revealAt_def
  apply (subst if_not_P[OF ngo])
  apply (subst cl0)
  apply (subst option.case(2))
  apply (subst if_not_P[OF op])
  apply (rule refl)
  done

lemma handleReveal_running:
  assumes "\<not> gameOver s" and "cellAt (grid s) row col = Some cl0"
    and "\<not> (isFlagged cl0 \<or> isRevealed cl0)" and "gameStarted s"
  shows "handleReveal s row col = revealAt s row col"
  unfolding handleReveal_open[OF assms(1,2,3)] using assms(4) by simp

lemma handleReveal_first:
  assumes "\<not> gameOver s" and "cellAt (grid s) row col = Some cl0"
    and "\<not> (isFlagged cl0 \<or> isRevealed cl0)" and "\<not> gameStarted s"
  shows "handleReveal s row col =
         (case placeMines s row col of Inl e \<Rightarrow> Inl e | Inr s1 \<Rightarrow> revealAt (started s1) row col)"
  unfolding handleReveal_open[OF assms(1,2,3)] started_def using assms(4)
  by (cases "placeMines s row col") simp_all

lemma revealAt_cases:
  assumes "revealAt s2 row col = Inr s'"
  obtains (mine) cl s3 where "cellAt (grid s2) row col = Some cl" "isMine cl"
      "revealMine s2 row col = Inr s3" "endGame False s3 = Inr s'"
  | (safe) cl s3 where "cellAt (grid s2) row col = Some cl" "\<not> isMine cl"
      "revealCell s2 row col = Inr s3"
      "(checkWin s3 \<and> endGame True s3 = Inr s') \<or> (\<not> checkWin s3 \<and> s' = s3)"
proof -
  from assms obtain cl where cl: "cellAt (grid s2) row col = Some cl"
    unfolding revealAt_def by (cases "cellAt (grid s2) row col") simp_all
  show ?thesis
  proof (cases "isMine cl")
    case True
    with assms cl have "(case revealMine s2 row col of Inl e \<Rightarrow> Inl e | Inr s3 \<Rightarrow> endGame False s3) = Inr s'"
      unfolding revealAt_def by simp
    then obtain s3 where "revealMine s2 row col = Inr s3" "endGame False s3 = Inr s'"
      by (cases "revealMine s2 row col") simp_all
    with cl True show ?thesis by (rule mine)
  next
    case False
    with assms cl have "(case revealCell s2 row col of Inl e \<Rightarrow> Inl e
        | Inr s3 \<Rightarrow> if checkWin s3 then endGame True s3 else Inr s3) = Inr s'"
      unfolding revealAt_def by simp
    then obtain s3 where s3: "revealCell s2 row col = Inr s3"
      "(if checkWin s3 then endGame True s3 else Inr s3) = Inr s'"
      by (cases "revealCell s2 row col") simp_all
    from s3(2) have "(checkWin s3 \<and> endGame True s3 = Inr s') \<or> (\<not> checkWin s3 \<and> s' = s3)"
      by (cases "checkWin s3") simp_all
    with cl False s3(1) show ?thesis by (rule safe)
  qed
qed

lemma handleReveal_cases:
  assumes "handleReveal s row col = Inr s'"
  obtains (over) "gameOver s" "s' = s"
  | (closed) cl0 where "\<not> gameOver s" "cellAt (grid s) row col = Some cl0"
      "isFlagged cl0 \<or> isRevealed cl0" "s' = s"
  | (running) cl0 where "\<not> gameOver s" "cellAt (grid s) row col = Some cl0"
      "\<not> isFlagged cl0" "\<not> isRevealed cl0" "gameStarted s" "revealAt s row col = Inr s'"
  | (first) cl0 s1 where "\<not> gameOver s" "cellAt (grid s) row col = Some cl0"
      "\<not> isFlagged cl0" "\<not> isRevealed cl0" "\<not> gameStarted s"
      "placeMines s row col = Inr s1" "revealAt (started s1) row col = Inr s'"
proof (cases "gameOver s")
  case True
  with assms handleReveal_over[OF True, of row col] show ?thesis by (intro over) simp_all
next
  case ngo: False
  with assms handleReveal_outside[OF ngo, of row col] obtain cl0 where
    cl0: "cellAt (grid s) row col = Some cl0"
    by (cases "cellAt (grid s) row col") simp_all
  show ?thesis
  proof (cases "isFlagged cl0 \<or> isRevealed cl0")
    case True
    with assms handleReveal_closed[OF ngo cl0 True] ngo cl0 show ?thesis
      by (intro closed[of cl0]) simp_all
  next
    case op: False
    show ?thesis
    proof (cases "gameStarted s")
      case True
      with assms handleReveal_running[OF ngo cl0 op True] ngo cl0 op show ?thesis
        by (intro running[of cl0]) simp_all
    next
      case False
      from assms handleReveal_first[OF ngo cl0 op False]
      obtain s1 where "placeMines s row col = Inr s1" "revealAt (started s1) row col = Inr s'"
        by (cases "placeMines s row col") simp_all
      with ngo cl0 op False show ?thesis by (intro first[of cl0 s1]) simp_all
    qed
  qed
qed

lemma cellsRel_comp:
  assumes "cellsRel R g g'" and "cellsRel R' g' g''"
    and "\<And>r c x y z. R r c x y \<Longrightarrow> R' r c y z \<Longrightarrow> R'' r c x z"
  shows "cellsRel R'' g g''"
  unfolding cellsRel_def
proof (intro conjI allI impI)
  show "map length g'' = map length g"
    using cellsRel_shape[OF assms(1)] cellsRel_shape[OF assms(2)] by simp
next
  fix r c cl
  assume "cellAt g r c = Some cl"
  from cellsRelD[OF assms(1) this] obtain cl' where 1: "cellAt g' r c = Some cl'" "R r c cl cl'"
    by blast
  from cellsRelD[OF assms(2) 1(1)] obtain cl'' where 2: "cellAt g'' r c = Some cl''" "R' r c cl' cl''"
    by blast
  from 1 2 assms(3) show "\<exists>cl'. cellAt g'' r c = Some cl' \<and> R'' r c cl cl'" by blast
qed

lemma placeMines_effect:
  assumes "placeMines s fr fc = Inr s1" and "wfGame s"
  shows "rows s1 = rows s" "cols s1 = cols s" "mineCount s1 = mineCount s"
    "revealedCount s1 = revealedCount s" "gameOver s1 = gameOver s" "gameStarted s1 = gameStarted s"
    "face s1 = face s" "timerRunning s1 = timerRunning s"
    "cellsRel (placement fr fc) (grid s) (grid s1)" "wfGame s1" "numbersExact s1"
    "countCells isMine (grid s1) = countCells isMine (grid s) + mineCount s"
proof -
  from placeMines_parts[OF assms] obtain s0 where
    p: "placeMines_loop s fr fc 0 = Inr s0" "calculateNumbers s0 = Inr s1"
       "besidesMines s0 = besidesMines s" "cellsRel (minesOnly fr fc) (grid s) (grid s0)"
       "countCells isMine (grid s0) = countCells isMine (grid s) + mineCount s"
       "wfGame s0" "besidesGrid s1 = besidesGrid s0" "cellsRel numbersOnly (grid s0) (grid s1)"
       "wfGame s1"
    by metis
  note f0 = besidesMines_fields[OF p(3)] and f1 = besidesGrid_fields[OF p(7)]
  show "rows s1 = rows s" "cols s1 = cols s" "mineCount s1 = mineCount s"
    "revealedCount s1 = revealedCount s" "gameOver s1 = gameOver s" "gameStarted s1 = gameStarted s"
    "face s1 = face s" "timerRunning s1 = timerRunning s"
    by (simp_all add: f0 f1)
  show "wfGame s1" by (rule p(9))
  show "cellsRel (placement fr fc) (grid s) (grid s1)"
    using p(4) p(8)
  proof (rule cellsRel_comp)
    fix r c x y z
    assume "minesOnly fr fc r c x y" and n: "numbersOnly r c y z"
    then show "placement fr fc r c x z"
      using numbersOnlyD[OF n] by (auto simp: minesOnly_def placement_def)
  qed
  show "numbersExact s1"
    unfolding numbersExact_def using calculateNumbers_cellsRel(4)[OF p(6) p(2)] by blast
  have "countCells isMine (grid s1) = countCells isMine (grid s0)"
    using p(8) by (rule countCells_cellsRel) (rule numbersOnlyD(1))
  with p(5) show "countCells isMine (grid s1) = countCells isMine (grid s) + mineCount s" by simp
qed

lemma started_fields:
  "grid (started s1) = grid s1" "rows (started s1) = rows s1" "cols (started s1) = cols s1"
  "mineCount (started s1) = mineCount s1" "revealedCount (started s1) = revealedCount s1"
  "gameOver (started s1) = gameOver s1" "gameStarted (started s1)" "face (started s1) = face s1"
  "timerRunning (started s1)"
  by (simp_all add: started_def startTimer_def)

lemma numbersExact_cong:
  "grid s' = grid s \<Longrightarrow> rows s' = rows s \<Longrightarrow> cols s' = cols s \<Longrightarrow> numbersExact s' = numbersExact s"
  by (simp add: numbersExact_def adjacentMines_def inBounds_def)

lemma first_click:
  assumes "gameInv s" and "\<not> gameStarted s" and "\<not> gameOver s"
    and "cellAt (grid s) row col = Some cl0" and "\<not> isFlagged cl0" and "\<not> isRevealed cl0"
    and "placeMines s row col = Inr s1"
  shows "coreInv (started s1)" "\<not> gameOver (started s1)"
    "\<exists>cl. cellAt (grid (started s1)) row col = Some cl \<and> \<not> isFlagged cl \<and> \<not> isRevealed cl \<and> \<not> isMine cl"
proof -
  from assms(1) have wf: "wfGame s" and fr: "freshOk s" and cnt: "countOk s"
    and ph: "phaseOk s" by (simp_all add: gameInv_def coreInv_def)
  note e = placeMines_effect[OF assms(7) wf]
  note sf = started_fields[of s1]
  from fr assms(2) have nm: "noCell isMine (grid s)" and nr: "noCell isRevealed (grid s)"
    by (simp_all add: freshOk_def)
  have nr1: "noCell isRevealed (grid s1)"
    using e(9) nr by (rule noCell_cellsRel) (simp add: placement_def)
  from ph assms(3) have fn: "face s = FaceNew" by (simp add: phaseOk_def)
  have wf2: "wfGame (started s1)" using e(10) by (simp add: wfGame_def sf)
  have ne2: "numbersExact (started s1)"
    using e(11) numbersExact_cong[of "started s1" s1] by (simp add: sf)
  have q0: "countCells (\<lambda>c. isRevealed c \<and> \<not> isMine c) (grid s) = 0"
    by (rule noCell_countCells) (rule noCell_mono[OF nr], simp)
  have q1: "countCells (\<lambda>c. isRevealed c \<and> \<not> isMine c) (grid s1) = 0"
    by (rule noCell_countCells) (rule noCell_mono[OF nr1], simp)
  have cnt2: "countOk (started s1)"
    using cnt q0 q1 e(4) by (simp add: countOk_def sf)
  have co2: "cellsOk (started s1)"
    unfolding cellsOk_def sf
    by (intro conjI impI) (rule noCell_mono[OF nr1], simp)+
  have ph2: "phaseOk (started s1)"
    using assms(3) fn e(5,7) by (simp add: phaseOk_def sf)
  have fr2: "freshOk (started s1)" by (simp add: freshOk_def sf)
  show "coreInv (started s1)"
    using wf2 ne2 cnt2 co2 ph2 fr2 by (simp add: coreInv_def)
  show "\<not> gameOver (started s1)" using assms(3) e(5) by (simp add: sf)
  from cellsRelD[OF e(9) assms(4)] obtain cl where
    cl: "cellAt (grid s1) row col = Some cl" "placement row col row col cl0 cl" by blast
  from nm assms(4) have "\<not> isMine cl0" by (auto simp: noCell_def)
  with cl(2) assms(5,6) have "\<not> isFlagged cl \<and> \<not> isRevealed cl \<and> \<not> isMine cl"
    by (simp add: placement_def)
  with cl(1) show "\<exists>cl. cellAt (grid (started s1)) row col = Some cl \<and> \<not> isFlagged cl \<and>
      \<not> isRevealed cl \<and> \<not> isMine cl"
    by (simp add: sf)
qed

lemma revealMine_effect:
  assumes "revealMine s row col = Inr s3" and "cellAt (grid s) row col = Some cl" and "isMine cl"
  shows "besidesGrid s3 = besidesGrid s" "cellsRel lossReveal (grid s) (grid s3)"
proof -
  from assms(1,2) have s3: "s3 = s\<lparr>grid := setCell (grid s) row col (cl\<lparr>isRevealed := True\<rparr>)\<rparr>"
    by (simp add: revealMine_def)
  show "besidesGrid s3 = besidesGrid s" by (simp add: s3 besidesGrid_def)
  show "cellsRel lossReveal (grid s) (grid s3)"
    unfolding s3 using assms(3) by (simp add: cellsRel_setCell[OF assms(2)] lossReveal_def)
qed

lemma gameInv_revealAt:
  assumes "coreInv s2" and "gameStarted s2" and "\<not> gameOver s2"
    and "cellAt (grid s2) row col = Some cl" and "\<not> isFlagged cl" and "\<not> isRevealed cl"
    and "isMine cl \<longrightarrow> winOk s2"
    and "revealAt s2 row col = Inr s'"
  shows "gameInv s'"
  using assms(8)
proof (cases rule: revealAt_cases)
  case (mine cl' s3)
  with assms(4) have m: "isMine cl" by simp
  with assms(1,7) have inv: "gameInv s2" by (simp add: gameInv_def)
  from assms(1) have wf: "wfGame s2" by (simp add: coreInv_def)
  note r = revealMine_effect[OF mine(3) assms(4) m]
  note f3 = besidesGrid_fields[OF r(1)]
  have wf3: "wfGame s3" using wf r(2) f3(1,2) by (rule wfGame_cellsRel)
  from endGame_lost[OF wf3] mine(4) obtain
    l: "rows s' = rows s3" "cols s' = cols s3" "mineCount s' = mineCount s3"
       "revealedCount s' = revealedCount s3" "gameStarted s' = gameStarted s3"
       "gameOver s'" "face s' = FaceLose" "\<not> timerRunning s'"
       "cellsRel lossReveal (grid s3) (grid s')"
    by (metis sum.inject(2))
  have rel: "cellsRel lossReveal (grid s2) (grid s')"
    using r(2) l(9) by (rule cellsRel_trans) (rule lossReveal_trans)
  from inv assms(2,3) show ?thesis
    by (rule gameInv_lost) (simp_all add: l f3 rel)
next
  case (safe cl' s3)
  with assms(4) have nm: "\<not> isMine cl" by simp
  from assms(1,2) have wf: "wfGame s2" and ne: "numbersExact s2" and cnt: "countOk s2"
    and co: "cellsOk s2" and ph: "phaseOk s2" by (simp_all add: coreInv_def)
  from revealCell_onlyReveals(1)[OF wf, of row col] safe(3) have o: "onlyReveals s2 s3" by auto
  note f = besidesReveal_fields[OF o[unfolded onlyReveals_def, THEN conjunct1]]
  have start: "\<not> mineAt (grid s2) (row, col)" using assms(4) nm by (simp add: mineAt_def)
  have rel: "cellsRel safeReveal (grid s2) (grid s3)"
    using wf ne start safe(3) by (rule revealCell_safeReveal)
  have wf3: "wfGame s3" using o wf by (rule onlyReveals_wfGame)
  have ne3: "numbersExact s3"
    using ne rel f(1,2) by (rule numbersExact_cellsRel) (auto simp: safeReveal_def)
  have cnt3: "countOk s3"
    using cnt rel onlyReveals_count[OF o] by (rule countOk_safeReveal)
  from ph assms(3) have fn: "face s2 = FaceNew" by (simp add: phaseOk_def)
  with co have "noCell (\<lambda>c. isRevealed c \<and> isFlagged c) (grid s2)" by (simp add: cellsOk_def)
  with rel have nrf: "noCell (\<lambda>c. isRevealed c \<and> isFlagged c) (grid s3)"
    by (rule noCell_cellsRel) (auto simp: safeReveal_def)
  have core3: "wfGame s3 \<and> numbersExact s3 \<and> countOk s3"
    using wf3 ne3 cnt3 by simp
  from safe(4) show ?thesis
  proof
    assume w: "checkWin s3 \<and> endGame True s3 = Inr s'"
    then have s': "s' = (stopTimer (s3\<lparr>gameOver := True\<rparr>))\<lparr>face := FaceWin\<rparr>"
      by (simp add: endGame_def Let_def)
    have g: "grid s' = grid s3" "rows s' = rows s3" "cols s' = cols s3"
      "mineCount s' = mineCount s3" "revealedCount s' = revealedCount s3"
      "gameStarted s' = gameStarted s3" "gameOver s'" "face s' = FaceWin" "\<not> timerRunning s'"
      by (simp_all add: s' stopTimer_def)
    have "wfGame s'" using wf3 g by (simp add: wfGame_def)
    moreover have "numbersExact s'" using ne3 numbersExact_cong[OF g(1,2,3)] by simp
    moreover have "countOk s'" using cnt3 g by (simp add: countOk_def)
    moreover have "cellsOk s'"
      unfolding cellsOk_def g using nrf by (auto intro: noCell_mono)
    moreover have "phaseOk s'" using assms(2) f(6) g by (simp add: phaseOk_def)
    moreover have "freshOk s'" using assms(2) f(6) g by (simp add: freshOk_def)
    moreover have "winOk s'" using w g by (simp add: winOk_def checkWin_def)
    ultimately show ?thesis by (simp add: gameInv_def coreInv_def)
  next
    assume w: "\<not> checkWin s3 \<and> s' = s3"
    have "cellsOk s3" unfolding cellsOk_def using nrf by (auto intro: noCell_mono)
    moreover have "phaseOk s3" using ph f(5,6,8,12) by (auto simp: phaseOk_def)
    moreover have "freshOk s3" using assms(2) f(6) by (simp add: freshOk_def)
    moreover have "winOk s3" using w fn f(12) by (simp add: winOk_def)
    ultimately show ?thesis using core3 w by (simp add: gameInv_def coreInv_def)
  qed
qed

lemma gameInv_handleReveal:
  assumes "gameInv s" and "handleReveal s row col = Inr s'"
  shows "gameInv s'"
  using assms(2)
proof (cases rule: handleReveal_cases)
  case over
  with assms(1) show ?thesis by simp
next
  case (closed cl0)
  with assms(1) show ?thesis by simp
next
  case (running cl0)
  from assms(1) have "coreInv s" "winOk s" by (simp_all add: gameInv_def)
  with running show ?thesis
    by (intro gameInv_revealAt[of s row col cl0 s']) simp_all
next
  case (first cl0 s1)
  note fc = first_click[OF assms(1) first(5) first(1) first(2) first(3) first(4) first(6)]
  from fc(3) obtain cl where cl: "cellAt (grid (started s1)) row col = Some cl"
    "\<not> isFlagged cl" "\<not> isRevealed cl" "\<not> isMine cl" by blast
  from fc(1) started_fields(7)[of s1] fc(2) cl(1,2,3) _ first(7) show ?thesis
    by (rule gameInv_revealAt) (simp add: cl(4))
qed

lemma revealStep_refl: "revealStep r c x x"
  by (simp add: revealStep_def)

lemma revealStep_trans: "revealStep r c x y \<Longrightarrow> revealStep r c y z \<Longrightarrow> revealStep r c x z"
  by (simp add: revealStep_def)

lemma grows_cellsRel: "grows g g' \<Longrightarrow> cellsRel revealStep g g'"
  unfolding grows_def cellsRel_def revealStep_def by fastforce

lemma endGame_won:
  "endGame True s = Inr s' \<Longrightarrow>
   grid s' = grid s \<and> rows s' = rows s \<and> cols s' = cols s \<and> mineCount s' = mineCount s \<and>
   revealedCount s' = revealedCount s \<and> gameStarted s' = gameStarted s \<and> gameOver s' \<and>
   face s' = FaceWin"
  by (auto simp: endGame_def Let_def stopTimer_def)

lemma revealAt_effect:
  assumes "wfGame s2" and "revealAt s2 row col = Inr s'"
  shows "wfGame s'" "rows s' = rows s2" "cols s' = cols s2" "mineCount s' = mineCount s2"
    "gameStarted s' = gameStarted s2"
    "cellsRel revealStep (grid s2) (grid s')"
    "\<not> gameOver s' \<longrightarrow> revealedAt (grid s') (row, col) \<or> flaggedAt (grid s') (row, col)"
proof -
  have "wfGame s' \<and> rows s' = rows s2 \<and> cols s' = cols s2 \<and> mineCount s' = mineCount s2 \<and>
    gameStarted s' = gameStarted s2 \<and> cellsRel revealStep (grid s2) (grid s') \<and>
    (\<not> gameOver s' \<longrightarrow> revealedAt (grid s') (row, col) \<or> flaggedAt (grid s') (row, col))"
    using assms(2)
  proof (cases rule: revealAt_cases)
    case (mine cl s3)
    note r = revealMine_effect[OF mine(3) mine(1) mine(2)]
    note f3 = besidesGrid_fields[OF r(1)]
    have wf3: "wfGame s3" using assms(1) r(2) f3(1,2) by (rule wfGame_cellsRel)
    from endGame_lost[OF wf3] mine(4) obtain
      l: "rows s' = rows s3" "cols s' = cols s3" "mineCount s' = mineCount s3"
         "gameStarted s' = gameStarted s3" "gameOver s'"
         "cellsRel lossReveal (grid s3) (grid s')"
      by (metis sum.inject(2))
    have rel: "cellsRel lossReveal (grid s2) (grid s')"
      using r(2) l(6) by (rule cellsRel_trans) (rule lossReveal_trans)
    have rel': "cellsRel revealStep (grid s2) (grid s')"
      using rel by (rule cellsRel_mono) (auto simp: lossReveal_def revealStep_def)
    have "wfGame s'" using assms(1) rel by (rule wfGame_cellsRel) (simp_all add: l f3)
    with l f3 rel' show ?thesis by simp
  next
    case (safe cl s3)
    from revealCell_onlyReveals(1)[OF assms(1), of row col] safe(3) have o: "onlyReveals s2 s3"
      by auto
    note f = besidesReveal_fields[OF o[unfolded onlyReveals_def, THEN conjunct1]]
    have wf3: "wfGame s3" using o assms(1) by (rule onlyReveals_wfGame)
    have rel: "cellsRel revealStep (grid s2) (grid s3)"
      using onlyReveals_grows[OF o] by (rule grows_cellsRel)
    have inb: "inBounds s2 (row, col)"
      using wfGame_inBounds[OF assms(1), of "(row, col)"] safe(1) by simp
    with flood_covers(1)[OF assms(1) safe(3)]
    have cov: "revealedAt (grid s3) (row, col) \<or> flaggedAt (grid s3) (row, col)" by simp
    from safe(4) show ?thesis
    proof
      assume "checkWin s3 \<and> endGame True s3 = Inr s'"
      with endGame_won[of s3 s'] wf3 rel f show ?thesis by (simp add: wfGame_def)
    next
      assume "\<not> checkWin s3 \<and> s' = s3"
      with wf3 rel f cov show ?thesis by simp
    qed
  qed
  then show "wfGame s'" "rows s' = rows s2" "cols s' = cols s2" "mineCount s' = mineCount s2"
    "gameStarted s' = gameStarted s2"
    "cellsRel revealStep (grid s2) (grid s')"
    "\<not> gameOver s' \<longrightarrow> revealedAt (grid s') (row, col) \<or> flaggedAt (grid s') (row, col)"
    by simp_all
qed

lemma handleReveal_effect:
  assumes "wfGame s" and "handleReveal s row col = Inr s'"
  shows "wfGame s'" "rows s' = rows s" "cols s' = cols s" "mineCount s' = mineCount s"
    "gameStarted s \<longrightarrow> gameStarted s'"
    "cellsRel revealStep (grid s) (grid s')"
    "\<not> gameOver s' \<longrightarrow> revealedAt (grid s') (row, col) \<or> flaggedAt (grid s') (row, col)"
    "gameOver s \<longrightarrow> s' = s"
proof -
  have "wfGame s' \<and> rows s' = rows s \<and> cols s' = cols s \<and> mineCount s' = mineCount s \<and>
    (gameStarted s \<longrightarrow> gameStarted s') \<and> cellsRel revealStep (grid s) (grid s') \<and>
    (\<not> gameOver s' \<longrightarrow> revealedAt (grid s') (row, col) \<or> flaggedAt (grid s') (row, col)) \<and>
    (gameOver s \<longrightarrow> s' = s)"
    using assms(2)
  proof (cases rule: handleReveal_cases)
    case over
    with assms(1) show ?thesis by (simp add: cellsRel_refl revealStep_refl)
  next
    case (closed cl0)
    with assms(1) show ?thesis
      by (auto simp: cellsRel_refl revealStep_refl revealedAt_def flaggedAt_def)
  next
    case (running cl0)
    from revealAt_effect[OF assms(1) running(6)] running(1,5) show ?thesis by simp
  next
    case (first cl0 s1)
    note e = placeMines_effect[OF first(6) assms(1)]
    note sf = started_fields[of s1]
    have wf2: "wfGame (started s1)" using e(10) by (simp add: wfGame_def sf)
    note r = revealAt_effect[OF wf2 first(7)]
    have rel1: "cellsRel revealStep (grid s) (grid (started s1))"
      unfolding sf using e(9) by (rule cellsRel_mono) (simp add: placement_def revealStep_def)
    have "cellsRel revealStep (grid s) (grid s')"
      using rel1 r(6) by (rule cellsRel_trans) (rule revealStep_trans)
    with r e first(1,5) show ?thesis by (simp add: sf)
  qed
  then show "wfGame s'" "rows s' = rows s" "cols s' = cols s" "mineCount s' = mineCount s"
    "gameStarted s \<longrightarrow> gameStarted s'"
    "cellsRel revealStep (grid s) (grid s')"
    "\<not> gameOver s' \<longrightarrow> revealedAt (grid s') (row, col) \<or> flaggedAt (grid s') (row, col)"
    "gameOver s \<longrightarrow> s' = s"
    by simp_all
qed

lemma getNeighbors_filter: "getNeighbors s row col = filter (inBounds s) (neighborsOf row col)"
proof -
  have "concat (map (\<lambda>(dr, dc).
            if row + dr \<ge> 0 \<and> row + dr < int (rows s) \<and> col + dc \<ge> 0 \<and> col + dc < int (cols s)
            then [(row + dr, col + dc)] else []) ds) =
        filter (inBounds s) (map (\<lambda>(dr, dc). (row + dr, col + dc)) ds)" for ds
    by (induction ds) (auto simp: inBounds_def)
  then show ?thesis by (simp add: getNeighbors_def neighborsOf_def)
qed

lemma set_getNeighbors: "set (getNeighbors s row col) = {q. adjacent (row, col) q \<and> inBounds s q}"
  by (auto simp: getNeighbors_filter set_neighborsOf)

lemma distinct_getNeighbors: "distinct (getNeighbors s row col)"
  by (simp add: getNeighbors_filter distinct_neighborsOf)

lemma handleChord_flags_eq:
  assumes "wfGame s" and "\<forall>q \<in> set ns. inBounds s q"
  shows "handleChord_flags s ns k = Inr (k + length (filter (flaggedAt (grid s)) ns))"
  using assms(2)
proof (induction ns arbitrary: k)
  case Nil
  then show ?case by simp
next
  case (Cons q ns)
  obtain nr nc where q: "q = (nr, nc)" by (cases q)
  from Cons.prems wfGame_inBounds[OF assms(1), of q] obtain cl where
    cl: "cellAt (grid s) nr nc = Some cl" by (auto simp: q)
  then have f: "flaggedAt (grid s) (nr, nc) = isFlagged cl" by (simp add: flaggedAt_def)
  from Cons.prems have "\<forall>q \<in> set ns. inBounds s q" by simp
  from Cons.IH[OF this] cl f show ?case by (simp add: q)
qed

lemma handleChord_flags_count:
  assumes "wfGame s"
  shows "handleChord_flags s (getNeighbors s row col) 0 = Inr (flaggedNeighbors s row col)"
proof -
  have "length (filter (flaggedAt (grid s)) (getNeighbors s row col)) =
        card ({q. flaggedAt (grid s) q} \<inter> set (getNeighbors s row col))"
    using distinct_getNeighbors by (rule distinct_length_filter)
  also have "{q. flaggedAt (grid s) q} \<inter> set (getNeighbors s row col) =
             {q. adjacent (row, col) q \<and> inBounds s q \<and> flaggedAt (grid s) q}"
    unfolding set_getNeighbors by auto
  finally show ?thesis
    using handleChord_flags_eq[OF assms, of "getNeighbors s row col" 0]
    by (simp add: set_getNeighbors flaggedNeighbors_def)
qed

lemma handleChord_unfold:
  assumes "wfGame s" and "cellAt (grid s) row col = Some cl" and "isRevealed cl"
    and "neighborMines cl \<noteq> 0"
  shows "handleChord s row col =
         (if flaggedNeighbors s row col = neighborMines cl
          then handleChord_reveal s (getNeighbors s row col) else Inr s)"
  using assms(2,3,4) by (simp add: handleChord_def Let_def handleChord_flags_count[OF assms(1)])

lemma handleChord_reveal_revealEach:
  assumes "wfGame s" and "\<forall>q \<in> set ns. inBounds s q"
  shows "handleChord_reveal s ns = revealEach s ns"
  using assms
proof (induction ns arbitrary: s)
  case Nil
  then show ?case by simp
next
  case (Cons q ns)
  obtain nr nc where q: "q = (nr, nc)" by (cases q)
  from Cons.prems wfGame_inBounds[OF Cons.prems(1), of q] obtain cl where
    cl: "cellAt (grid s) nr nc = Some cl" by (auto simp: q)
  from Cons.prems(2) have rest: "\<forall>q \<in> set ns. inBounds s q" by simp
  show ?case
  proof (cases "\<not> isFlagged cl \<and> \<not> isRevealed cl")
    case True
    show ?thesis
    proof (cases "handleReveal s nr nc")
      case (Inl e)
      with cl True show ?thesis by (simp add: q)
    next
      case (Inr s1)
      note e = handleReveal_effect[OF Cons.prems(1) Inr]
      from rest e(2,3) have "\<forall>q \<in> set ns. inBounds s1 q" by (simp add: inBounds_def)
      from Cons.IH[OF e(1) this] cl True Inr show ?thesis by (simp add: q)
    qed
  next
    case False
    have "handleReveal s nr nc = Inr s"
    proof (cases "gameOver s")
      case True
      then show ?thesis by (rule handleReveal_over)
    next
      case ngo: False
      from False have "isFlagged cl \<or> isRevealed cl" by blast
      with ngo cl show ?thesis by (rule handleReveal_closed)
    qed
    with Cons.IH[OF Cons.prems(1) rest] cl False show ?thesis by (auto simp: q)
  qed
qed

lemma revealEach_over: "gameOver s \<Longrightarrow> revealEach s ns = Inr s"
proof (induction ns)
  case Nil
  then show ?case by simp
next
  case (Cons q ns)
  obtain nr nc where q: "q = (nr, nc)" by (cases q)
  from Cons show ?case by (simp add: q handleReveal_over)
qed

lemma revealStep_revealedAt:
  assumes "cellsRel revealStep g g'"
  shows "revealedAt g p \<Longrightarrow> revealedAt g' p" and "flaggedAt g' p = flaggedAt g p"
proof -
  show "revealedAt g p \<Longrightarrow> revealedAt g' p"
  proof -
    assume r: "revealedAt g p"
    then obtain cl where cl: "cellAt g (fst p) (snd p) = Some cl" "isRevealed cl"
      by (auto simp: revealedAt_def split: option.splits)
    from cellsRelD[OF assms cl(1)] cl(2) show "revealedAt g' p"
      by (auto simp: revealedAt_def revealStep_def)
  qed
  show "flaggedAt g' p = flaggedAt g p"
  proof (cases "cellAt g (fst p) (snd p)")
    case None
    with cellsRel_None[OF assms, of "fst p" "snd p"] show ?thesis by (simp add: flaggedAt_def)
  next
    case (Some cl)
    from cellsRelD[OF assms Some] Some show ?thesis by (auto simp: flaggedAt_def revealStep_def)
  qed
qed

lemma revealEach_effect:
  assumes "wfGame s" and "revealEach s ns = Inr s'"
  shows "wfGame s' \<and> rows s' = rows s \<and> cols s' = cols s \<and> mineCount s' = mineCount s \<and>
         cellsRel revealStep (grid s) (grid s') \<and>
         (\<not> gameOver s' \<longrightarrow> (\<forall>q \<in> set ns. revealedAt (grid s') q \<or> flaggedAt (grid s') q))"
  using assms
proof (induction ns arbitrary: s)
  case Nil
  then show ?case by (simp add: cellsRel_refl revealStep_refl)
next
  case (Cons q ns)
  obtain nr nc where q: "q = (nr, nc)" by (cases q)
  from Cons.prems(2) obtain s1 where s1: "handleReveal s nr nc = Inr s1"
    and rest: "revealEach s1 ns = Inr s'"
    by (cases "handleReveal s nr nc") (simp_all add: q)
  note e = handleReveal_effect[OF Cons.prems(1) s1]
  from Cons.IH[OF e(1) rest] have IH: "wfGame s'" "rows s' = rows s1" "cols s' = cols s1"
    "mineCount s' = mineCount s1" "cellsRel revealStep (grid s1) (grid s')"
    "\<not> gameOver s' \<longrightarrow> (\<forall>q \<in> set ns. revealedAt (grid s') q \<or> flaggedAt (grid s') q)"
    by simp_all
  have rel: "cellsRel revealStep (grid s) (grid s')"
    using e(6) IH(5) by (rule cellsRel_trans) (rule revealStep_trans)
  have here: "\<not> gameOver s' \<longrightarrow> revealedAt (grid s') (nr, nc) \<or> flaggedAt (grid s') (nr, nc)"
  proof
    assume ngo: "\<not> gameOver s'"
    have "\<not> gameOver s1"
    proof
      assume "gameOver s1"
      with rest revealEach_over[of s1 ns] have "s' = s1" by simp
      with ngo \<open>gameOver s1\<close> show False by simp
    qed
    with e(7) have "revealedAt (grid s1) (nr, nc) \<or> flaggedAt (grid s1) (nr, nc)" by simp
    with revealStep_revealedAt[OF IH(5)]
    show "revealedAt (grid s') (nr, nc) \<or> flaggedAt (grid s') (nr, nc)" by blast
  qed
  from IH e rel here show ?case by (simp add: q)
qed

lemma chordGood_reached: "run chordStart [Reveal 0 0, Flag 1 2] = Inr chordGood"
  by code_simp

lemma chordWrong_reached: "run chordStart [Reveal 0 0, Flag 0 2] = Inr chordWrong"
  by code_simp

lemma gameInv_revealEach:
  assumes "gameInv s" and "revealEach s ns = Inr s'"
  shows "gameInv s'"
  using assms
proof (induction ns arbitrary: s)
  case Nil
  then show ?case by simp
next
  case (Cons q ns)
  obtain nr nc where q: "q = (nr, nc)" by (cases q)
  from Cons.prems(2) obtain s1 where s1: "handleReveal s nr nc = Inr s1"
    and rest: "revealEach s1 ns = Inr s'"
    by (cases "handleReveal s nr nc") (simp_all add: q)
  from gameInv_handleReveal[OF Cons.prems(1) s1] rest show ?case by (rule Cons.IH)
qed

lemma gameInv_wfGame: "gameInv s \<Longrightarrow> wfGame s"
  by (simp add: gameInv_def coreInv_def)

lemma gameInv_handleChord:
  assumes "gameInv s" and "handleChord s row col = Inr s'"
  shows "gameInv s'"
proof -
  note wf = gameInv_wfGame[OF assms(1)]
  from assms(2) obtain cl where cl: "cellAt (grid s) row col = Some cl"
    by (cases "cellAt (grid s) row col") (simp_all add: handleChord_def)
  show ?thesis
  proof (cases "\<not> isRevealed cl \<or> neighborMines cl = 0")
    case True
    with assms cl show ?thesis by (simp add: handleChord_def)
  next
    case False
    then have r: "isRevealed cl" and nz: "neighborMines cl \<noteq> 0" by simp_all
    note u = handleChord_unfold[OF wf cl r nz]
    have inb: "\<forall>q \<in> set (getNeighbors s row col). inBounds s q" by (simp add: set_getNeighbors)
    note re = handleChord_reveal_revealEach[OF wf inb]
    show ?thesis
    proof (cases "flaggedNeighbors s row col = neighborMines cl")
      case True
      with assms(2) have "revealEach s (getNeighbors s row col) = Inr s'" by (simp add: u re)
      with assms(1) show ?thesis by (rule gameInv_revealEach)
    next
      case False
      with assms show ?thesis by (simp add: u)
    qed
  qed
qed

lemma gameInv_useHint:
  assumes "gameInv s" and "useHint s = Inr (s', sel)"
  shows "gameInv s'"
proof -
  have "s' = s \<or> s' = s\<lparr>randoms := tl (randoms s), hints := hints s - 1\<rparr>"
    using assms(2)
    by (auto simp: useHint_def Let_def split: if_splits sum.splits list.splits)
  then show ?thesis
  proof
    assume "s' = s"
    with assms(1) show ?thesis by simp
  next
    assume "s' = s\<lparr>randoms := tl (randoms s), hints := hints s - 1\<rparr>"
    then show ?thesis using assms(1) gameInv_cong[of s' s] by simp
  qed
qed

lemma gameInv_timerTick:
  assumes "gameInv s" and "timerRunning s" and "timerTick s = Inr s'"
  shows "gameInv s'"
proof -
  from assms(1) have "phaseOk s" by (simp add: gameInv_def coreInv_def)
  with assms(2) have st: "gameStarted s" "\<not> gameOver s"
    by (auto simp: phaseOk_def)
  show ?thesis
  proof (cases "isTimeAttack s")
    case False
    with assms(3) have "s' = s\<lparr>timer := timer s + 1\<rparr>" by (simp add: timerTick_def)
    then show ?thesis using assms(1) gameInv_cong[of s' s] by simp
  next
    case True
    define s1 where "s1 = s\<lparr>timer := timer s - 1\<rparr>"
    have inv1: "gameInv s1" using assms(1) gameInv_cong[of s1 s] by (simp add: s1_def)
    have f1: "gameStarted s1" "\<not> gameOver s1" using st by (simp_all add: s1_def)
    show ?thesis
    proof (cases "timer s1 \<le> 0")
      case False
      with assms(3) True have "s' = s1" by (simp add: timerTick_def s1_def Let_def)
      with inv1 show ?thesis by simp
    next
      case up: True
      with assms(3) True have e: "endGame False s1 = Inr s'"
        by (simp add: timerTick_def s1_def Let_def)
      from endGame_lost[OF gameInv_wfGame[OF inv1]] e obtain
        l: "rows s' = rows s1" "cols s' = cols s1" "mineCount s' = mineCount s1"
           "revealedCount s' = revealedCount s1" "gameStarted s' = gameStarted s1"
           "gameOver s'" "face s' = FaceLose" "\<not> timerRunning s'"
           "cellsRel lossReveal (grid s1) (grid s')"
        by (metis sum.inject(2))
      from inv1 f1 l show ?thesis by (rule gameInv_lost)
    qed
  qed
qed

lemma gameInv_stopTimer:
  assumes "gameInv s"
  shows "gameInv (stopTimer s)"
proof -
  have f: "grid (stopTimer s) = grid s" "rows (stopTimer s) = rows s"
    "cols (stopTimer s) = cols s" "mineCount (stopTimer s) = mineCount s"
    "revealedCount (stopTimer s) = revealedCount s" "gameOver (stopTimer s) = gameOver s"
    "gameStarted (stopTimer s) = gameStarted s" "face (stopTimer s) = face s"
    "\<not> timerRunning (stopTimer s)"
    by (simp_all add: stopTimer_def)
  from assms have c: "wfGame s" "gameStarted s \<longrightarrow> numbersExact s" "freshOk s" "countOk s"
    "cellsOk s" "phaseOk s" "winOk s"
    by (simp_all add: gameInv_def coreInv_def)
  have "wfGame (stopTimer s)" using c(1) by (simp add: wfGame_def f)
  moreover have "gameStarted (stopTimer s) \<longrightarrow> numbersExact (stopTimer s)"
    using c(2) numbersExact_cong[of "stopTimer s" s] by (simp add: f)
  moreover have "freshOk (stopTimer s)" using c(3) by (simp add: freshOk_def f)
  moreover have "countOk (stopTimer s)" using c(4) by (simp add: countOk_def f)
  moreover have "cellsOk (stopTimer s)" using c(5) by (simp add: cellsOk_def f)
  moreover have "phaseOk (stopTimer s)" using c(6) by (simp add: phaseOk_def f)
  moreover have "winOk (stopTimer s)" using c(7) by (simp add: winOk_def checkWin_def f)
  ultimately show ?thesis by (simp add: gameInv_def coreInv_def)
qed

lemma gameInv_step:
  assumes "gameInv s" and "step s a = Inr s'"
  shows "gameInv s'"
proof (cases a)
  case (Reveal row col)
  with assms show ?thesis by (simp add: gameInv_handleReveal)
next
  case (Flag row col)
  with assms show ?thesis by (simp add: gameInv_handleFlag)
next
  case (Chord row col)
  with assms show ?thesis by (auto simp: gameInv_handleChord split: if_splits)
next
  case Hint
  with assms(2) obtain sel where "useHint s = Inr (s', sel)"
    by (cases "useHint s") (auto split: prod.splits)
  with assms(1) show ?thesis by (rule gameInv_useHint)
next
  case Tick
  with assms show ?thesis by (auto simp: gameInv_timerTick split: if_splits)
next
  case (NewGame d)
  with assms(2) show ?thesis by (auto simp: gameInv_initGame)
next
  case (StartGame mode d)
  with assms(2) show ?thesis by (auto simp: startGame_def gameInv_initGame)
next
  case (TimeLimit n)
  with assms(2) have "s' = s\<lparr>timeAttackLimit := n\<rparr>" by simp
  then show ?thesis using assms(1) gameInv_cong[of s' s] by simp
next
  case BackToMenu
  with assms show ?thesis by (auto simp: gameInv_stopTimer)
qed

lemma reachable_gameInv: "reachable s \<Longrightarrow> gameInv s"
proof (induction rule: reachable.induct)
  case (reachable_init d s0)
  show ?case by (rule gameInv_initGame)
next
  case (reachable_step s a s')
  from reachable_step(3,2) show ?case by (rule gameInv_step)
qed

lemma reachable_run: "reachable s \<Longrightarrow> run s as = Inr s' \<Longrightarrow> reachable s'"
proof (induction as arbitrary: s)
  case Nil
  then show ?case by simp
next
  case (Cons a as)
  from Cons.prems(2) obtain s1 where s1: "step s a = Inr s1" and rest: "run s1 as = Inr s'"
    by (cases "step s a") simp_all
  from reachable_step[OF Cons.prems(1) s1] rest show ?case by (rule Cons.IH)
qed

lemma reachable_demoStart: "reachable demoStart"
  unfolding demoStart_def by (rule reachable_init)

lemma demoLost_reached: "run demoStart [Reveal 0 0, Flag 0 3, Reveal 0 5] = Inr demoLost"
  by code_simp

lemma reachable_demoLost: "reachable demoLost"
  using reachable_demoStart demoLost_reached by (rule reachable_run)

lemma reachable_demoRunning: "reachable demoRunning"
proof -
  have "run demoStart [Reveal 0 0] = Inr demoRunning" by (simp add: demoRunning_reached)
  with reachable_demoStart show ?thesis by (rule reachable_run)
qed

lemma demoWon_reached: "handleReveal demoRunning 0 4 = Inr demoWon"
  by code_simp

subsection \<open>Mines in the reachable states\<close>

lemma revealAllMines_loop_exact:
  assumes "wfGame s" and "\<forall>p \<in> set cs. inBounds s p"
  shows "\<exists>s'. revealAllMines_loop s cs = Inr s' \<and> besidesGrid s' = besidesGrid s \<and>
           map length (grid s') = map length (grid s) \<and>
           (\<forall>r c. cellAt (grid s') r c =
              map_option (\<lambda>x. if (r, c) \<in> set cs \<and> isMine x then x\<lparr>isRevealed := True\<rparr> else x)
                (cellAt (grid s) r c))"
  using assms
proof (induction cs arbitrary: s)
  case Nil
  then show ?case by (simp add: option.map_ident)
next
  case (Cons p cs)
  obtain r0 c0 where p: "p = (r0, c0)" by (cases p)
  from Cons.prems(2) have inb: "inBounds s (r0, c0)" and rest: "\<forall>p \<in> set cs. inBounds s p"
    by (simp_all add: p)
  from inb wfGame_cellAt[OF Cons.prems(1), of r0 c0] obtain cl where
    cl: "cellAt (grid s) r0 c0 = Some cl" by (auto simp: inBounds_def)
  show ?case
  proof (cases "isMine cl")
    case False
    from Cons.IH[OF Cons.prems(1) rest] obtain s' where
      s': "revealAllMines_loop s cs = Inr s'" "besidesGrid s' = besidesGrid s"
        "map length (grid s') = map length (grid s)"
        "\<And>r c. cellAt (grid s') r c =
              map_option (\<lambda>x. if (r, c) \<in> set cs \<and> isMine x then x\<lparr>isRevealed := True\<rparr> else x)
                (cellAt (grid s) r c)"
      by blast
    have "cellAt (grid s') r c =
              map_option (\<lambda>x. if (r, c) \<in> set (p # cs) \<and> isMine x then x\<lparr>isRevealed := True\<rparr> else x)
                (cellAt (grid s) r c)" for r c
    proof (cases "(r, c) = (r0, c0)")
      case True
      with cl False show ?thesis by (simp add: s'(4) p)
    next
      case ne: False
      then show ?thesis by (cases "cellAt (grid s) r c") (auto simp: s'(4) p)
    qed
    with s'(1,2,3) cl False show ?thesis by (simp add: p)
  next
    case True
    define s1 where "s1 = s\<lparr>grid := setCell (grid s) r0 c0 (cl\<lparr>isRevealed := True\<rparr>)\<rparr>"
    have step: "revealAllMines_loop s (p # cs) = revealAllMines_loop s1 cs"
      using cl True by (simp add: p s1_def)
    have b1: "besidesGrid s1 = besidesGrid s" by (simp add: s1_def besidesGrid_def)
    have sh1: "map length (grid s1) = map length (grid s)" by (simp add: s1_def)
    have wf1: "wfGame s1" using Cons.prems(1) by (simp add: wfGame_def s1_def)
    have rest1: "\<forall>p \<in> set cs. inBounds s1 p" using rest by (simp add: inBounds_def s1_def)
    have c1: "cellAt (grid s1) r c =
        (if r = r0 \<and> c = c0 then Some (cl\<lparr>isRevealed := True\<rparr>) else cellAt (grid s) r c)" for r c
      by (simp add: s1_def cellAt_setCell[OF cl])
    from Cons.IH[OF wf1 rest1] obtain s' where
      s': "revealAllMines_loop s1 cs = Inr s'" "besidesGrid s' = besidesGrid s1"
        "map length (grid s') = map length (grid s1)"
        "\<And>r c. cellAt (grid s') r c =
              map_option (\<lambda>x. if (r, c) \<in> set cs \<and> isMine x then x\<lparr>isRevealed := True\<rparr> else x)
                (cellAt (grid s1) r c)"
      by blast
    have "cellAt (grid s') r c =
              map_option (\<lambda>x. if (r, c) \<in> set (p # cs) \<and> isMine x then x\<lparr>isRevealed := True\<rparr> else x)
                (cellAt (grid s) r c)" for r c
    proof (cases "r = r0 \<and> c = c0")
      case here: True
      with cl True show ?thesis by (simp add: s'(4) c1 p)
    next
      case ne: False
      then have "(r, c) \<noteq> (r0, c0)" by simp
      with ne show ?thesis by (cases "cellAt (grid s) r c") (auto simp: s'(4) c1 p)
    qed
    with s'(1,2,3) b1 sh1 step show ?thesis by simp
  qed
qed

lemma revealAllMines_exact:
  assumes "wfGame s"
  shows "\<exists>s'. revealAllMines s = Inr s' \<and> besidesGrid s' = besidesGrid s \<and>
           map length (grid s') = map length (grid s) \<and>
           (\<forall>r c. cellAt (grid s') r c =
              map_option (\<lambda>x. if isMine x then x\<lparr>isRevealed := True\<rparr> else x)
                (cellAt (grid s) r c))"
proof -
  have "\<forall>p \<in> set (allCoords s). inBounds s p" by (simp add: set_allCoords)
  from revealAllMines_loop_exact[OF assms this] obtain s' where
    s': "revealAllMines s = Inr s'" "besidesGrid s' = besidesGrid s"
      "map length (grid s') = map length (grid s)"
      "\<And>r c. cellAt (grid s') r c =
              map_option (\<lambda>x. if (r, c) \<in> set (allCoords s) \<and> isMine x
                               then x\<lparr>isRevealed := True\<rparr> else x)
                (cellAt (grid s) r c)"
    unfolding revealAllMines_def by blast
  have "cellAt (grid s') r c =
              map_option (\<lambda>x. if isMine x then x\<lparr>isRevealed := True\<rparr> else x)
                (cellAt (grid s) r c)" for r c
  proof (cases "cellAt (grid s) r c")
    case None
    then show ?thesis by (simp add: s'(4))
  next
    case (Some x)
    with wfGame_inBounds[OF assms, of "(r, c)"] have "inBounds s (r, c)" by simp
    with Some show ?thesis by (simp add: s'(4) set_allCoords)
  qed
  with s'(1,2,3) show ?thesis by simp
qed

lemma revealAllMines_mineRevealed:
  assumes "wfGame s" and "revealAllMines s = Inr s'"
  shows "cellsRel mineRevealed (grid s) (grid s')"
  using revealAllMines_exact[OF assms(1)] assms(2)
  by (auto simp: cellsRel_def mineRevealed_def)

lemma endGame_lost_mines:
  assumes "wfGame s" and "endGame False s = Inr s'"
  shows "cellsRel mineRevealed (grid s) (grid s')"
proof -
  define s1 where "s1 = (stopTimer (s\<lparr>gameOver := True\<rparr>))\<lparr>face := FaceLose\<rparr>"
  have e: "endGame False s = revealAllMines s1" by (simp add: endGame_def s1_def Let_def)
  have w1: "wfGame s1" using assms(1) by (simp add: wfGame_def s1_def stopTimer_def)
  have g1: "grid s1 = grid s" by (simp add: s1_def stopTimer_def)
  from revealAllMines_mineRevealed[OF w1] e assms(2) g1 show ?thesis by simp
qed

lemma noCell_after:
  assumes "cellsRel R g g'" and "\<And>r c x y. R r c x y \<Longrightarrow> \<not> P y"
  shows "noCell P g'"
  unfolding noCell_def
proof (intro allI impI)
  fix r c cl'
  assume c': "cellAt g' r c = Some cl'"
  with cellsRel_None[OF assms(1), of r c] obtain cl where cl: "cellAt g r c = Some cl"
    by (cases "cellAt g r c") auto
  from cellsRelD[OF assms(1) cl] c' have "R r c cl cl'" by auto
  then show "\<not> P cl'" by (rule assms(2))
qed

lemma minesOk_cong:
  assumes "grid s' = grid s" "mineCount s' = mineCount s" "gameStarted s' = gameStarted s"
    "gameOver s' = gameOver s" "face s' = face s"
  shows "minesOk s' = minesOk s"
  using assms by (simp add: minesOk_def)

lemma minesOk_initGame: "minesOk (initGame d s)"
proof -
  have "noCell (\<lambda>c. isRevealed c \<and> isMine c) (grid (initGame d s))"
    unfolding noCell_def
  proof (intro allI impI)
    fix r c cl
    assume "cellAt (grid (initGame d s)) r c = Some cl"
    then have "cellAt (grid (createGrid (s\<lparr>rows := s_rows d, cols := s_cols d, mineCount := s_mines d,
          grid := [], flagCount := 0, revealedCount := 0,
          gameOver := False, gameStarted := False,
          timer := (if isTimeAttack s then timeAttackLimit s else 0),
          hints := 3, timerRunning := False\<rparr>))) r c = Some cl"
      by (simp add: initGame_def)
    then have "cl = \<lparr>isMine = False, isRevealed = False, isFlagged = False, neighborMines = 0\<rparr>"
      by (rule cellAt_createGrid)
    then show "\<not> (isRevealed cl \<and> isMine cl)" by simp
  qed
  moreover have "gameStarted (initGame d s) = False" "gameOver (initGame d s) = False"
    by (simp_all add: initGame_def createGrid_def)
  ultimately show ?thesis by (simp add: minesOk_def)
qed

lemma minesOk_endGame:
  assumes "wfGame s" and "gameStarted s" and "countCells isMine (grid s) = mineCount s"
    and "endGame False s = Inr s'"
  shows "minesOk s'"
proof -
  from endGame_lost[OF assms(1)] assms(4) obtain
    l: "mineCount s' = mineCount s" "gameStarted s' = gameStarted s" "gameOver s'"
       "face s' = FaceLose"
    by (metis sum.inject(2))
  note rel = endGame_lost_mines[OF assms(1,4)]
  have "countCells isMine (grid s') = countCells isMine (grid s)"
    using rel by (rule countCells_cellsRel) (simp add: mineRevealed_def)
  moreover have "noCell (\<lambda>c. isMine c \<and> \<not> isRevealed c) (grid s')"
    using rel by (rule noCell_after) (simp add: mineRevealed_def)
  ultimately show ?thesis using l assms(2,3) by (simp add: minesOk_def)
qed

lemma minesOk_revealAt:
  assumes "coreInv s2" and "gameStarted s2" and "\<not> gameOver s2" and "minesOk s2"
    and "revealAt s2 row col = Inr s'"
  shows "minesOk s'"
  using assms(5)
proof (cases rule: revealAt_cases)
  case (mine cl s3)
  from assms(1) have wf: "wfGame s2" by (simp add: coreInv_def)
  from assms(2,4) have cnt: "countCells isMine (grid s2) = mineCount s2" by (simp add: minesOk_def)
  note r = revealMine_effect[OF mine(3) mine(1) mine(2)]
  note f3 = besidesGrid_fields[OF r(1)]
  have wf3: "wfGame s3" using wf r(2) f3(1,2) by (rule wfGame_cellsRel)
  have "countCells isMine (grid s3) = countCells isMine (grid s2)"
    using r(2) by (rule countCells_cellsRel) (auto simp: lossReveal_def)
  with cnt f3(3) have cnt3: "countCells isMine (grid s3) = mineCount s3" by simp
  from assms(2) f3(7) have st3: "gameStarted s3" by simp
  from wf3 st3 cnt3 mine(4) show ?thesis by (rule minesOk_endGame)
next
  case (safe cl s3)
  from assms(1,2) have wf: "wfGame s2" and ne: "numbersExact s2" by (simp_all add: coreInv_def)
  from assms(2,3,4) have cnt: "countCells isMine (grid s2) = mineCount s2"
    and nrm: "noCell (\<lambda>c. isRevealed c \<and> isMine c) (grid s2)" by (simp_all add: minesOk_def)
  from revealCell_onlyReveals(1)[OF wf, of row col] safe(3) have o: "onlyReveals s2 s3" by auto
  note f = besidesReveal_fields[OF o[unfolded onlyReveals_def, THEN conjunct1]]
  have start: "\<not> mineAt (grid s2) (row, col)" using safe(1,2) by (simp add: mineAt_def)
  have rel: "cellsRel safeReveal (grid s2) (grid s3)"
    using wf ne start safe(3) by (rule revealCell_safeReveal)
  have "countCells isMine (grid s3) = countCells isMine (grid s2)"
    using rel by (rule countCells_cellsRel) (auto simp: safeReveal_def)
  with cnt f(3) have cnt3: "countCells isMine (grid s3) = mineCount s3" by simp
  have nrm3: "noCell (\<lambda>c. isRevealed c \<and> isMine c) (grid s3)"
    using rel nrm by (rule noCell_cellsRel) (auto simp: safeReveal_def)
  from assms(3) f(5) have ngo3: "\<not> gameOver s3" by simp
  from cnt3 nrm3 ngo3 have ok3: "minesOk s3" by (simp add: minesOk_def)
  from safe(4) show ?thesis
  proof
    assume w: "checkWin s3 \<and> endGame True s3 = Inr s'"
    with endGame_won[of s3 s'] have g: "grid s' = grid s3" "mineCount s' = mineCount s3"
      "face s' = FaceWin" by simp_all
    with cnt3 nrm3 show ?thesis by (simp add: minesOk_def)
  next
    assume "\<not> checkWin s3 \<and> s' = s3"
    with ok3 show ?thesis by simp
  qed
qed

lemma minesOk_first:
  assumes "gameInv s" and "\<not> gameStarted s" and "\<not> gameOver s"
    and "placeMines s row col = Inr s1"
  shows "minesOk (started s1)"
proof -
  from assms(1) have wf: "wfGame s" and fr: "freshOk s" by (simp_all add: gameInv_def coreInv_def)
  note e = placeMines_effect[OF assms(4) wf]
  note sf = started_fields[of s1]
  from fr assms(2) have nm: "noCell isMine (grid s)" and nr: "noCell isRevealed (grid s)"
    by (simp_all add: freshOk_def)
  have nr1: "noCell isRevealed (grid s1)"
    using e(9) nr by (rule noCell_cellsRel) (simp add: placement_def)
  have nrm: "noCell (\<lambda>c. isRevealed c \<and> isMine c) (grid s1)"
    by (rule noCell_mono[OF nr1]) simp
  from noCell_countCells[OF nm] e(12,3) have "countCells isMine (grid s1) = mineCount s1" by simp
  with nrm assms(3) e(5) show ?thesis by (simp add: minesOk_def sf)
qed

lemma minesOk_handleReveal:
  assumes "gameInv s" and "minesOk s" and "handleReveal s row col = Inr s'"
  shows "minesOk s'"
  using assms(3)
proof (cases rule: handleReveal_cases)
  case over
  with assms(2) show ?thesis by simp
next
  case (closed cl0)
  with assms(2) show ?thesis by simp
next
  case (running cl0)
  from assms(1) have "coreInv s" by (simp add: gameInv_def)
  from this running(5) running(1) assms(2) running(6) show ?thesis by (rule minesOk_revealAt)
next
  case (first cl0 s1)
  note fc = first_click[OF assms(1) first(5) first(1) first(2) first(3) first(4) first(6)]
  note ok = minesOk_first[OF assms(1) first(5) first(1) first(6)]
  from fc(1) started_fields(7)[of s1] fc(2) ok first(7) show ?thesis by (rule minesOk_revealAt)
qed

lemma minesOk_revealEach:
  assumes "gameInv s" and "minesOk s" and "revealEach s ns = Inr s'"
  shows "minesOk s'"
  using assms
proof (induction ns arbitrary: s)
  case Nil
  then show ?case by simp
next
  case (Cons q ns)
  obtain nr nc where q: "q = (nr, nc)" by (cases q)
  from Cons.prems(3) obtain s1 where s1: "handleReveal s nr nc = Inr s1"
    and rest: "revealEach s1 ns = Inr s'"
    by (cases "handleReveal s nr nc") (simp_all add: q)
  from gameInv_handleReveal[OF Cons.prems(1) s1] minesOk_handleReveal[OF Cons.prems(1,2) s1] rest
  show ?case by (rule Cons.IH)
qed

lemma minesOk_handleChord:
  assumes "gameInv s" and "minesOk s" and "handleChord s row col = Inr s'"
  shows "minesOk s'"
proof -
  note wf = gameInv_wfGame[OF assms(1)]
  from assms(3) obtain cl where cl: "cellAt (grid s) row col = Some cl"
    by (cases "cellAt (grid s) row col") (simp_all add: handleChord_def)
  show ?thesis
  proof (cases "\<not> isRevealed cl \<or> neighborMines cl = 0")
    case True
    with assms cl show ?thesis by (simp add: handleChord_def)
  next
    case False
    then have r: "isRevealed cl" and nz: "neighborMines cl \<noteq> 0" by simp_all
    note u = handleChord_unfold[OF wf cl r nz]
    have inb: "\<forall>q \<in> set (getNeighbors s row col). inBounds s q" by (simp add: set_getNeighbors)
    note re = handleChord_reveal_revealEach[OF wf inb]
    show ?thesis
    proof (cases "flaggedNeighbors s row col = neighborMines cl")
      case True
      with assms(3) have "revealEach s (getNeighbors s row col) = Inr s'" by (simp add: u re)
      with assms(1,2) show ?thesis by (rule minesOk_revealEach)
    next
      case False
      with assms show ?thesis by (simp add: u)
    qed
  qed
qed

lemma minesOk_handleFlag:
  assumes "minesOk s" and "handleFlag s row col = Inr s'"
  shows "minesOk s'"
proof -
  note e = handleFlag_effect[OF assms(2)]
  have c: "countCells isMine (grid s') = countCells isMine (grid s)"
    using e(9) by (rule countCells_cellsRel) (auto simp: flagOnly_def)
  have a: "noCell (\<lambda>c. isRevealed c \<and> isMine c) (grid s) \<Longrightarrow>
           noCell (\<lambda>c. isRevealed c \<and> isMine c) (grid s')"
    using e(9) by (rule noCell_cellsRel) (auto simp: flagOnly_def)
  have b: "noCell (\<lambda>c. isMine c \<and> \<not> isRevealed c) (grid s) \<Longrightarrow>
           noCell (\<lambda>c. isMine c \<and> \<not> isRevealed c) (grid s')"
    using e(9) by (rule noCell_cellsRel) (auto simp: flagOnly_def)
  from assms(1) a b show ?thesis by (auto simp: minesOk_def c e(3,5,6,7))
qed

lemma minesOk_useHint:
  assumes "minesOk s" and "useHint s = Inr (s', sel)"
  shows "minesOk s'"
proof -
  have "s' = s \<or> s' = s\<lparr>randoms := tl (randoms s), hints := hints s - 1\<rparr>"
    using assms(2)
    by (auto simp: useHint_def Let_def split: if_splits sum.splits list.splits)
  then show ?thesis
  proof
    assume "s' = s"
    with assms(1) show ?thesis by simp
  next
    assume "s' = s\<lparr>randoms := tl (randoms s), hints := hints s - 1\<rparr>"
    then show ?thesis using assms(1) minesOk_cong[of s' s] by simp
  qed
qed

lemma minesOk_timerTick:
  assumes "gameInv s" and "minesOk s" and "timerRunning s" and "timerTick s = Inr s'"
  shows "minesOk s'"
proof -
  from assms(1) have "phaseOk s" by (simp add: gameInv_def coreInv_def)
  with assms(3) have st: "gameStarted s" "\<not> gameOver s"
    by (auto simp: phaseOk_def)
  show ?thesis
  proof (cases "isTimeAttack s")
    case False
    with assms(4) have "s' = s\<lparr>timer := timer s + 1\<rparr>" by (simp add: timerTick_def)
    then show ?thesis using assms(2) minesOk_cong[of s' s] by simp
  next
    case True
    define s1 where "s1 = s\<lparr>timer := timer s - 1\<rparr>"
    have ok1: "minesOk s1" using assms(2) minesOk_cong[of s1 s] by (simp add: s1_def)
    have wf1: "wfGame s1" using gameInv_wfGame[OF assms(1)] by (simp add: wfGame_def s1_def)
    have f1: "gameStarted s1" using st by (simp add: s1_def)
    show ?thesis
    proof (cases "timer s1 \<le> 0")
      case False
      with assms(4) True have "s' = s1" by (simp add: timerTick_def s1_def Let_def)
      with ok1 show ?thesis by simp
    next
      case up: True
      with assms(4) True have e: "endGame False s1 = Inr s'"
        by (simp add: timerTick_def s1_def Let_def)
      from ok1 f1 have "countCells isMine (grid s1) = mineCount s1" by (simp add: minesOk_def)
      with wf1 f1 show ?thesis using e by (rule minesOk_endGame)
    qed
  qed
qed

lemma minesOk_step:
  assumes "gameInv s" and "minesOk s" and "step s a = Inr s'"
  shows "minesOk s'"
proof (cases a)
  case (Reveal row col)
  with assms show ?thesis by (simp add: minesOk_handleReveal)
next
  case (Flag row col)
  with assms show ?thesis by (simp add: minesOk_handleFlag)
next
  case (Chord row col)
  with assms show ?thesis by (auto simp: minesOk_handleChord split: if_splits)
next
  case Hint
  with assms(3) obtain sel where "useHint s = Inr (s', sel)"
    by (cases "useHint s") (auto split: prod.splits)
  with assms(2) show ?thesis by (rule minesOk_useHint)
next
  case Tick
  with assms show ?thesis by (auto simp: minesOk_timerTick split: if_splits)
next
  case (NewGame d)
  with assms(3) show ?thesis by (auto simp: minesOk_initGame)
next
  case (StartGame mode d)
  with assms(3) show ?thesis by (auto simp: startGame_def minesOk_initGame)
next
  case (TimeLimit n)
  with assms(3) have "s' = s\<lparr>timeAttackLimit := n\<rparr>" by simp
  then show ?thesis using assms(2) minesOk_cong[of s' s] by simp
next
  case BackToMenu
  with assms(3) have "s' = stopTimer s" by simp
  then show ?thesis using assms(2) minesOk_cong[of s' s] by (simp add: stopTimer_def)
qed

lemma reachable_minesOk: "reachable s \<Longrightarrow> minesOk s"
proof (induction rule: reachable.induct)
  case (reachable_init d s0)
  show ?case by (rule minesOk_initGame)
next
  case (reachable_step s a s')
  from reachable_gameInv[OF reachable_step(1)] reachable_step(3,2) show ?case
    by (rule minesOk_step)
qed

subsection \<open>Chords\<close>

lemma opened_trans: "opened r c x y \<Longrightarrow> opened r c y z \<Longrightarrow> opened r c x z"
  unfolding opened_def by auto

lemma revealAt_opened:
  assumes "wfGame s2" and "revealAt s2 row col = Inr s'"
  shows "cellsRel opened (grid s2) (grid s')"
  using assms(2)
proof (cases rule: revealAt_cases)
  case (mine cl s3)
  note r = revealMine_effect[OF mine(3) mine(1) mine(2)]
  note f3 = besidesGrid_fields[OF r(1)]
  have wf3: "wfGame s3" using assms(1) r(2) f3(1,2) by (rule wfGame_cellsRel)
  from endGame_lost[OF wf3] mine(4) obtain
    l: "cellsRel lossReveal (grid s3) (grid s')"
    by (metis sum.inject(2))
  have "cellsRel lossReveal (grid s2) (grid s')"
    using r(2) l by (rule cellsRel_trans) (rule lossReveal_trans)
  then show ?thesis by (rule cellsRel_mono) (auto simp: lossReveal_def opened_def)
next
  case (safe cl s3)
  from revealCell_onlyReveals(1)[OF assms(1), of row col] safe(3) have o: "onlyReveals s2 s3"
    by auto
  have g: "grows (grid s2) (grid s3)" using o by (rule onlyReveals_grows)
  have rel: "cellsRel opened (grid s2) (grid s3)"
    unfolding cellsRel_def
  proof (intro conjI allI impI)
    show "map length (grid s3) = map length (grid s2)" using g by (rule grows_shape)
  next
    fix r c x
    assume "cellAt (grid s2) r c = Some x"
    from growsD[OF g this] show "\<exists>y. cellAt (grid s3) r c = Some y \<and> opened r c x y"
      by (auto simp: opened_def)
  qed
  from safe(4) show ?thesis
  proof
    assume "checkWin s3 \<and> endGame True s3 = Inr s'"
    with endGame_won[of s3 s'] rel show ?thesis by simp
  next
    assume "\<not> checkWin s3 \<and> s' = s3"
    with rel show ?thesis by simp
  qed
qed

lemma handleReveal_opened:
  assumes "wfGame s" and "gameStarted s" and "handleReveal s row col = Inr s'"
  shows "cellsRel opened (grid s) (grid s')"
  using assms(3)
proof (cases rule: handleReveal_cases)
  case over
  then show ?thesis by (simp add: cellsRel_refl opened_def)
next
  case (closed cl0)
  then show ?thesis by (simp add: cellsRel_refl opened_def)
next
  case (running cl0)
  from assms(1) running(6) show ?thesis by (rule revealAt_opened)
next
  case (first cl0 s1)
  with assms(2) show ?thesis by simp
qed

lemma revealEach_opened:
  assumes "wfGame s" and "gameStarted s" and "revealEach s ns = Inr s'"
  shows "cellsRel opened (grid s) (grid s')"
  using assms
proof (induction ns arbitrary: s)
  case Nil
  then show ?case by (simp add: cellsRel_refl opened_def)
next
  case (Cons q ns)
  obtain nr nc where q: "q = (nr, nc)" by (cases q)
  from Cons.prems(3) obtain s1 where s1: "handleReveal s nr nc = Inr s1"
    and rest: "revealEach s1 ns = Inr s'"
    by (cases "handleReveal s nr nc") (simp_all add: q)
  note e = handleReveal_effect[OF Cons.prems(1) s1]
  from e(5) Cons.prems(2) have st1: "gameStarted s1" by simp
  from handleReveal_opened[OF Cons.prems(1,2) s1] Cons.IH[OF e(1) st1 rest]
  show ?case by (rule cellsRel_trans) (rule opened_trans)
qed

lemma countCells_all: "countCells (\<lambda>x. True) g = sum_list (map length g)"
  by (simp add: countCells_def)

text \<open>In a game that is won every cell without a mine is revealed.\<close>

lemma won_safe_revealed:
  assumes "gameInv s" and "minesOk s" and "face s = FaceWin"
  shows "noCell (\<lambda>c. \<not> isMine c \<and> \<not> isRevealed c) (grid s)"
proof -
  from assms(1) have wf: "wfGame s" and cnt: "countOk s" and ph: "phaseOk s" and wo: "winOk s"
    by (simp_all add: gameInv_def coreInv_def)
  from ph assms(3) have st: "gameStarted s" by (auto simp: phaseOk_def)
  with wo assms(3) have w: "checkWin s" by (simp add: winOk_def)
  from assms(2) st have m: "countCells isMine (grid s) = mineCount s" by (simp add: minesOk_def)
  let ?g = "grid s"
  have total: "countCells (\<lambda>x. True) ?g = rows s * cols s"
    using wf by (simp add: countCells_all wfGame_def sum_list_replicate)
  have a: "countCells (\<lambda>x. True \<and> isMine x) ?g + countCells (\<lambda>x. True \<and> \<not> isMine x) ?g =
           countCells (\<lambda>x. True) ?g"
    by (rule countCells_split)
  have b: "countCells (\<lambda>x. \<not> isMine x \<and> isRevealed x) ?g +
           countCells (\<lambda>x. \<not> isMine x \<and> \<not> isRevealed x) ?g = countCells (\<lambda>x. \<not> isMine x) ?g"
    by (rule countCells_split)
  have c: "countCells (\<lambda>x. \<not> isMine x \<and> isRevealed x) ?g =
           countCells (\<lambda>x. isRevealed x \<and> \<not> isMine x) ?g"
    by (simp add: conj_commute)
  from cnt have r: "revealedCount s = countCells (\<lambda>x. isRevealed x \<and> \<not> isMine x) ?g"
    by (simp add: countOk_def)
  from w have "int (revealedCount s) = int (rows s) * int (cols s) - int (mineCount s)"
    by (simp add: checkWin_def Let_def)
  then have "int (revealedCount s) + int (mineCount s) = int (rows s * cols s)" by simp
  then have e: "revealedCount s + mineCount s = rows s * cols s"
    by (metis of_nat_add of_nat_eq_iff)
  from a b c r m total e have "countCells (\<lambda>x. \<not> isMine x \<and> \<not> isRevealed x) ?g = 0" by simp
  then show ?thesis by (rule countCells_noCell)
qed

text \<open>
  A chord in a won game, or one that wins the game: the flags around the cell are as many
  as the mines around it, and they stand on mines, so every neighbour without a flag is
  free of a mine and revealed.
\<close>

lemma won_chord_revealed:
  assumes "gameInv s" and "minesOk s" and "face s = FaceWin"
    and "cellAt (grid s) row col = Some cl" and "isRevealed cl"
    and "flaggedNeighbors s row col = neighborMines cl"
    and "adjacent (row, col) q" and "inBounds s q" and "\<not> flaggedAt (grid s) q"
  shows "revealedAt (grid s) q"
proof -
  from assms(1) have wf: "wfGame s" and ph: "phaseOk s" and co: "cellsOk s"
    and ne: "gameStarted s \<longrightarrow> numbersExact s"
    by (simp_all add: gameInv_def coreInv_def)
  from ph assms(3) have st: "gameStarted s" by (auto simp: phaseOk_def)
  with ne have ne: "numbersExact s" by simp
  from assms(3) have nl: "\<not> (gameOver s \<and> face s = FaceLose)" by simp
  with assms(2) have nrm: "noCell (\<lambda>c. isRevealed c \<and> isMine c) (grid s)"
    by (simp add: minesOk_def)
  from nl co have nrf: "noCell (\<lambda>c. isRevealed c \<and> isFlagged c) (grid s)"
    by (simp add: cellsOk_def)
  note safe = won_safe_revealed[OF assms(1,2,3)]
  from nrm assms(4,5) have "\<not> isMine cl" by (auto simp: noCell_def)
  with ne assms(4) have n: "neighborMines cl = adjacentMines s row col"
    by (auto simp: numbersExact_def)
  let ?F = "{q. adjacent (row, col) q \<and> inBounds s q \<and> flaggedAt (grid s) q}"
  let ?M = "{q. adjacent (row, col) q \<and> inBounds s q \<and> mineAt (grid s) q}"
  have sub: "?F \<subseteq> ?M"
  proof
    fix p
    assume "p \<in> ?F"
    then have p: "adjacent (row, col) p" "inBounds s p" "flaggedAt (grid s) p" by simp_all
    from p(3) obtain cp where cp: "cellAt (grid s) (fst p) (snd p) = Some cp" "isFlagged cp"
      by (auto simp: flaggedAt_def split: option.splits)
    from nrf cp have "\<not> isRevealed cp" by (auto simp: noCell_def)
    with safe cp(1) have "isMine cp" by (auto simp: noCell_def)
    with cp(1) have "mineAt (grid s) p" by (simp add: mineAt_def)
    with p show "p \<in> ?M" by simp
  qed
  have fin: "finite ?M" by (rule finite_adjacent)
  have "card ?F = card ?M"
    using assms(6) n by (simp add: flaggedNeighbors_def adjacentMines_def)
  with sub fin have "?F = ?M" by (simp add: card_subset_eq)
  with assms(7,8,9) have nm: "\<not> mineAt (grid s) q" by blast
  from wfGame_inBounds[OF wf, of q] assms(8) obtain cq where
    cq: "cellAt (grid s) (fst q) (snd q) = Some cq" by auto
  with nm have "\<not> isMine cq" by (simp add: mineAt_def)
  with safe cq have "isRevealed cq" by (auto simp: noCell_def)
  with cq show ?thesis by (simp add: revealedAt_def)
qed

lemma reachable_handleChord:
  assumes "reachable s" and "handleChord s row col = Inr s'"
  shows "reachable s'"
proof (cases "gameOver s")
  case False
  with assms(2) have "step s (Chord row col) = Inr s'" by simp
  with assms(1) show ?thesis by (rule reachable_step)
next
  case True
  note wf = gameInv_wfGame[OF reachable_gameInv[OF assms(1)]]
  from assms(2) obtain cl where cl: "cellAt (grid s) row col = Some cl"
    by (cases "cellAt (grid s) row col") (simp_all add: handleChord_def)
  have "s' = s"
  proof (cases "\<not> isRevealed cl \<or> neighborMines cl = 0")
    case True
    with assms(2) cl show ?thesis by (simp add: handleChord_def)
  next
    case False
    then have r: "isRevealed cl" and nz: "neighborMines cl \<noteq> 0" by simp_all
    note u = handleChord_unfold[OF wf cl r nz]
    have inb: "\<forall>q \<in> set (getNeighbors s row col). inBounds s q" by (simp add: set_getNeighbors)
    note re = handleChord_reveal_revealEach[OF wf inb]
    from assms(2) show ?thesis
      by (simp add: u re revealEach_over[OF True] split: if_splits)
  qed
  with assms(1) show ?thesis by simp
qed

lemma beforeWin_reached: "run chordStart [Reveal 0 0, Flag 1 2, Chord 1 1, Chord 0 2] = Inr beforeWin"
  by code_simp

lemma reachable_chordStart: "reachable chordStart"
  unfolding chordStart_def by (rule reachable_init)

lemma reachable_beforeWin: "reachable beforeWin"
  using reachable_chordStart beforeWin_reached by (rule reachable_run)

lemma cellAt_showMines:
  "cellAt (showMines g) r c =
     map_option (\<lambda>x. if isMine x then x\<lparr>isRevealed := True\<rparr> else x) (cellAt g r c)"
  by (auto simp: cellAt_def showMines_def)

lemma shape_showMines: "map length (showMines g) = map length g"
  by (simp add: showMines_def comp_def)

lemma grid_eqI:
  assumes "map length g' = map length g" and "\<And>r c. cellAt g' r c = cellAt g r c"
  shows "g' = (g :: cell list list)"
proof (rule nth_equalityI)
  from assms(1) show l: "length g' = length g" by (metis length_map)
  fix i
  assume i: "i < length g'"
  have li: "length (g' ! i) = length (g ! i)" using assms(1) i l by (metis nth_map)
  show "g' ! i = g ! i"
  proof (rule nth_equalityI)
    show "length (g' ! i) = length (g ! i)" by (rule li)
    fix j
    assume j: "j < length (g' ! i)"
    from assms(2)[of "int i" "int j"] i j l li show "g' ! i ! j = g ! i ! j"
      by (simp add: cellAt_def)
  qed
qed

lemma revealAllMines_showMines:
  assumes "wfGame s"
  shows "revealAllMines s = Inr (s\<lparr>grid := showMines (grid s)\<rparr>)"
proof -
  from revealAllMines_exact[OF assms] obtain s' where
    s': "revealAllMines s = Inr s'" "besidesGrid s' = besidesGrid s"
      "map length (grid s') = map length (grid s)"
      "\<And>r c. cellAt (grid s') r c =
              map_option (\<lambda>x. if isMine x then x\<lparr>isRevealed := True\<rparr> else x)
                (cellAt (grid s) r c)"
    by blast
  have g: "grid s' = showMines (grid s)"
    by (rule grid_eqI) (simp_all add: s'(3,4) shape_showMines cellAt_showMines)
  have "s' = (besidesGrid s')\<lparr>grid := grid s'\<rparr>" by (simp add: besidesGrid_def)
  also have "\<dots> = (besidesGrid s)\<lparr>grid := grid s'\<rparr>" by (simp only: s'(2))
  also have "\<dots> = s\<lparr>grid := showMines (grid s)\<rparr>" by (simp add: besidesGrid_def g)
  finally show ?thesis using s'(1) by simp
qed

lemma endGame_lostFrom:
  assumes "wfGame s"
  shows "endGame False s = Inr (lostFrom s)"
proof -
  define s1 where "s1 = (stopTimer (s\<lparr>gameOver := True\<rparr>))\<lparr>face := FaceLose\<rparr>"
  have e: "endGame False s = revealAllMines s1" by (simp add: endGame_def s1_def Let_def)
  have w1: "wfGame s1" using assms by (simp add: wfGame_def s1_def stopTimer_def)
  have "s1\<lparr>grid := showMines (grid s1)\<rparr> = lostFrom s"
    by (simp add: s1_def stopTimer_def lostFrom_def)
  with revealAllMines_showMines[OF w1] e show ?thesis by simp
qed

lemma revealEach_append:
  "revealEach s (xs @ ys) =
     (case revealEach s xs of Inl e \<Rightarrow> Inl e | Inr s1 \<Rightarrow> revealEach s1 ys)"
proof (induction xs arbitrary: s)
  case Nil
  then show ?case by simp
next
  case (Cons q xs)
  obtain nr nc where q: "q = (nr, nc)" by (cases q)
  show ?case by (cases "handleReveal s nr nc") (simp_all add: q Cons.IH)
qed

lemma handleReveal_mine:
  assumes "wfGame s" and "\<not> gameOver s" and "gameStarted s"
    and "cellAt (grid s) r c = Some cm" and "isMine cm" and "\<not> isFlagged cm" and "\<not> isRevealed cm"
  shows "handleReveal s r c = Inr (lostFrom s)"
proof -
  from assms(6,7) have op: "\<not> (isFlagged cm \<or> isRevealed cm)" by simp
  define s3 where "s3 = s\<lparr>grid := setCell (grid s) r c (cm\<lparr>isRevealed := True\<rparr>)\<rparr>"
  have rm: "revealMine s r c = Inr s3" using assms(4) by (simp add: revealMine_def s3_def)
  have wf3: "wfGame s3" using assms(1) by (simp add: wfGame_def s3_def)
  have g: "showMines (grid s3) = showMines (grid s)"
  proof (rule grid_eqI)
    show "map length (showMines (grid s3)) = map length (showMines (grid s))"
      by (simp add: shape_showMines s3_def)
    fix r' c'
    show "cellAt (showMines (grid s3)) r' c' = cellAt (showMines (grid s)) r' c'"
      using assms(4,5) by (simp add: cellAt_showMines s3_def cellAt_setCell[OF assms(4)])
  qed
  have l: "lostFrom s3 = lostFrom s" unfolding lostFrom_def g by (simp add: s3_def)
  have "revealAt s r c = endGame False s3"
    using assms(4,5) rm by (simp add: revealAt_def)
  with endGame_lostFrom[OF wf3] l handleReveal_running[OF assms(2,4) op assms(3)]
  show ?thesis by simp
qed

lemma unflaggedMine_safeReveal:
  assumes "cellsRel safeReveal (grid s) (grid s1)"
  shows "unflaggedMine s1 p = unflaggedMine s p"
proof -
  have m: "mineAt (grid s1) p = mineAt (grid s) p"
    using assms by (rule mineAt_cellsRel) (auto simp: safeReveal_def)
  have "cellsRel revealStep (grid s) (grid s1)"
    using assms by (rule cellsRel_mono) (auto simp: safeReveal_def revealStep_def)
  from revealStep_revealedAt(2)[OF this, of p] m show ?thesis by (simp add: unflaggedMine_def)
qed

text \<open>A reveal that does not hit a mine does not lose the game.\<close>

lemma handleReveal_nomine:
  assumes "gameInv s" and "gameStarted s" and "face s \<noteq> FaceLose"
    and "handleReveal s r c = Inr s1" and "\<not> unflaggedMine s (r, c)"
  shows "face s1 \<noteq> FaceLose" and "cellsRel safeReveal (grid s) (grid s1)"
proof -
  have "face s1 \<noteq> FaceLose \<and> cellsRel safeReveal (grid s) (grid s1)"
    using assms(4)
  proof (cases rule: handleReveal_cases)
    case over
    with assms(3) show ?thesis by (simp add: cellsRel_refl safeReveal_refl)
  next
    case (closed cl0)
    with assms(3) show ?thesis by (simp add: cellsRel_refl safeReveal_refl)
  next
    case (first cl0 s0)
    with assms(2) show ?thesis by simp
  next
    case (running cl0)
    from assms(1,2) have wf: "wfGame s" and ne: "numbersExact s"
      by (simp_all add: gameInv_def coreInv_def)
    from running(6) show ?thesis
    proof (cases rule: revealAt_cases)
      case (mine cl s3)
      with running(2,3) have "unflaggedMine s (r, c)"
        by (simp add: unflaggedMine_def mineAt_def flaggedAt_def)
      with assms(5) show ?thesis by simp
    next
      case (safe cl s3)
      from revealCell_onlyReveals(1)[OF wf, of r c] safe(3) have o: "onlyReveals s s3" by auto
      note f = besidesReveal_fields[OF o[unfolded onlyReveals_def, THEN conjunct1]]
      have start: "\<not> mineAt (grid s) (r, c)" using safe(1,2) by (simp add: mineAt_def)
      have rel: "cellsRel safeReveal (grid s) (grid s3)"
        using wf ne start safe(3) by (rule revealCell_safeReveal)
      from safe(4) show ?thesis
      proof
        assume "checkWin s3 \<and> endGame True s3 = Inr s1"
        with endGame_won[of s3 s1] rel show ?thesis by simp
      next
        assume "\<not> checkWin s3 \<and> s1 = s3"
        with rel f(12) assms(3) show ?thesis by simp
      qed
    qed
  qed
  then show "face s1 \<noteq> FaceLose" and "cellsRel safeReveal (grid s) (grid s1)" by simp_all
qed

lemma revealEach_nomine:
  assumes "gameInv s" and "gameStarted s" and "face s \<noteq> FaceLose"
    and "revealEach s ns = Inr s'" and "\<forall>p \<in> set ns. \<not> unflaggedMine s p"
  shows "face s' \<noteq> FaceLose"
  using assms
proof (induction ns arbitrary: s)
  case Nil
  then show ?case by simp
next
  case (Cons q ns)
  obtain nr nc where q: "q = (nr, nc)" by (cases q)
  from Cons.prems(4) obtain s1 where s1: "handleReveal s nr nc = Inr s1"
    and rest: "revealEach s1 ns = Inr s'"
    by (cases "handleReveal s nr nc") (simp_all add: q)
  from Cons.prems(5) have here: "\<not> unflaggedMine s (nr, nc)" by (simp add: q)
  note n = handleReveal_nomine[OF Cons.prems(1,2,3) s1 here]
  note e = handleReveal_effect[OF gameInv_wfGame[OF Cons.prems(1)] s1]
  from e(5) Cons.prems(2) have st1: "gameStarted s1" by simp
  from Cons.prems(5) have "\<forall>p \<in> set ns. \<not> unflaggedMine s1 p"
    by (simp add: unflaggedMine_safeReveal[OF n(2)])
  with gameInv_handleReveal[OF Cons.prems(1) s1] st1 n(1) rest show ?case
    by (intro Cons.IH[of s1]) simp_all
qed

text \<open>
  While a flag stands on a cell without a mine, a reveal that does not hit a mine does
  not end the game: that cell stays unrevealed.
\<close>

lemma handleReveal_blocked:
  assumes "gameInv s" and "minesOk s" and "gameStarted s" and "\<not> gameOver s"
    and "handleReveal s r c = Inr s1" and "\<not> unflaggedMine s (r, c)"
    and "cellAt (grid s) fr fc = Some cf" and "isFlagged cf" and "\<not> isMine cf"
  shows "\<not> gameOver s1" and "cellAt (grid s1) fr fc = Some cf"
    and "cellsRel safeReveal (grid s) (grid s1)"
proof -
  from assms(1) have ph: "phaseOk s" by (simp add: gameInv_def coreInv_def)
  with assms(4) have fn: "face s \<noteq> FaceLose" by (simp add: phaseOk_def)
  note n = handleReveal_nomine[OF assms(1,3) fn assms(5,6)]
  show rel: "cellsRel safeReveal (grid s) (grid s1)" by (rule n(2))
  from cellsRelD[OF rel assms(7)] assms(8) show b1: "cellAt (grid s1) fr fc = Some cf"
    by (auto simp: safeReveal_def)
  note inv1 = gameInv_handleReveal[OF assms(1,5)] and ok1 = minesOk_handleReveal[OF assms(1,2,5)]
  show "\<not> gameOver s1"
  proof
    assume go: "gameOver s1"
    from inv1 have ph1: "phaseOk s1" and co1: "cellsOk s1" by (simp_all add: gameInv_def coreInv_def)
    from ph1 go n(1) have fw: "face s1 = FaceWin" by (cases "face s1") (auto simp: phaseOk_def)
    from co1 fw have "noCell (\<lambda>c. isRevealed c \<and> isFlagged c) (grid s1)" by (simp add: cellsOk_def)
    with b1 assms(8) have "\<not> isRevealed cf" by (auto simp: noCell_def)
    with won_safe_revealed[OF inv1 ok1 fw] b1 assms(9) show False by (auto simp: noCell_def)
  qed
qed

lemma revealEach_blocked:
  assumes "gameInv s" and "minesOk s" and "gameStarted s" and "\<not> gameOver s"
    and "revealEach s ns = Inr s1" and "\<forall>p \<in> set ns. \<not> unflaggedMine s p"
    and "cellAt (grid s) fr fc = Some cf" and "isFlagged cf" and "\<not> isMine cf"
  shows "\<not> gameOver s1 \<and> gameInv s1 \<and> minesOk s1 \<and> gameStarted s1 \<and>
         (\<forall>p. unflaggedMine s1 p = unflaggedMine s p)"
  using assms(1-7)
proof (induction ns arbitrary: s)
  case Nil
  then show ?case by simp
next
  case (Cons q ns)
  obtain nr nc where q: "q = (nr, nc)" by (cases q)
  from Cons.prems(5) obtain s0 where s0: "handleReveal s nr nc = Inr s0"
    and rest: "revealEach s0 ns = Inr s1"
    by (cases "handleReveal s nr nc") (simp_all add: q)
  from Cons.prems(6) have here: "\<not> unflaggedMine s (nr, nc)" by (simp add: q)
  note b = handleReveal_blocked[OF Cons.prems(1,2,3,4) s0 here Cons.prems(7) assms(8,9)]
  note e = handleReveal_effect[OF gameInv_wfGame[OF Cons.prems(1)] s0]
  from e(5) Cons.prems(3) have st0: "gameStarted s0" by simp
  note u = unflaggedMine_safeReveal[OF b(3)]
  from Cons.prems(6) have r0: "\<forall>p \<in> set ns. \<not> unflaggedMine s0 p" by (simp add: u)
  from Cons.IH[OF gameInv_handleReveal[OF Cons.prems(1) s0]
      minesOk_handleReveal[OF Cons.prems(1,2) s0] st0 b(1) rest r0 b(2)] u
  show ?case by simp
qed

text \<open>
  Around a revealed cell with as many flags as its number and a mine without a flag, one
  of the flags stands on a cell without a mine.
\<close>

lemma chord_blocker:
  assumes "gameInv s" and "minesOk s" and "\<not> gameOver s"
    and "cellAt (grid s) row col = Some cl" and "isRevealed cl"
    and "flaggedNeighbors s row col = neighborMines cl"
    and "adjacent (row, col) m" and "inBounds s m" and "unflaggedMine s m"
  obtains fr fc cf where "cellAt (grid s) fr fc = Some cf" "isFlagged cf" "\<not> isMine cf"
proof -
  from assms(1) have fr: "freshOk s" and ne: "gameStarted s \<longrightarrow> numbersExact s"
    by (simp_all add: gameInv_def coreInv_def)
  have st: "gameStarted s"
  proof (rule ccontr)
    assume "\<not> gameStarted s"
    with fr have "noCell isRevealed (grid s)" by (simp add: freshOk_def)
    with assms(4,5) show False by (auto simp: noCell_def)
  qed
  with ne have ne: "numbersExact s" by simp
  from assms(2,3) have "noCell (\<lambda>c. isRevealed c \<and> isMine c) (grid s)" by (simp add: minesOk_def)
  with assms(4,5) have "\<not> isMine cl" by (auto simp: noCell_def)
  with ne assms(4) have n: "neighborMines cl = adjacentMines s row col"
    by (auto simp: numbersExact_def)
  let ?F = "{q. adjacent (row, col) q \<and> inBounds s q \<and> flaggedAt (grid s) q}"
  let ?M = "{q. adjacent (row, col) q \<and> inBounds s q \<and> mineAt (grid s) q}"
  have fin: "finite ?M" by (rule finite_adjacent)
  have c: "card ?F = card ?M"
    using assms(6) n by (simp add: flaggedNeighbors_def adjacentMines_def)
  from assms(7,8,9) have "m \<in> ?M" "m \<notin> ?F" by (simp_all add: unflaggedMine_def)
  then have "?F \<noteq> ?M" by blast
  with c fin have "\<not> ?F \<subseteq> ?M" using card_subset_eq by blast
  then obtain f where f: "adjacent (row, col) f" "inBounds s f" "flaggedAt (grid s) f"
    "\<not> mineAt (grid s) f" by blast
  from f(3) obtain cf where cf: "cellAt (grid s) (fst f) (snd f) = Some cf" "isFlagged cf"
    by (auto simp: flaggedAt_def split: option.splits)
  with f(4) have "\<not> isMine cf" by (simp add: mineAt_def)
  with cf show ?thesis by (rule that)
qed

text \<open>
  A chord with a mine without a flag among the neighbours: the reveals before the first
  such mine leave the game running, the reveal of the mine loses it, and the rest do
  nothing.
\<close>

lemma chord_lost:
  assumes "gameInv s" and "minesOk s" and "\<not> gameOver s"
    and "cellAt (grid s) row col = Some cl" and "isRevealed cl"
    and "flaggedNeighbors s row col = neighborMines cl"
    and "getNeighbors s row col = pre @ m # post" and "unflaggedMine s m"
    and "\<forall>p \<in> set pre. \<not> unflaggedMine s p"
    and "revealEach s (getNeighbors s row col) = Inr s'"
  shows "\<exists>s1. revealEach s pre = Inr s1 \<and> \<not> gameOver s1 \<and>
           (\<forall>q \<in> set pre. \<not> flaggedAt (grid s) q \<longrightarrow> revealedAt (grid s1) q) \<and>
           s' = lostFrom s1"
proof -
  note wf = gameInv_wfGame[OF assms(1)]
  from assms(1) have fr: "freshOk s" by (simp add: gameInv_def coreInv_def)
  have st: "gameStarted s"
  proof (rule ccontr)
    assume "\<not> gameStarted s"
    with fr have "noCell isRevealed (grid s)" by (simp add: freshOk_def)
    with assms(4,5) show False by (auto simp: noCell_def)
  qed
  have "m \<in> set (getNeighbors s row col)" by (simp add: assms(7))
  then have m: "adjacent (row, col) m" "inBounds s m" by (simp_all add: set_getNeighbors)
  from chord_blocker[OF assms(1,2,3,4,5,6) m assms(8)] obtain fr fc cf where
    b: "cellAt (grid s) fr fc = Some cf" "isFlagged cf" "\<not> isMine cf" by blast
  from assms(10) obtain s1 where s1: "revealEach s pre = Inr s1"
    and rest: "revealEach s1 (m # post) = Inr s'"
    unfolding assms(7) revealEach_append by (cases "revealEach s pre") simp_all
  note kk = revealEach_blocked[OF assms(1,2) st assms(3) s1 assms(9) b]
  from kk have k: "\<not> gameOver s1" "gameInv s1" "minesOk s1" "gameStarted s1"
    by blast+
  from kk have ku: "unflaggedMine s1 p = unflaggedMine s p" for p by blast
  from revealEach_effect[OF wf s1] k(1) have
    rel: "cellsRel revealStep (grid s) (grid s1)"
    and all: "\<forall>q \<in> set pre. revealedAt (grid s1) q \<or> flaggedAt (grid s1) q"
    by simp_all
  have shown: "\<forall>q \<in> set pre. \<not> flaggedAt (grid s) q \<longrightarrow> revealedAt (grid s1) q"
    using all revealStep_revealedAt(2)[OF rel] by blast
  obtain mr mc where mm: "m = (mr, mc)" by (cases m)
  from assms(8) ku have um: "unflaggedMine s1 (mr, mc)" by (simp add: mm)
  then obtain cm where cm: "cellAt (grid s1) mr mc = Some cm" "isMine cm" "\<not> isFlagged cm"
    by (auto simp: unflaggedMine_def mineAt_def flaggedAt_def split: option.splits)
  from k(1,3) have "noCell (\<lambda>c. isRevealed c \<and> isMine c) (grid s1)" by (simp add: minesOk_def)
  with cm have nr: "\<not> isRevealed cm" by (auto simp: noCell_def)
  note h = handleReveal_mine[OF gameInv_wfGame[OF k(2)] k(1) k(4) cm(1,2,3) nr]
  have "gameOver (lostFrom s1)" by (simp add: lostFrom_def)
  from revealEach_over[OF this, of post] h rest have "s' = lostFrom s1" by (simp add: mm)
  with s1 k(1) shown show ?thesis by blast
qed

lemma handleReveal_total:
  assumes "wfGame s" and "gameStarted s" and "inBounds s (r, c)"
  shows "\<exists>s1. handleReveal s r c = Inr s1"
proof (cases "gameOver s")
  case True
  then show ?thesis by (simp add: handleReveal_over)
next
  case ngo: False
  from wfGame_inBounds[OF assms(1), of "(r, c)"] assms(3) obtain cl0 where
    cl0: "cellAt (grid s) r c = Some cl0" by auto
  show ?thesis
  proof (cases "isFlagged cl0 \<or> isRevealed cl0")
    case True
    with handleReveal_closed[OF ngo cl0] show ?thesis by simp
  next
    case op: False
    note run = handleReveal_running[OF ngo cl0 op assms(2)]
    show ?thesis
    proof (cases "isMine cl0")
      case True
      with handleReveal_mine[OF assms(1) ngo assms(2) cl0] op show ?thesis by simp
    next
      case False
      from revealCell_onlyReveals(1)[OF assms(1), of r c] obtain s3 where
        s3: "revealCell s r c = Inr s3" by blast
      with cl0 False have "revealAt s r c = (if checkWin s3 then endGame True s3 else Inr s3)"
        by (simp add: revealAt_def)
      then show ?thesis unfolding run by (simp add: endGame_def Let_def)
    qed
  qed
qed

lemma revealEach_total:
  assumes "wfGame s" and "gameStarted s" and "\<forall>p \<in> set ns. inBounds s p"
  shows "\<exists>s'. revealEach s ns = Inr s'"
  using assms
proof (induction ns arbitrary: s)
  case Nil
  then show ?case by simp
next
  case (Cons q ns)
  obtain nr nc where q: "q = (nr, nc)" by (cases q)
  from Cons.prems(3) have "inBounds s (nr, nc)" by (simp add: q)
  from handleReveal_total[OF Cons.prems(1,2) this] obtain s1 where
    s1: "handleReveal s nr nc = Inr s1" by blast
  note e = handleReveal_effect[OF Cons.prems(1) s1]
  from e(5) Cons.prems(2) have st1: "gameStarted s1" by simp
  from Cons.prems(3) e(2,3) have "\<forall>p \<in> set ns. inBounds s1 p" by (simp add: inBounds_def)
  from Cons.IH[OF e(1) st1 this] s1 show ?case by (simp add: q)
qed

lemma revealed_started:
  assumes "gameInv s" and "cellAt (grid s) row col = Some cl" and "isRevealed cl"
  shows "gameStarted s"
proof (rule ccontr)
  assume "\<not> gameStarted s"
  with assms(1) have "noCell isRevealed (grid s)" by (simp add: gameInv_def coreInv_def freshOk_def)
  with assms(2,3) show False by (auto simp: noCell_def)
qed

text \<open>
  C5, as the code has it. At a revealed cell with a positive number: when the number of
  flagged neighbours differs from the number, or the game is over, \<^verbatim>\<open>handleChord\<close>
  returns the state as it is. When the numbers are equal, it calls \<^verbatim>\<open>handleReveal\<close> for
  the neighbours in turn; in a reachable state it returns. Afterwards every neighbour that
  is not flagged is revealed, if the game is not over, and in a reachable state also if
  the chord has won it. In a reachable state of a running game the chord loses the game
  exactly when a neighbour is a mine without a flag. The reveals before the first such
  mine, in the order of the loops, are then made and reveal their cells, and the reveal of
  the mine ends the game: the chord returns the state after those reveals with every mine
  shown, the game over and lost, and does not look at the neighbours after the mine.
\<close>

theorem handleChord_equal_flags:
  assumes "wfGame s" and "cellAt (grid s) row col = Some cl" and "isRevealed cl"
    and "0 < neighborMines cl"
  shows "(flaggedNeighbors s row col \<noteq> neighborMines cl \<or> gameOver s \<longrightarrow>
            handleChord s row col = Inr s) \<and>
         (reachable s \<longrightarrow> (\<exists>s'. handleChord s row col = Inr s')) \<and>
         (flaggedNeighbors s row col = neighborMines cl \<longrightarrow>
            handleChord s row col = revealEach s (getNeighbors s row col) \<and>
            (\<forall>s'. handleChord s row col = Inr s' \<longrightarrow>
               (\<not> gameOver s' \<or> (reachable s \<and> face s' \<noteq> FaceLose) \<longrightarrow>
                  (\<forall>q. adjacent (row, col) q \<and> inBounds s q \<and> \<not> flaggedAt (grid s) q \<longrightarrow>
                       revealedAt (grid s') q)) \<and>
               (reachable s \<and> \<not> gameOver s \<longrightarrow>
                  (face s' = FaceLose) =
                    (\<exists>q. adjacent (row, col) q \<and> inBounds s q \<and> unflaggedMine s q) \<and>
                  (\<forall>pre m post.
                     getNeighbors s row col = pre @ m # post \<and> unflaggedMine s m \<and>
                     (\<forall>p \<in> set pre. \<not> unflaggedMine s p) \<longrightarrow>
                     (\<exists>s1. revealEach s pre = Inr s1 \<and> \<not> gameOver s1 \<and>
                           (\<forall>q \<in> set pre. \<not> flaggedAt (grid s) q \<longrightarrow> revealedAt (grid s1) q) \<and>
                           s' = lostFrom s1)))))"
proof -
  from assms(4) have nz: "neighborMines cl \<noteq> 0" by simp
  note u = handleChord_unfold[OF assms(1,2,3) nz]
  have inb: "\<forall>q \<in> set (getNeighbors s row col). inBounds s q" by (simp add: set_getNeighbors)
  note re = handleChord_reveal_revealEach[OF assms(1) inb]
  have noop: "handleChord s row col = Inr s"
    if "flaggedNeighbors s row col \<noteq> neighborMines cl \<or> gameOver s"
  proof (cases "flaggedNeighbors s row col = neighborMines cl")
    case False
    then show ?thesis by (simp add: u)
  next
    case True
    with that have "gameOver s" by simp
    from revealEach_over[OF this] True show ?thesis by (simp add: u re)
  qed
  have open_case: "revealedAt (grid s') q"
    if eq: "flaggedNeighbors s row col = neighborMines cl"
      and r: "handleChord s row col = Inr s'" and ngo: "\<not> gameOver s'"
      and q: "adjacent (row, col) q" "inBounds s q" "\<not> flaggedAt (grid s) q" for s' q
  proof -
    from eq r have "revealEach s (getNeighbors s row col) = Inr s'" by (simp add: u re)
    from revealEach_effect[OF assms(1) this] ngo have
      rel: "cellsRel revealStep (grid s) (grid s')"
      and all: "\<forall>q \<in> set (getNeighbors s row col). revealedAt (grid s') q \<or> flaggedAt (grid s') q"
      by simp_all
    from q have "q \<in> set (getNeighbors s row col)" by (simp add: set_getNeighbors)
    with all have "revealedAt (grid s') q \<or> flaggedAt (grid s') q" by blast
    with q revealStep_revealedAt(2)[OF rel, of q] show "revealedAt (grid s') q" by simp
  qed
  have won_case: "revealedAt (grid s') q"
    if eq: "flaggedNeighbors s row col = neighborMines cl"
      and r: "handleChord s row col = Inr s'" and go: "gameOver s'"
      and rs: "reachable s" and nl: "face s' \<noteq> FaceLose"
      and q: "adjacent (row, col) q" "inBounds s q" "\<not> flaggedAt (grid s) q" for s' q
  proof -
    note inv = reachable_gameInv[OF rs]
    from reachable_handleChord[OF rs r] have rs': "reachable s'" .
    note inv' = reachable_gameInv[OF rs'] and ok' = reachable_minesOk[OF rs']
    from inv' have ph': "phaseOk s'" by (simp add: gameInv_def coreInv_def)
    with go nl have fw: "face s' = FaceWin" by (cases "face s'") (auto simp: phaseOk_def)
    from inv have fr: "freshOk s" by (simp add: gameInv_def coreInv_def)
    have st: "gameStarted s"
    proof (rule ccontr)
      assume "\<not> gameStarted s"
      with fr have "noCell isRevealed (grid s)" by (simp add: freshOk_def)
      with assms(2,3) show False by (auto simp: noCell_def)
    qed
    from eq r have e: "revealEach s (getNeighbors s row col) = Inr s'" by (simp add: u re)
    from revealEach_effect[OF assms(1) e] have
      rel: "cellsRel revealStep (grid s) (grid s')" and f: "rows s' = rows s" "cols s' = cols s"
      by simp_all
    note op = revealEach_opened[OF assms(1) st e]
    from cellsRelD[OF op assms(2)] assms(3) have cl': "cellAt (grid s') row col = Some cl"
      by (auto simp: opened_def)
    have ib: "inBounds s' p = inBounds s p" for p by (simp add: inBounds_def f)
    have "flaggedNeighbors s' row col = flaggedNeighbors s row col"
      by (simp add: flaggedNeighbors_def ib revealStep_revealedAt(2)[OF rel])
    with eq have eq': "flaggedNeighbors s' row col = neighborMines cl" by simp
    from q(2) have q2: "inBounds s' q" by (simp add: ib)
    from q(3) have q3: "\<not> flaggedAt (grid s') q" by (simp add: revealStep_revealedAt(2)[OF rel])
    from inv' ok' fw cl' assms(3) eq' q(1) q2 q3 show ?thesis by (rule won_chord_revealed)
  qed
  have lost_case:
    "\<exists>s1. revealEach s pre = Inr s1 \<and> \<not> gameOver s1 \<and>
          (\<forall>q \<in> set pre. \<not> flaggedAt (grid s) q \<longrightarrow> revealedAt (grid s1) q) \<and> s' = lostFrom s1"
    if eq: "flaggedNeighbors s row col = neighborMines cl"
      and r: "handleChord s row col = Inr s'" and rs: "reachable s" and ngo: "\<not> gameOver s"
      and sp: "getNeighbors s row col = pre @ m # post" "unflaggedMine s m"
        "\<forall>p \<in> set pre. \<not> unflaggedMine s p" for s' pre m post
  proof -
    from eq r have e: "revealEach s (getNeighbors s row col) = Inr s'" by (simp add: u re)
    from reachable_gameInv[OF rs] reachable_minesOk[OF rs] ngo assms(2,3) eq sp e
    show ?thesis by (rule chord_lost)
  qed
  have lost_iff:
    "(face s' = FaceLose) = (\<exists>q. adjacent (row, col) q \<and> inBounds s q \<and> unflaggedMine s q)"
    if eq: "flaggedNeighbors s row col = neighborMines cl"
      and r: "handleChord s row col = Inr s'" and rs: "reachable s" and ngo: "\<not> gameOver s"
    for s'
  proof
    assume l: "face s' = FaceLose"
    show "\<exists>q. adjacent (row, col) q \<and> inBounds s q \<and> unflaggedMine s q"
    proof (rule ccontr)
      assume "\<not> (\<exists>q. adjacent (row, col) q \<and> inBounds s q \<and> unflaggedMine s q)"
      then have none: "\<forall>p \<in> set (getNeighbors s row col). \<not> unflaggedMine s p"
        by (simp add: set_getNeighbors)
      note inv = reachable_gameInv[OF rs]
      from inv have fr: "freshOk s" and ph: "phaseOk s" by (simp_all add: gameInv_def coreInv_def)
      have st: "gameStarted s"
      proof (rule ccontr)
        assume "\<not> gameStarted s"
        with fr have "noCell isRevealed (grid s)" by (simp add: freshOk_def)
        with assms(2,3) show False by (auto simp: noCell_def)
      qed
      from ph ngo have fn: "face s \<noteq> FaceLose" by (simp add: phaseOk_def)
      from eq r have e: "revealEach s (getNeighbors s row col) = Inr s'" by (simp add: u re)
      from revealEach_nomine[OF inv st fn e none] l show False by simp
    qed
  next
    assume "\<exists>q. adjacent (row, col) q \<and> inBounds s q \<and> unflaggedMine s q"
    then have "\<exists>q \<in> set (getNeighbors s row col). unflaggedMine s q"
      by (simp add: set_getNeighbors)
    from split_list_first_prop[OF this] obtain pre m post where
      sp: "getNeighbors s row col = pre @ m # post" "unflaggedMine s m"
        "\<forall>p \<in> set pre. \<not> unflaggedMine s p"
      by blast
    from lost_case[OF eq r rs ngo sp] show "face s' = FaceLose" by (auto simp: lostFrom_def)
  qed
  have returns: "\<exists>s'. handleChord s row col = Inr s'" if rs: "reachable s"
  proof (cases "flaggedNeighbors s row col = neighborMines cl")
    case False
    then show ?thesis by (simp add: u)
  next
    case True
    from revealed_started[OF reachable_gameInv[OF rs] assms(2,3)] have "gameStarted s" .
    from revealEach_total[OF assms(1) this inb] True show ?thesis by (simp add: u re)
  qed
  show ?thesis
  proof (intro conjI impI allI)
    assume "flaggedNeighbors s row col \<noteq> neighborMines cl \<or> gameOver s"
    then show "handleChord s row col = Inr s" by (rule noop)
  next
    assume "reachable s"
    then show "\<exists>s'. handleChord s row col = Inr s'" by (rule returns)
  next
    assume "flaggedNeighbors s row col = neighborMines cl"
    then show "handleChord s row col = revealEach s (getNeighbors s row col)" by (simp add: u re)
  next
    fix s' q
    assume eq: "flaggedNeighbors s row col = neighborMines cl"
      and r: "handleChord s row col = Inr s'"
      and c: "\<not> gameOver s' \<or> (reachable s \<and> face s' \<noteq> FaceLose)"
      and q: "adjacent (row, col) q \<and> inBounds s q \<and> \<not> flaggedAt (grid s) q"
    show "revealedAt (grid s') q"
    proof (cases "gameOver s'")
      case False
      with eq r q show ?thesis by (intro open_case) simp_all
    next
      case True
      with eq r c q show ?thesis by (intro won_case) simp_all
    qed
  next
    fix s'
    assume "flaggedNeighbors s row col = neighborMines cl" "handleChord s row col = Inr s'"
      "reachable s \<and> \<not> gameOver s"
    then show "(face s' = FaceLose) =
        (\<exists>q. adjacent (row, col) q \<and> inBounds s q \<and> unflaggedMine s q)"
      by (intro lost_iff) simp_all
  next
    fix s' pre m post
    assume "flaggedNeighbors s row col = neighborMines cl" "handleChord s row col = Inr s'"
      "reachable s \<and> \<not> gameOver s"
      "getNeighbors s row col = pre @ m # post \<and> unflaggedMine s m \<and>
       (\<forall>p \<in> set pre. \<not> unflaggedMine s p)"
    then show "\<exists>s1. revealEach s pre = Inr s1 \<and> \<not> gameOver s1 \<and>
          (\<forall>q \<in> set pre. \<not> flaggedAt (grid s) q \<longrightarrow> revealedAt (grid s1) q) \<and> s' = lostFrom s1"
      using lost_case[of s' pre m post] by blast
  qed
qed

theorem handleChord_equal_flags_witness:
  "wfGame beforeWin \<and> reachable beforeWin \<and>
   cellAt (grid beforeWin) 2 2 =
     Some \<lparr>isMine = False, isRevealed = True, isFlagged = False, neighborMines = 1\<rparr> \<and>
   flaggedNeighbors beforeWin 2 2 = 1 \<and>
   cellAt (grid beforeWin) 2 3 =
     Some \<lparr>isMine = False, isRevealed = False, isFlagged = False, neighborMines = 1\<rparr> \<and>
   handleChord beforeWin 2 2 = revealEach beforeWin (getNeighbors beforeWin 2 2) \<and>
   map_sum id gameOver (handleChord beforeWin 2 2) = Inr True \<and>
   map_sum id face (handleChord beforeWin 2 2) = Inr FaceWin \<and>
   map_sum id (\<lambda>s'. revealedAt (grid s') (2, 3)) (handleChord beforeWin 2 2) = Inr True"
proof -
  have w: "wfGame beforeWin" by code_simp
  have c: "cellAt (grid beforeWin) 2 2 =
     Some \<lparr>isMine = False, isRevealed = True, isFlagged = False, neighborMines = 1\<rparr>"
    by code_simp
  have c3: "cellAt (grid beforeWin) 2 3 =
     Some \<lparr>isMine = False, isRevealed = False, isFlagged = False, neighborMines = 1\<rparr>"
    by code_simp
  have "handleChord_flags beforeWin (getNeighbors beforeWin 2 2) 0 = Inr 1" by code_simp
  with handleChord_flags_count[OF w, of 2 2] have f: "flaggedNeighbors beforeWin 2 2 = 1" by simp
  have g: "map_sum id gameOver (handleChord beforeWin 2 2) = Inr True" by code_simp
  have fw: "map_sum id face (handleChord beforeWin 2 2) = Inr FaceWin" by code_simp
  from fw obtain s' where s': "handleChord beforeWin 2 2 = Inr s'" "face s' = FaceWin"
    by (cases "handleChord beforeWin 2 2") auto
  have adj: "adjacent (2, 2) (2, 3)" by (simp add: adjacent_def)
  have ib: "inBounds beforeWin (2, 3)" by code_simp
  have nf: "\<not> flaggedAt (grid beforeWin) (2, 3)" by (simp add: flaggedAt_def c3)
  note t = handleChord_equal_flags[OF w c]
  from t f have e: "handleChord beforeWin 2 2 = revealEach beforeWin (getNeighbors beforeWin 2 2)"
    by simp
  from t f s' reachable_beforeWin adj ib nf have "revealedAt (grid s') (2, 3)" by simp
  with s'(1) have r: "map_sum id (\<lambda>s'. revealedAt (grid s') (2, 3)) (handleChord beforeWin 2 2) = Inr True"
    by simp
  from w reachable_beforeWin c f c3 e g fw r show ?thesis by simp
qed

text \<open>
  The claim as it is stated: equal counts reveal all neighbours that are not flagged. With
  the flag on the wrong cell the counts are equal, the chord at (1, 1) reaches the mine
  (1, 2) first and the game is lost; the neighbour (2, 2), not flagged, stays unrevealed.
\<close>

theorem handleChord_mine_counterexample:
  "run chordStart [Reveal 0 0, Flag 0 2] = Inr chordWrong \<and>
   cellAt (grid chordWrong) 1 1 =
     Some \<lparr>isMine = False, isRevealed = True, isFlagged = False, neighborMines = 1\<rparr> \<and>
   handleChord_flags chordWrong (getNeighbors chordWrong 1 1) 0 = Inr 1 \<and>
   map_sum id face (handleChord chordWrong 1 1) = Inr FaceLose \<and>
   cellAfter (handleChord chordWrong 1 1) 2 2 =
     Some \<lparr>isMine = False, isRevealed = False, isFlagged = False, neighborMines = 1\<rparr>"
proof -
  have c: "cellAt (grid chordWrong) 1 1 =
     Some \<lparr>isMine = False, isRevealed = True, isFlagged = False, neighborMines = 1\<rparr>"
    by code_simp
  have f: "handleChord_flags chordWrong (getNeighbors chordWrong 1 1) 0 = Inr 1" by code_simp
  have l: "map_sum id face (handleChord chordWrong 1 1) = Inr FaceLose" by code_simp
  have a: "cellAfter (handleChord chordWrong 1 1) 2 2 =
     Some \<lparr>isMine = False, isRevealed = False, isFlagged = False, neighborMines = 1\<rparr>"
    by code_simp
  from chordWrong_reached c f l a show ?thesis by simp
qed

subsection \<open>Cells that are revealed and flagged, and the counter\<close>

text \<open>
  C6, as the code has it. In every state reached by any sequence of reveals, flags, chords,
  hints, timer ticks, new games and actions of the welcome screen, a cell that is both
  revealed and flagged is a mine, and the game is lost: while the game is not lost no cell
  is both, and a safe cell never is. In a lost game every mine is revealed, with its flag
  if it had one: \<^verbatim>\<open>revealAllMines\<close> returns the state with every mine marked revealed and
  nothing else changed, and \<^verbatim>\<open>endGame\<close> on a loss returns that grid in a game that is
  over and shows the loss.
\<close>

theorem reachable_revealed_flagged:
  assumes "reachable s" and "cellAt (grid s) r c = Some cl"
  shows "(isRevealed cl \<and> isFlagged cl \<longrightarrow> isMine cl \<and> gameOver s \<and> face s = FaceLose) \<and>
         (gameOver s \<and> face s = FaceLose \<and> isMine cl \<longrightarrow> isRevealed cl) \<and>
         revealAllMines s = Inr (s\<lparr>grid := showMines (grid s)\<rparr>) \<and>
         endGame False s = Inr (lostFrom s) \<and>
         cellAt (showMines (grid s)) r c =
           Some (if isMine cl then cl\<lparr>isRevealed := True\<rparr> else cl)"
proof -
  note inv = reachable_gameInv[OF assms(1)] and ok = reachable_minesOk[OF assms(1)]
  note wf = gameInv_wfGame[OF inv]
  from inv have co: "cellsOk s" by (simp add: gameInv_def coreInv_def)
  have 1: "isRevealed cl \<and> isFlagged cl \<longrightarrow> isMine cl \<and> gameOver s \<and> face s = FaceLose"
    using co assms(2) unfolding cellsOk_def noCell_def by blast
  have 2: "gameOver s \<and> face s = FaceLose \<and> isMine cl \<longrightarrow> isRevealed cl"
    using ok assms(2) unfolding minesOk_def noCell_def by blast
  have 3: "cellAt (showMines (grid s)) r c =
           Some (if isMine cl then cl\<lparr>isRevealed := True\<rparr> else cl)"
    using assms(2) by (simp add: cellAt_showMines)
  from 1 2 3 revealAllMines_showMines[OF wf] endGame_lostFrom[OF wf] show ?thesis by blast
qed

theorem reachable_revealed_flagged_witness:
  "reachable demoLost \<and>
   cellAt (grid demoLost) 0 3 =
     Some \<lparr>isMine = True, isRevealed = True, isFlagged = True, neighborMines = 0\<rparr> \<and>
   gameOver demoLost \<and> face demoLost = FaceLose \<and>
   map_sum id (\<lambda>s'. cellAt (grid s') 0 3) (revealAllMines demoLost) =
     Inr (Some \<lparr>isMine = True, isRevealed = True, isFlagged = True, neighborMines = 0\<rparr>)"
proof -
  have c: "cellAt (grid demoLost) 0 3 =
     Some \<lparr>isMine = True, isRevealed = True, isFlagged = True, neighborMines = 0\<rparr>"
    by code_simp
  note t = reachable_revealed_flagged[OF reachable_demoLost c]
  from t have l: "gameOver demoLost \<and> face demoLost = FaceLose" by simp
  from t have "revealAllMines demoLost = Inr (demoLost\<lparr>grid := showMines (grid demoLost)\<rparr>)"
    and "cellAt (showMines (grid demoLost)) 0 3 =
     Some \<lparr>isMine = True, isRevealed = True, isFlagged = True, neighborMines = 0\<rparr>"
    by simp_all
  then have "map_sum id (\<lambda>s'. cellAt (grid s') 0 3) (revealAllMines demoLost) =
     Inr (Some \<lparr>isMine = True, isRevealed = True, isFlagged = True, neighborMines = 0\<rparr>)"
    by simp
  with reachable_demoLost c l show ?thesis by simp
qed

text \<open>
  The claim as it is stated excludes every such cell, the loss included. The player flags
  the mine (0, 3) and then clicks the mine (0, 5): the loss reveals all mines, and (0, 3)
  is revealed and still flagged.
\<close>

theorem revealAllMines_flagged_counterexample:
  "run demoStart [Reveal 0 0, Flag 0 3, Reveal 0 5] = Inr demoLost \<and>
   map_option isRevealed (cellAt (grid demoLost) 0 3) = Some True \<and>
   map_option isFlagged (cellAt (grid demoLost) 0 3) = Some True"
proof -
  have "map_option isRevealed (cellAt (grid demoLost) 0 3) = Some True" by code_simp
  moreover have "map_option isFlagged (cellAt (grid demoLost) 0 3) = Some True" by code_simp
  ultimately show ?thesis using demoLost_reached by simp
qed

lemma revealedAt_mine_cellsRel:
  assumes "cellsRel safeReveal g g'" and "mineAt g' p" and "revealedAt g' p"
  shows "revealedAt g p"
proof -
  from assms(3) obtain cl' where c': "cellAt g' (fst p) (snd p) = Some cl'" "isRevealed cl'"
    by (auto simp: revealedAt_def split: option.splits)
  with cellsRel_None[OF assms(1), of "fst p" "snd p"] obtain cl where
    cl: "cellAt g (fst p) (snd p) = Some cl" by (cases "cellAt g (fst p) (snd p)") auto
  from cellsRelD[OF assms(1) cl] c' assms(2) show ?thesis
    by (auto simp: safeReveal_def revealedAt_def mineAt_def cl)
qed

text \<open>
  C10. In every reachable state \<open>revealedCount\<close> is the number of cells that are revealed
  and not mines. \<^verbatim>\<open>revealMine\<close> and \<^verbatim>\<open>revealAllMines\<close> leave the counter as it is, and
  a flood fill that starts on a safe cell of a started game reveals no mine: a mine that
  is revealed after it was revealed before.
\<close>

theorem reachable_revealedCount:
  assumes "reachable s"
  shows "revealedCount s = countCells (\<lambda>c. isRevealed c \<and> \<not> isMine c) (grid s) \<and>
         (\<forall>row col s'. revealMine s row col = Inr s' \<longrightarrow> revealedCount s' = revealedCount s) \<and>
         (\<forall>s'. revealAllMines s = Inr s' \<longrightarrow> revealedCount s' = revealedCount s) \<and>
         (\<forall>row col s' p. gameStarted s \<and> \<not> mineAt (grid s) (row, col) \<and>
              revealCell s row col = Inr s' \<and> mineAt (grid s') p \<and> revealedAt (grid s') p \<longrightarrow>
              revealedAt (grid s) p)"
proof -
  note inv = reachable_gameInv[OF assms]
  then have wf: "wfGame s" and cnt: "countOk s" and ne: "gameStarted s \<longrightarrow> numbersExact s"
    by (simp_all add: gameInv_def coreInv_def)
  have 1: "revealedCount s = countCells (\<lambda>c. isRevealed c \<and> \<not> isMine c) (grid s)"
    using cnt by (simp add: countOk_def)
  have 2: "\<forall>row col s'. revealMine s row col = Inr s' \<longrightarrow> revealedCount s' = revealedCount s"
  proof (intro allI impI)
    fix row col s'
    assume "revealMine s row col = Inr s'"
    then show "revealedCount s' = revealedCount s"
      by (cases "cellAt (grid s) row col") (auto simp: revealMine_def)
  qed
  have 3: "\<forall>s'. revealAllMines s = Inr s' \<longrightarrow> revealedCount s' = revealedCount s"
  proof (intro allI impI)
    fix s'
    assume "revealAllMines s = Inr s'"
    with revealAllMines_effect[OF wf] have "besidesGrid s' = besidesGrid s" by auto
    then show "revealedCount s' = revealedCount s" by (rule besidesGrid_fields(5))
  qed
  have 4: "\<forall>row col s' p. gameStarted s \<and> \<not> mineAt (grid s) (row, col) \<and>
              revealCell s row col = Inr s' \<and> mineAt (grid s') p \<and> revealedAt (grid s') p \<longrightarrow>
              revealedAt (grid s) p"
  proof (intro allI impI)
    fix row col s' p
    assume a: "gameStarted s \<and> \<not> mineAt (grid s) (row, col) \<and>
              revealCell s row col = Inr s' \<and> mineAt (grid s') p \<and> revealedAt (grid s') p"
    with ne have "cellsRel safeReveal (grid s) (grid s')"
      by (intro revealCell_safeReveal[OF wf, of row col s']) simp_all
    with a show "revealedAt (grid s) p" by (intro revealedAt_mine_cellsRel[of "grid s" "grid s'" p]) simp_all
  qed
  from 1 2 3 4 show ?thesis by (intro conjI)
qed

theorem reachable_revealedCount_witness:
  "reachable demoLost \<and> revealedCount demoLost = 3 \<and>
   countCells (\<lambda>c. isRevealed c \<and> \<not> isMine c) (grid demoLost) = 3 \<and>
   countCells isRevealed (grid demoLost) = 5"
proof -
  have r: "revealedCount demoLost = 3" by code_simp
  have a: "countCells isRevealed (grid demoLost) = 5" by code_simp
  from reachable_revealedCount[OF reachable_demoLost] r a reachable_demoLost
  show ?thesis by simp
qed

lemma countCells_less:
  assumes "cellAt g r c = Some cl" and "\<not> P cl"
  shows "countCells P g < sum_list (map length g)"
proof -
  have "countCells (\<lambda>x. \<not> P x) g \<noteq> 0"
  proof
    assume "countCells (\<lambda>x. \<not> P x) g = 0"
    from countCells_zero[OF this assms(1)] assms(2) show False by simp
  qed
  moreover have "countCells (\<lambda>x. True \<and> P x) g + countCells (\<lambda>x. True \<and> \<not> P x) g =
      countCells (\<lambda>x. True) g"
    by (rule countCells_split)
  moreover have "countCells (\<lambda>x. True) g \<le> sum_list (map length g)" by (rule countCells_le)
  ultimately show ?thesis by simp
qed

text \<open>A first click whose mine placement returns: the mines were fewer than the cells.\<close>

lemma first_click_less:
  assumes "gameInv s" and "\<not> gameStarted s" and "cellAt (grid s) row col = Some cl0"
    and "placeMines s row col = Inr s1"
  shows "mineCount s < rows s * cols s"
proof -
  from assms(1) have wf: "wfGame s" and fr: "freshOk s" by (simp_all add: gameInv_def coreInv_def)
  note e = placeMines_effect[OF assms(4) wf]
  from fr assms(2) have nm: "noCell isMine (grid s)" by (simp add: freshOk_def)
  then have "countCells isMine (grid s) = 0" by (rule noCell_countCells)
  with e(12) have m: "countCells isMine (grid s1) = mineCount s" by simp
  from cellsRelD[OF e(9) assms(3)] obtain cl where
    cl: "cellAt (grid s1) row col = Some cl" "placement row col row col cl0 cl" by blast
  from nm assms(3) have "\<not> isMine cl0" by (auto simp: noCell_def)
  with cl(2) have "\<not> isMine cl" by (simp add: placement_def)
  with cl(1) have "countCells isMine (grid s1) < sum_list (map length (grid s1))"
    by (rule countCells_less)
  also have "\<dots> = rows s * cols s" using e(10) e(1,2) by (simp add: wfGame_def sum_list_replicate)
  finally show ?thesis using m by simp
qed

lemma gameInv_win_iff:
  assumes "gameInv s" and "gameStarted s \<or> mineCount s < rows s * cols s"
  shows "(face s = FaceWin) = checkWin s"
proof (cases "gameStarted s")
  case True
  with assms(1) show ?thesis by (simp add: gameInv_def winOk_def)
next
  case False
  with assms(2) have lt: "mineCount s < rows s * cols s" by simp
  from assms(1) have fr: "freshOk s" and cnt: "countOk s" and ph: "phaseOk s"
    by (simp_all add: gameInv_def coreInv_def)
  from ph False have "face s = FaceNew" by (auto simp: phaseOk_def)
  moreover have "\<not> checkWin s"
  proof -
    from fr False have n: "noCell isRevealed (grid s)" by (simp add: freshOk_def)
    have "noCell (\<lambda>c. isRevealed c \<and> \<not> isMine c) (grid s)"
      by (rule noCell_mono[OF n]) simp
    then have "countCells (\<lambda>c. isRevealed c \<and> \<not> isMine c) (grid s) = 0"
      by (rule noCell_countCells)
    with cnt have z: "revealedCount s = 0" by (simp add: countOk_def)
    from lt have "int (mineCount s) < int (rows s) * int (cols s)"
      by (simp flip: of_nat_mult)
    with z show ?thesis by (simp add: checkWin_def Let_def)
  qed
  ultimately show ?thesis by simp
qed

text \<open>A reveal that leaves a started game began in one, or the mines are fewer than the cells.\<close>

lemma handleReveal_started:
  assumes "gameInv s" and "handleReveal s row col = Inr s'" and "gameStarted s'"
  shows "gameStarted s \<or> mineCount s < rows s * cols s"
  using assms(2)
proof (cases rule: handleReveal_cases)
  case over
  with assms(3) show ?thesis by simp
next
  case (closed cl0)
  with assms(3) show ?thesis by simp
next
  case (running cl0)
  then show ?thesis by simp
next
  case (first cl0 s1)
  from first_click_less[OF assms(1) first(5) first(2) first(6)] show ?thesis by simp
qed

text \<open>
  C4. Take \<^verbatim>\<open>handleReveal\<close> in a reachable state, and let the game be started afterwards
  or the mines be fewer than the cells (the bound the specification puts on \<open>mineCount\<close>;
  the three presets meet it). Then the game shows the win exactly when \<open>revealedCount\<close>
  equals \<open>rows * cols - mineCount\<close>; a game that shows the win is over; and the reveal
  turns the game into a won one exactly when it makes the two numbers equal.
\<close>

theorem handleReveal_win_iff:
  assumes "reachable s" and "handleReveal s row col = Inr s'"
    and "gameStarted s' \<or> mineCount s < rows s * cols s"
  shows "((face s' = FaceWin) =
            (int (revealedCount s') = int (rows s') * int (cols s') - int (mineCount s'))) \<and>
         (face s' = FaceWin \<longrightarrow> gameOver s') \<and>
         ((face s \<noteq> FaceWin \<and> face s' = FaceWin) = (\<not> checkWin s \<and> checkWin s'))"
proof -
  note inv = reachable_gameInv[OF assms(1)]
  have "step s (Reveal row col) = Inr s'" using assms(2) by simp
  with assms(1) have "reachable s'" by (rule reachable_step)
  then have inv': "gameInv s'" by (rule reachable_gameInv)
  note e = handleReveal_effect[OF gameInv_wfGame[OF inv] assms(2)]
  from assms(3) handleReveal_started[OF inv assms(2)]
  have h: "gameStarted s \<or> mineCount s < rows s * cols s" by blast
  from assms(3) e(2,3,4) have h': "gameStarted s' \<or> mineCount s' < rows s' * cols s'" by simp
  note w = gameInv_win_iff[OF inv h] and w' = gameInv_win_iff[OF inv' h']
  from inv' have "phaseOk s'" by (simp add: gameInv_def coreInv_def)
  then have "face s' = FaceWin \<longrightarrow> gameOver s'" by (auto simp: phaseOk_def)
  with w w' show ?thesis by (simp add: checkWin_def Let_def)
qed

theorem handleReveal_win_iff_witness:
  "reachable demoRunning \<and> handleReveal demoRunning 0 4 = Inr demoWon \<and>
   gameStarted demoWon \<and>
   face demoRunning = FaceNew \<and> revealedCount demoRunning = 3 \<and>
   face demoWon = FaceWin \<and> gameOver demoWon \<and> revealedCount demoWon = 4 \<and>
   int (rows demoWon) * int (cols demoWon) - int (mineCount demoWon) = 4"
proof -
  have st: "gameStarted demoWon" by code_simp
  have f: "face demoRunning = FaceNew" "revealedCount demoRunning = 3"
    by (simp_all add: demoRunning_def)
  have r: "revealedCount demoWon = 4" by code_simp
  have d: "int (rows demoWon) * int (cols demoWon) - int (mineCount demoWon) = 4" by code_simp
  from st have "gameStarted demoWon \<or> mineCount demoRunning < rows demoRunning * cols demoRunning"
    by simp
  from handleReveal_win_iff[OF reachable_demoRunning demoWon_reached this] r d
  have "face demoWon = FaceWin \<and> gameOver demoWon" by simp
  with reachable_demoRunning demoWon_reached st f r d show ?thesis by simp
qed

end
